(* ===== verification/Prelude.thy ===== *)
theory Prelude
  imports Main "HOL-Library.Word"
begin

text \<open>
  Shared vocabulary of the OpenOS development: the C integer types as machine words,
  the \<open>for\<close> and first-match loops that the kernel writes over its static tables, ring
  buffers, and the generic lemmas on lists, options and words that the component
  theories use.
\<close>

unbundle bit_operations_syntax

section \<open>Integer types\<close>

type_synonym u8 = "8 word"
type_synonym u16 = "16 word"
type_synonym u32 = "32 word"
type_synonym u64 = "64 word"

text \<open>
  On the 32-bit target \<open>size_t\<close>, \<open>uintptr_t\<close> and every data pointer are 32 bits wide.
\<close>

type_synonym size_t = u32
type_synonym addr = u32

section \<open>Collections of facts\<close>

named_theorems index_simps \<open>facts about first-match searches\<close>
named_theorems ring_simps \<open>facts about ring buffers\<close>

section \<open>First match in a table\<close>

text \<open>
  The loop \<^verbatim>\<open>for (i = 0; i < N; i++) if (P(table[i])) return i;\<close>, which the kernel uses
  for every slot allocation and every lookup in a static table.
\<close>

fun first_index :: "('a \<Rightarrow> bool) \<Rightarrow> 'a list \<Rightarrow> nat option" where
  "first_index P [] = None"
| "first_index P (x # xs) = (if P x then Some 0 else map_option Suc (first_index P xs))"

lemma first_index_None_iff [index_simps]:
  "first_index P xs = None \<longleftrightarrow> (\<forall>i < length xs. \<not> P (xs ! i))"
  by (induction xs) (auto simp: less_Suc_eq_0_disj)

lemma first_index_Some_iff [index_simps]:
  "first_index P xs = Some i \<longleftrightarrow> i < length xs \<and> P (xs ! i) \<and> (\<forall>j < i. \<not> P (xs ! j))"
proof (induction xs arbitrary: i)
  case Nil
  then show ?case by simp
next
  case (Cons x xs)
  then show ?case
    by (cases i) (auto simp: less_Suc_eq_0_disj)
qed

lemma first_index_SomeD:
  "first_index P xs = Some i \<Longrightarrow> i < length xs \<and> P (xs ! i)"
  by (simp add: first_index_Some_iff)

lemma first_index_ex:
  assumes "i < length xs" and "P (xs ! i)"
  shows "\<exists>j \<le> i. first_index P xs = Some j"
proof (cases "first_index P xs")
  case None
  with assms show ?thesis by (auto simp: first_index_None_iff)
next
  case (Some j)
  with assms show ?thesis
    by (meson first_index_Some_iff linorder_not_less)
qed

lemma first_index_cong_le:
  "length xs = length ys \<Longrightarrow> (\<And>i. i < length xs \<Longrightarrow> P (xs ! i) = Q (ys ! i)) \<Longrightarrow>
    first_index P xs = first_index Q ys"
proof (induction xs ys rule: list_induct2)
  case Nil
  then show ?case by simp
next
  case (Cons x xs y ys)
  from Cons.prems [of 0] have "P x = Q y" by simp
  moreover have "first_index P xs = first_index Q ys"
  proof (rule Cons.IH)
    fix i
    assume "i < length xs"
    with Cons.prems [of "Suc i"] show "P (xs ! i) = Q (ys ! i)" by simp
  qed
  ultimately show ?case by simp
qed

lemma find_upt_Some_iff: "find P [0..<n] = Some i \<longleftrightarrow> i < n \<and> P i \<and> (\<forall>j<i. \<not> P j)"
  by (auto simp: find_Some_iff)

lemma find_upt_None_iff: "find P [0..<n] = None \<longleftrightarrow> (\<forall>i<n. \<not> P i)"
  by (auto simp: find_None_iff)

section \<open>Counted loops over 32-bit indices\<close>

lemma unat_u32_less: "unat (w :: u32) < 4294967296"
  using unsigned_less [of w, where 'a = nat] by simp

lemma unat_u8_less: "unat (w :: u8) < 256"
  using unsigned_less [of w, where 'a = nat] by simp

lemma unat_Suc_less: "i < (hi :: u32) \<Longrightarrow> unat (i + 1) = Suc (unat i)"
  using unat_u32_less [of hi] by (simp add: word_less_nat_alt unat_word_ariths)

text \<open>
  \<^verbatim>\<open>for (uint32_t i = lo; i < hi; i++) s = f(i, s);\<close> The index cannot wrap around: it is
  below \<open>hi\<close> whenever it is incremented.
\<close>

function for_u32 :: "u32 \<Rightarrow> u32 \<Rightarrow> (u32 \<Rightarrow> 's \<Rightarrow> 's) \<Rightarrow> 's \<Rightarrow> 's" where
  "for_u32 i hi f s = (if i < hi then for_u32 (i + 1) hi f (f i s) else s)"
  by pat_completeness auto
termination
  by (relation "measure (\<lambda>(i, hi, f, s). unat hi - unat i)")
    (auto simp: unat_Suc_less word_less_nat_alt)

declare for_u32.simps [simp del]

lemma for_u32_done [simp]: "\<not> i < hi \<Longrightarrow> for_u32 i hi f s = s"
  by (simp add: for_u32.simps)

lemma for_u32_step: "i < hi \<Longrightarrow> for_u32 i hi f s = for_u32 (i + 1) hi f (f i s)"
  by (simp add: for_u32.simps)

text \<open>The loop is a fold over the indices it visits.\<close>

lemma for_u32_fold:
  "for_u32 i hi f s = fold (\<lambda>k. f (of_nat k)) [unat i ..< unat hi] s"
proof (induction i hi f s rule: for_u32.induct)
  case (1 i hi f s)
  show ?case
  proof (cases "i < hi")
    case True
    then have "[unat i ..< unat hi] = unat i # [unat (i + 1) ..< unat hi]"
      by (simp add: unat_Suc_less upt_conv_Cons word_less_nat_alt)
    with True 1 show ?thesis by (simp add: for_u32_step)
  next
    case False
    then show ?thesis by (simp add: word_less_nat_alt)
  qed
qed

text \<open>
  An invariant of the loop: \<open>P k s\<close> holds when the loop is about to test index \<open>k\<close>.
\<close>

lemma for_u32_preserves:
  "(\<And>k s. g (f k s) = g s) \<Longrightarrow> g (for_u32 i hi f s) = g s"
  by (induction i hi f s rule: for_u32.induct) (metis for_u32_done for_u32_step)

lemma u32_range_step:
  fixes a b p :: u32
  assumes "a < b"
  shows "a \<le> p \<and> p < b \<longleftrightarrow> p = a \<or> (a + 1 \<le> p \<and> p < b)"
  using assms unat_Suc_less [OF assms] by (auto simp: word_le_nat_alt word_less_nat_alt word_unat_eq_iff)

lemma for_u32_invariant:
  assumes "P i s" and "i \<le> hi"
    and "\<And>k s. i \<le> k \<Longrightarrow> k < hi \<Longrightarrow> P k s \<Longrightarrow> P (k + 1) (f k s)"
  shows "P hi (for_u32 i hi f s)"
  using assms
proof (induction i hi f s rule: for_u32.induct)
  case (1 i hi f s)
  show ?case
  proof (cases "i < hi")
    case True
    have le: "i + 1 \<le> hi" and up: "i \<le> i + 1"
      using True unat_Suc_less [OF True] by (simp_all add: word_le_nat_alt word_less_nat_alt)
    have "P hi (for_u32 (i + 1) hi f (f i s))"
    proof (rule "1.IH" [OF True])
      show "P (i + 1) (f i s)" using "1.prems" True by simp
      show "i + 1 \<le> hi" by (rule le)
      show "P (k + 1) (f k s')" if "i + 1 \<le> k" "k < hi" "P k s'" for k s'
        using "1.prems"(3) that up by (meson order_trans)
    qed
    with True show ?thesis by (simp add: for_u32_step)
  next
    case False
    with "1.prems" have "i = hi" by simp
    with "1.prems" show ?thesis by simp
  qed
qed

section \<open>Ring buffers\<close>

text \<open>
  The elements of a ring of fixed capacity that start at position \<open>r\<close> and are \<open>c\<close> long,
  oldest first.
\<close>

definition ring_elems :: "'a list \<Rightarrow> nat \<Rightarrow> nat \<Rightarrow> 'a list" where
  "ring_elems buf r c = map (\<lambda>i. buf ! ((r + i) mod length buf)) [0 ..< c]"

lemma length_ring_elems [simp]: "length (ring_elems buf r c) = c"
  by (simp add: ring_elems_def)

lemma ring_elems_0 [simp]: "ring_elems buf r 0 = []"
  by (simp add: ring_elems_def)

lemma ring_slot_fresh:
  assumes "(i :: nat) < c" and "c < n"
  shows "(r + i) mod n \<noteq> (r + c) mod n"
proof
  assume "(r + i) mod n = (r + c) mod n"
  then have "n dvd (c - i)"
    using assms(1) by (metis add_diff_cancel_left le_add1 mod_eq_dvd_iff_nat
        nat_add_left_cancel_le order_less_imp_le)
  with assms have "n \<le> c - i" by (simp add: dvd_imp_le)
  with assms show False by simp
qed

lemma ring_push [ring_simps]:
  assumes "c < length buf" and "w = (r + c) mod length buf"
  shows "ring_elems (buf[w := x]) r (Suc c) = ring_elems buf r c @ [x]"
proof -
  have "w < length buf" using assms by (metis mod_less_divisor not_less_zero gr0I)
  moreover have "\<forall>i \<in> set [0 ..< c]. buf[w := x] ! ((r + i) mod length buf)
      = buf ! ((r + i) mod length buf)"
    using assms ring_slot_fresh by (metis atLeastLessThan_iff nth_list_update_neq set_upt)
  ultimately show ?thesis using assms(2) by (simp add: ring_elems_def)
qed

lemma ring_pop [ring_simps]:
  assumes "0 < c" and "r < length buf"
  shows "ring_elems buf r c = buf ! r # ring_elems buf (Suc r mod length buf) (c - 1)"
proof -
  have "[0 ..< c] = 0 # map Suc [0 ..< c - 1]"
    using assms(1) by (simp add: map_Suc_upt upt_conv_Cons)
  then have "ring_elems buf r c
      = buf ! (r mod length buf) # map (\<lambda>i. buf ! ((r + Suc i) mod length buf)) [0 ..< c - 1]"
    by (simp add: ring_elems_def)
  also have "\<dots> = buf ! r # ring_elems buf (Suc r mod length buf) (c - 1)"
    using assms(2) by (simp add: ring_elems_def mod_simps)
  finally show ?thesis .
qed

section \<open>The interface of a bounded FIFO\<close>

text \<open>
  What a client may rely on in a queue of bounded capacity: \<open>elems\<close> is the queued sequence,
  \<open>push\<close> appends while there is room, \<open>pop\<close> takes the oldest element.
\<close>

primrec drain :: "('q \<Rightarrow> 'a \<times> 'q) \<Rightarrow> nat \<Rightarrow> 'q \<Rightarrow> 'a list \<times> 'q" where
  "drain pop 0 q = ([], q)"
| "drain pop (Suc n) q = (let (x, q') = pop q; (xs, q'') = drain pop n q' in (x # xs, q''))"

locale bounded_fifo =
  fixes invar :: "'q \<Rightarrow> bool"
    and elems :: "'q \<Rightarrow> 'a list"
    and capacity :: nat
    and push :: "'a \<Rightarrow> 'q \<Rightarrow> 'q"
    and pop :: "'q \<Rightarrow> 'a \<times> 'q"
  assumes elems_bounded: "invar q \<Longrightarrow> length (elems q) \<le> capacity"
    and push_invar: "invar q \<Longrightarrow> length (elems q) < capacity \<Longrightarrow> invar (push x q)"
    and push_elems: "invar q \<Longrightarrow> length (elems q) < capacity \<Longrightarrow> elems (push x q) = elems q @ [x]"
    and pop_invar: "invar q \<Longrightarrow> elems q \<noteq> [] \<Longrightarrow> invar (snd (pop q))"
    and pop_elems: "invar q \<Longrightarrow> elems q \<noteq> [] \<Longrightarrow> elems q = fst (pop q) # elems (snd (pop q))"
begin

lemma fold_push:
  assumes "invar q" and "length (elems q) + length xs \<le> capacity"
  shows "invar (fold push xs q)" and "elems (fold push xs q) = elems q @ xs"
  using assms
proof (induction xs arbitrary: q)
  case (Cons x xs)
  case 1
  with Cons.IH(1) [of "push x q"] show ?case by (simp add: push_invar push_elems)
next
  case (Cons x xs)
  case 2
  with Cons.IH(2) [of "push x q"] show ?case by (simp add: push_invar push_elems)
qed auto

lemma drain_elems:
  assumes "invar q" and "n \<le> length (elems q)"
  shows "fst (drain pop n q) = take n (elems q)" and "invar (snd (drain pop n q))"
    and "elems (snd (drain pop n q)) = drop n (elems q)"
proof -
  have "fst (drain pop n q) = take n (elems q) \<and> invar (snd (drain pop n q)) \<and>
      elems (snd (drain pop n q)) = drop n (elems q)"
    using assms
  proof (induction n arbitrary: q)
    case (Suc n)
    then have ne: "elems q \<noteq> []" by auto
    obtain x q' where pop: "pop q = (x, q')" by (cases "pop q")
    with Suc.prems ne have "invar q'" and eq: "elems q = x # elems q'"
      using pop_invar pop_elems by (metis snd_conv, metis fst_conv snd_conv)
    with Suc have "fst (drain pop n q') = take n (elems q') \<and> invar (snd (drain pop n q')) \<and>
      elems (snd (drain pop n q')) = drop n (elems q')" by simp
    with pop eq show ?case by (auto simp: split_beta)
  qed simp
  then show "fst (drain pop n q) = take n (elems q)" and "invar (snd (drain pop n q))"
    and "elems (snd (drain pop n q)) = drop n (elems q)" by auto
qed

text \<open>What goes in comes out, in order.\<close>

lemma push_then_drain:
  assumes "invar q" and "elems q = []" and "length xs \<le> capacity"
  shows "fst (drain pop (length xs) (fold push xs q)) = xs"
  using drain_elems(1) [of "fold push xs q" "length xs"] fold_push [of q xs] assms by simp

end

end
