(* ===== verification/CString.thy ===== *)
theory CString
  imports Prelude "HOL-Library.Monad_Syntax" "HOL-Library.Signed_Division"
begin

text \<open>
  The string and memory routines of \<^verbatim>\<open>kernel/string.c\<close>.

  A C object of type \<^verbatim>\<open>char[n]\<close> is a list of \<open>n\<close> characters; a pointer into it that is
  only read forward is the suffix it points to. An access outside the object is undefined
  behaviour in C and is the result \<open>None\<close> here, so that a theorem that a routine returns
  \<open>Some\<close> says in particular that it stays inside its buffers. Source and destination are
  different objects, as in every call of the kernel.
\<close>

abbreviation NUL :: char where
  "NUL \<equiv> CHR 0x00"

type_synonym cbuf = "char list"

text \<open>The string a buffer holds, and that it holds one at all.\<close>

definition cstring :: "cbuf \<Rightarrow> string" where
  "cstring b = takeWhile (\<lambda>c. c \<noteq> NUL) b"

definition terminated :: "cbuf \<Rightarrow> bool" where
  "terminated b \<longleftrightarrow> NUL \<in> set b"

section \<open>Length, comparison, copy\<close>

fun string_length :: "cbuf \<Rightarrow> nat option" where
  "string_length [] = None"
| "string_length (c # cs) = (if c \<noteq> NUL then map_option Suc (string_length cs) else Some 0)"

fun string_compare :: "cbuf \<Rightarrow> cbuf \<Rightarrow> int option" where
  "string_compare (c # cs) (d # ds) =
     (if c \<noteq> NUL \<and> d \<noteq> NUL \<and> c = d then string_compare cs ds
      else Some (of_char c - of_char d))"
| "string_compare _ _ = None"

fun string_copy :: "cbuf \<Rightarrow> cbuf \<Rightarrow> cbuf option" where
  "string_copy (d # ds) (c # cs) =
     (if c \<noteq> NUL then map_option ((#) c) (string_copy ds cs) else Some (NUL # ds))"
| "string_copy _ _ = None"

fun string_concat :: "cbuf \<Rightarrow> cbuf \<Rightarrow> cbuf option" where
  "string_concat [] src = None"
| "string_concat (d # ds) src =
     (if d \<noteq> NUL then map_option ((#) d) (string_concat ds src)
      else string_copy (d # ds) src)"

definition is_whitespace :: "char \<Rightarrow> bool" where
  "is_whitespace c \<longleftrightarrow>
     c = CHR '' '' \<or> c = CHR 0x09 \<or> c = CHR 0x0A \<or> c = CHR 0x0D"

section \<open>The standard routines\<close>

fun strncpy_pad :: "cbuf \<Rightarrow> nat \<Rightarrow> cbuf option" where
  "strncpy_pad dest 0 = Some dest"
| "strncpy_pad [] (Suc n) = None"
| "strncpy_pad (d # ds) (Suc n) = map_option ((#) NUL) (strncpy_pad ds n)"

fun strncpy :: "cbuf \<Rightarrow> cbuf \<Rightarrow> nat \<Rightarrow> cbuf option" where
  "strncpy dest src 0 = Some dest"
| "strncpy (d # ds) (c # cs) (Suc n) =
     (if c \<noteq> NUL then map_option ((#) c) (strncpy ds cs n)
      else strncpy_pad (d # ds) (Suc n))"
| "strncpy _ _ (Suc n) = None"

fun memcpy :: "'a list \<Rightarrow> 'a list \<Rightarrow> nat \<Rightarrow> 'a list option" where
  "memcpy dest src 0 = Some dest"
| "memcpy (d # ds) (x # xs) (Suc n) = map_option ((#) x) (memcpy ds xs n)"
| "memcpy _ _ (Suc n) = None"

fun memset :: "u8 list \<Rightarrow> int \<Rightarrow> nat \<Rightarrow> u8 list option" where
  "memset ptr value 0 = Some ptr"
| "memset (p # ps) value (Suc n) = map_option ((#) (word_of_int value)) (memset ps value n)"
| "memset [] value (Suc n) = None"

text \<open>\<^verbatim>\<open>strchr\<close>: the inner option is the returned pointer (an offset), \<open>None\<close> for NULL.\<close>

fun strchr :: "cbuf \<Rightarrow> char \<Rightarrow> nat option option" where
  "strchr [] ch = None"
| "strchr (c # cs) ch =
     (if c = NUL then Some None
      else if c = ch then Some (Some 0)
      else map_option (map_option Suc) (strchr cs ch))"

fun strncmp :: "cbuf \<Rightarrow> cbuf \<Rightarrow> nat \<Rightarrow> int option" where
  "strncmp s1 s2 0 = Some 0"
| "strncmp (c # cs) (d # ds) (Suc n) =
     (if c \<noteq> d then Some (of_char c - of_char d)
      else if c = NUL then Some 0
      else strncmp cs ds n)"
| "strncmp _ _ (Suc n) = None"

section \<open>Tokenizer\<close>

text \<open>
  \<^verbatim>\<open>string_tokenize\<close> keeps a static pointer into the caller's buffer and writes NULs into
  that buffer. The state holds the buffer and the pointer as an offset into it; a returned
  token is the offset where it starts.
\<close>

record tokenizer =
  tok_buf :: cbuf
  tokenize_last :: "nat option"

fun is_delim :: "string \<Rightarrow> char \<Rightarrow> bool" where
  "is_delim [] c = False"
| "is_delim (d # ds) c = (if c = d then True else is_delim ds c)"

function skip_delims :: "string \<Rightarrow> cbuf \<Rightarrow> nat \<Rightarrow> nat option" where
  "skip_delims delim buf i =
     (if i < length buf
      then if buf ! i \<noteq> NUL \<and> is_delim delim (buf ! i)
           then skip_delims delim buf (Suc i)
           else Some i
      else None)"
  by pat_completeness auto
termination
  by (relation "measure (\<lambda>(delim, buf, i). length buf - i)") auto

function find_delim :: "string \<Rightarrow> cbuf \<Rightarrow> nat \<Rightarrow> nat option" where
  "find_delim delim buf i =
     (if i < length buf
      then if buf ! i \<noteq> NUL \<and> \<not> is_delim delim (buf ! i)
           then find_delim delim buf (Suc i)
           else Some i
      else None)"
  by pat_completeness auto
termination
  by (relation "measure (\<lambda>(delim, buf, i). length buf - i)") auto

declare skip_delims.simps [simp del] find_delim.simps [simp del]

definition string_tokenize ::
    "nat option \<Rightarrow> string \<Rightarrow> tokenizer \<Rightarrow> (nat option \<times> tokenizer) option" where
  "string_tokenize str delim st =
     (let buf = tok_buf st;
          str' = (case str of None \<Rightarrow> tokenize_last st | Some p \<Rightarrow> Some p)
      in case str' of
           None \<Rightarrow> Some (None, st)
         | Some p \<Rightarrow>
             if length buf \<le> p then None
             else if buf ! p = NUL then Some (None, st)
             else do {
               q \<leftarrow> skip_delims delim buf p;
               if buf ! q = NUL then Some (None, st\<lparr>tokenize_last := None\<rparr>)
               else do {
                 e \<leftarrow> find_delim delim buf q;
                 if buf ! e = NUL then Some (Some q, st\<lparr>tokenize_last := None\<rparr>)
                 else Some (Some q, st\<lparr>tok_buf := buf[e := NUL], tokenize_last := Some (Suc e)\<rparr>)
               }
             })"

section \<open>Integer to ASCII\<close>

definition itoa_alphabet :: string where
  "itoa_alphabet = ''0123456789abcdefghijklmnopqrstuvwxyz''"

text \<open>
  The \<^verbatim>\<open>do ... while (value)\<close> loop: the characters written so far and the last
  \<open>tmp_value\<close>. Signed division truncates towards zero. The conjunct \<open>2 \<le> base\<close> always
  holds here, since \<open>itoa\<close> has checked the base.
\<close>

lemma abs_sdiv: "\<bar>a sdiv b\<bar> = \<bar>a\<bar> div \<bar>b\<bar>" for a b :: int
  by (cases "a = 0 \<or> b = 0") (auto simp: signed_divide_int_def abs_mult abs_sgn_eq pos_imp_zdiv_nonneg_iff)

function itoa_loop :: "int \<Rightarrow> int \<Rightarrow> string \<Rightarrow> string \<times> int" where
  "itoa_loop base value written =
     (let tmp_value = value;
          value' = value sdiv base;
          digit_value = tmp_value - value' * base;
          digit_value' = (if digit_value < 0 then - digit_value else digit_value);
          written' = written @ [itoa_alphabet ! nat digit_value']
      in if value' \<noteq> 0 \<and> 2 \<le> base then itoa_loop base value' written'
         else (written', tmp_value))"
  by pat_completeness auto
termination
proof (relation "measure (\<lambda>(base, value, written). nat \<bar>value\<bar>)", goal_cases)
  case 1
  then show ?case by simp
next
  case (2 b v w tmp v' dig dig' w')
  then have "v \<noteq> 0" by (auto simp: signed_divide_int_def)
  with 2 have "\<bar>v\<bar> div \<bar>b\<bar> < \<bar>v\<bar>" by (intro int_div_less_self) auto
  with 2 \<open>v \<noteq> 0\<close> show ?case by (simp add: abs_sdiv)
qed

declare itoa_loop.simps [simp del]

text \<open>The in-place reversal between the two pointers.\<close>

function reverse_range :: "nat \<Rightarrow> nat \<Rightarrow> 'a list \<Rightarrow> 'a list" where
  "reverse_range i j xs =
     (if i < j then reverse_range (Suc i) (j - 1) (xs[j := xs ! i, i := xs ! j]) else xs)"
  by pat_completeness auto
termination
  by (relation "measure (\<lambda>(i, j, xs). j - i)") auto

declare reverse_range.simps [simp del]

definition itoa :: "int \<Rightarrow> cbuf \<Rightarrow> int \<Rightarrow> cbuf option" where
  "itoa value str base =
     (if base < 2 \<or> 36 < base
      then if str = [] then None else Some (str[0 := NUL])
      else let (written, tmp_value) = itoa_loop base value [];
               written' = (if tmp_value < 0 \<and> base = 10 then written @ ''-'' else written);
               n = length written'
           in if length str \<le> n then None
              else Some (reverse_range 0 (n - 1) (written' @ NUL # drop (Suc n) str)))"

section \<open>Properties of the basic routines\<close>

lemma cstring_simps [simp]:
  "cstring [] = []"
  "cstring (c # cs) = (if c = NUL then [] else c # cstring cs)"
  "\<not> terminated []"
  "terminated (c # cs) \<longleftrightarrow> c = NUL \<or> terminated cs"
  by (auto simp: cstring_def terminated_def)

lemma NUL_notin_cstring [simp]: "NUL \<notin> set (cstring b)"
  by (induction b) auto

lemma cstring_append_NUL [simp]: "NUL \<notin> set s \<Longrightarrow> cstring (s @ NUL # r) = s"
  by (induction s) auto

lemma terminated_append_NUL [simp]: "terminated (s @ NUL # r)"
  by (induction s) auto

lemma terminated_split: "terminated b \<Longrightarrow> \<exists>r. b = cstring b @ NUL # r"
  by (induction b) auto

lemma length_cstring_less: "terminated b \<Longrightarrow> length (cstring b) < length b"
  by (induction b) auto

lemma string_length_eq:
  "string_length b = (if terminated b then Some (length (cstring b)) else None)"
  by (induction b) auto

lemma of_char_int_eq_0 [simp]: "(of_char c :: int) = 0 \<longleftrightarrow> c = NUL"
  using of_char_eq_iff [of c NUL, where 'a = int] by simp

lemma of_char_int_nonneg [simp]: "0 \<le> (of_char c :: int)"
  by (metis of_nat_0_le_iff of_nat_of_char)

lemma of_char_int_pos: "c \<noteq> NUL \<Longrightarrow> 0 < (of_char c :: int)"
  by (simp add: order_le_neq_trans [OF of_char_int_nonneg] not_sym)

lemma string_compare_Some:
  "terminated a \<Longrightarrow> terminated b \<Longrightarrow> \<exists>r. string_compare a b = Some r"
  by (induction a b rule: string_compare.induct) auto

lemma string_compare_zero:
  "terminated a \<Longrightarrow> terminated b \<Longrightarrow>
    string_compare a b = Some 0 \<longleftrightarrow> cstring a = cstring b"
  by (induction a b rule: string_compare.induct) auto

definition char_less :: "(char \<times> char) set" where
  "char_less = {(c, d). (of_char c :: int) < of_char d}"

lemma string_compare_negative:
  "terminated a \<Longrightarrow> terminated b \<Longrightarrow> string_compare a b = Some r \<Longrightarrow>
    r < 0 \<longleftrightarrow> (cstring a, cstring b) \<in> lexord char_less"
  by (induction a b rule: string_compare.induct)
    (auto simp: char_less_def of_char_int_pos not_less split: if_splits)

lemma string_copy_eq:
  assumes "terminated src" and "length (cstring src) < length dest"
  shows "string_copy dest src =
    Some (cstring src @ NUL # drop (Suc (length (cstring src))) dest)"
  using assms by (induction dest src rule: string_copy.induct) auto

lemma string_copy_Some_iff:
  "terminated src \<Longrightarrow> (\<exists>r. string_copy dest src = Some r) \<longleftrightarrow> length (cstring src) < length dest"
  by (induction dest src rule: string_copy.induct) auto

lemma string_concat_eq:
  assumes "terminated dest" and "terminated src"
    and "length (cstring dest) + length (cstring src) < length dest"
  shows "string_concat dest src = Some (cstring dest @ cstring src @ NUL #
    drop (Suc (length (cstring dest) + length (cstring src))) dest)"
  using assms
  by (induction dest src rule: string_concat.induct) (auto simp: string_copy_eq)

lemma string_concat_Some_iff:
  "terminated dest \<Longrightarrow> terminated src \<Longrightarrow> (\<exists>r. string_concat dest src = Some r) \<longleftrightarrow>
    length (cstring dest) + length (cstring src) < length dest"
  by (induction dest src rule: string_concat.induct) (auto simp: string_copy_Some_iff)

lemma strncpy_pad_eq:
  "n \<le> length dest \<Longrightarrow> strncpy_pad dest n = Some (replicate n NUL @ drop n dest)"
  by (induction dest n rule: strncpy_pad.induct) auto

lemma strncpy_eq:
  assumes "terminated src" and "n \<le> length dest"
  shows "strncpy dest src n =
    Some (take n (cstring src) @ replicate (n - length (cstring src)) NUL @ drop n dest)"
  using assms
proof (induction dest src n rule: strncpy.induct)
  case (2 d ds c cs n)
  then show ?case by (auto simp: strncpy_pad_eq)
qed auto

lemma memcpy_eq:
  "n \<le> length dest \<Longrightarrow> n \<le> length src \<Longrightarrow>
    memcpy dest src n = Some (take n src @ drop n dest)"
  by (induction dest src n rule: memcpy.induct) auto

lemma memcpy_Some_iff:
  "(\<exists>r. memcpy dest src n = Some r) \<longleftrightarrow> n \<le> length dest \<and> n \<le> length src"
  by (induction dest src n rule: memcpy.induct) auto

lemma memset_eq:
  "n \<le> length ptr \<Longrightarrow> memset ptr v n = Some (replicate n (word_of_int v) @ drop n ptr)"
  by (induction ptr v n rule: memset.induct) auto

lemma strncmp_zero:
  "terminated a \<Longrightarrow> terminated b \<Longrightarrow>
    strncmp a b n = Some 0 \<longleftrightarrow> take n (cstring a) = take n (cstring b)"
  by (induction a b n rule: strncmp.induct) auto

lemma strchr_eq:
  "terminated b \<Longrightarrow> c \<noteq> NUL \<Longrightarrow> strchr b c = Some (first_index (\<lambda>x. x = c) (cstring b))"
  by (induction b c rule: strchr.induct) auto

section \<open>The tokenizer splits at delimiters\<close>

text \<open>
  What the sequence of calls computes: the maximal non-empty runs of characters that are
  not delimiters, in order.
\<close>

lemma length_tl_dropWhile_less:
  "dropWhile P s \<noteq> [] \<Longrightarrow> length (tl (dropWhile Q (dropWhile P s))) < length s"
  using length_dropWhile_le [of Q "dropWhile P s"] length_dropWhile_le [of P s]
  by (cases "dropWhile P s") (auto simp: less_Suc_eq_le split: if_splits intro: le_trans)

function tokens :: "string \<Rightarrow> string \<Rightarrow> string list" where
  "tokens D s =
     (let s' = dropWhile (\<lambda>c. c \<in> set D) s
      in if s' = [] then []
         else takeWhile (\<lambda>c. c \<notin> set D) s' # tokens D (tl (dropWhile (\<lambda>c. c \<notin> set D) s')))"
  by pat_completeness auto
termination
  by (relation "measure (\<lambda>(D, s). length s)")
    (simp_all only: wf_measure in_measure split_conv length_tl_dropWhile_less not_False_eq_True)

declare tokens.simps [simp del]

lemma is_delim_iff [simp]: "is_delim D c \<longleftrightarrow> c \<in> set D"
  by (induction D) auto

lemma terminated_drop_Cons:
  assumes "terminated (drop p b)"
  shows "p < length b" and "drop p b = b ! p # drop (Suc p) b"
proof -
  show "p < length b"
    using assms by (cases "p < length b") (auto simp: terminated_def)
  then show "drop p b = b ! p # drop (Suc p) b"
    by (simp add: Cons_nth_drop_Suc)
qed

lemma skip_delims_eq:
  assumes "terminated (drop p b)"
  shows "skip_delims D b p = Some (p + length (takeWhile (\<lambda>c. c \<in> set D) (cstring (drop p b))))"
  using assms
proof (induction D b p rule: skip_delims.induct)
  case (1 D b p)
  note eq = terminated_drop_Cons [OF "1.prems"]
  with "1.prems" have "b ! p \<noteq> NUL \<Longrightarrow> terminated (drop (Suc p) b)" by simp
  with 1 eq show ?case by (simp add: skip_delims.simps [of D b p])
qed

lemma find_delim_eq:
  assumes "terminated (drop p b)"
  shows "find_delim D b p = Some (p + length (takeWhile (\<lambda>c. c \<notin> set D) (cstring (drop p b))))"
  using assms
proof (induction D b p rule: find_delim.induct)
  case (1 D b p)
  note eq = terminated_drop_Cons [OF "1.prems"]
  with "1.prems" have "b ! p \<noteq> NUL \<Longrightarrow> terminated (drop (Suc p) b)" by simp
  with 1 eq show ?case by (simp add: find_delim.simps [of D b p])
qed

text \<open>The text that the static pointer still has to deliver.\<close>

definition tok_rest :: "tokenizer \<Rightarrow> string" where
  "tok_rest st = (case tokenize_last st of None \<Rightarrow> [] | Some p \<Rightarrow> cstring (drop p (tok_buf st)))"

definition tok_wf :: "tokenizer \<Rightarrow> bool" where
  "tok_wf st \<longleftrightarrow> (case tokenize_last st of None \<Rightarrow> True | Some p \<Rightarrow> terminated (drop p (tok_buf st)))"

abbreviation tok_start :: "nat option \<Rightarrow> tokenizer \<Rightarrow> nat option" where
  "tok_start str st \<equiv> (case str of None \<Rightarrow> tokenize_last st | Some p \<Rightarrow> Some p)"

lemma cstring_drop_add:
  "n \<le> length (cstring (drop p b)) \<Longrightarrow> cstring (drop (p + n) b) = drop n (cstring (drop p b))"
proof (induction n arbitrary: p)
  case (Suc n)
  then have ne: "cstring (drop p b) \<noteq> []" by auto
  then have "p < length b" by (metis cstring_simps(1) drop_all linorder_not_less)
  then have eq: "drop p b = b ! p # drop (Suc p) b" by (simp add: Cons_nth_drop_Suc)
  with ne have "cstring (drop p b) = b ! p # cstring (drop (Suc p) b)"
    by (auto split: if_splits)
  with Suc.IH [of "Suc p"] Suc.prems show ?case by simp
qed simp

lemma terminated_drop_add:
  "terminated (drop p b) \<Longrightarrow> n \<le> length (cstring (drop p b)) \<Longrightarrow> terminated (drop (p + n) b)"
proof (induction n arbitrary: p)
  case (Suc n)
  note eq = terminated_drop_Cons [OF Suc.prems(1)]
  with Suc.prems have "terminated (drop (Suc p) b)" and "n \<le> length (cstring (drop (Suc p) b))"
    by (auto split: if_splits)
  from Suc.IH [OF this] show ?case by simp
qed simp

lemma nth_end_cstring:
  assumes "terminated (drop p b)"
  shows "b ! (p + length (cstring (drop p b))) = NUL"
proof -
  let ?n = "length (cstring (drop p b))"
  have "cstring (drop (p + ?n) b) = []" by (simp add: cstring_drop_add)
  moreover have "terminated (drop (p + ?n) b)" using assms by (simp add: terminated_drop_add)
  ultimately show ?thesis
    using terminated_drop_Cons by (metis cstring_simps(2) list.distinct(1))
qed

lemma nth_cstring:
  assumes "i < length (cstring (drop p b))"
  shows "b ! (p + i) = cstring (drop p b) ! i" and "p + i < length b"
proof -
  have pre: "drop p b = cstring (drop p b) @ dropWhile (\<lambda>c. c \<noteq> NUL) (drop p b)"
    by (simp add: cstring_def)
  have "i < length (drop p b)"
    using assms by (metis cstring_def length_takeWhile_le order_less_le_trans)
  then show "p + i < length b" by simp
  with pre assms show "b ! (p + i) = cstring (drop p b) ! i"
    by (metis add_leD1 less_imp_le_nat nth_append nth_drop)
qed

lemma cstring_drop_NUL:
  assumes "j < length b" and "b ! j = NUL" and "q \<le> j" and "\<And>i. q \<le> i \<Longrightarrow> i < j \<Longrightarrow> b ! i \<noteq> NUL"
  shows "cstring (drop q b) = take (j - q) (drop q b)" and "terminated (drop q b)"
proof -
  have split: "drop q b = take (j - q) (drop q b) @ NUL # drop (Suc j) b"
    using assms by (metis Cons_nth_drop_Suc append_take_drop_id drop_drop le_add_diff_inverse2)
  have "NUL \<notin> set (take (j - q) (drop q b))"
    using assms by (auto simp: in_set_conv_nth)
  with split show "cstring (drop q b) = take (j - q) (drop q b)" and "terminated (drop q b)"
    by (metis cstring_append_NUL, metis terminated_append_NUL)
qed

lemma takeWhile_drop_cstring:
  "drop (length (takeWhile P s)) s = dropWhile P s"
  "length (takeWhile P s) \<le> length s"
  by (simp_all add: dropWhile_eq_drop length_takeWhile_le)

text \<open>A call with only delimiters left returns NULL.\<close>

lemma string_tokenize_none:
  assumes "tok_start str st = Some p" and "terminated (drop p (tok_buf st))"
    and "tokens D (cstring (drop p (tok_buf st))) = []"
  obtains st' where "string_tokenize str D st = Some (None, st')" and "tok_buf st' = tok_buf st"
proof -
  let ?b = "tok_buf st" and ?s = "cstring (drop p (tok_buf st))"
  have all: "dropWhile (\<lambda>c. c \<in> set D) ?s = []"
    using assms(3) by (subst (asm) tokens.simps) (auto simp: Let_def split: if_splits)
  then have "length (takeWhile (\<lambda>c. c \<in> set D) ?s) = length ?s"
    by (metis takeWhile_dropWhile_id append_Nil2)
  with assms(2) have "skip_delims D ?b p = Some (p + length ?s)" by (simp add: skip_delims_eq)
  with assms show thesis
    using that terminated_drop_Cons(1) [OF assms(2)] nth_end_cstring [OF assms(2)]
    by (cases "?b ! p = NUL") (auto simp: string_tokenize_def Let_def not_le [symmetric])
qed

text \<open>
  A call with a token left returns its start, terminates it in the buffer, leaves everything
  before it alone and moves the static pointer behind it.
\<close>

lemma string_tokenize_some:
  assumes start: "tok_start str st = Some p" and trm: "terminated (drop p (tok_buf st))"
    and tok: "tokens D (cstring (drop p (tok_buf st))) = t # ts"
  obtains q st' where "string_tokenize str D st = Some (Some q, st')"
    and "cstring (drop q (tok_buf st')) = t" and "terminated (drop q (tok_buf st'))"
    and "p \<le> q" and "\<And>i. i < q \<Longrightarrow> tok_buf st' ! i = tok_buf st ! i"
    and "length (tok_buf st') = length (tok_buf st)"
    and "tokens D (tok_rest st') = ts" and "tok_wf st'"
    and "\<And>r. tokenize_last st' = Some r \<Longrightarrow> r = Suc (q + length t)"
proof -
  let ?b = "tok_buf st"
  define s where "s = cstring (drop p ?b)"
  define s' where "s' = dropWhile (\<lambda>c. c \<in> set D) s"
  define q where "q = p + length (takeWhile (\<lambda>c. c \<in> set D) s)"
  define e where "e = q + length t"
  from tok have ne: "s' \<noteq> []" and t: "t = takeWhile (\<lambda>c. c \<notin> set D) s'"
    and ts: "ts = tokens D (tl (dropWhile (\<lambda>c. c \<notin> set D) s'))"
    by (subst (asm) tokens.simps, auto simp: Let_def s_def s'_def split: if_splits)+
  have cq: "cstring (drop q ?b) = s'" and tq: "terminated (drop q ?b)"
    using trm by (simp_all add: q_def s_def s'_def cstring_drop_add terminated_drop_add
      takeWhile_drop_cstring)
  have ne_s: "?b ! p \<noteq> NUL" and p: "p < length ?b"
    using ne terminated_drop_Cons [OF trm] by (auto simp: s_def s'_def)
  have qn: "?b ! q \<noteq> NUL" and q: "q < length ?b"
    using ne cq terminated_drop_Cons [OF tq] by (metis cstring_simps(2), blast)
  have sk: "skip_delims D ?b p = Some q" using trm by (simp add: skip_delims_eq q_def s_def)
  have fd: "find_delim D ?b q = Some e" using tq by (simp add: find_delim_eq cq t e_def)
  have le: "length t \<le> length s'" by (simp add: t length_takeWhile_le)
  have ce: "cstring (drop e ?b) = dropWhile (\<lambda>c. c \<notin> set D) s'" and te: "terminated (drop e ?b)"
    using tq le cq by (simp_all add: e_def cstring_drop_add terminated_drop_add t takeWhile_drop_cstring)
  have e: "e < length ?b" using terminated_drop_Cons(1) [OF te] .
  show thesis
  proof (cases "?b ! e = NUL")
    case True
    then have nil: "dropWhile (\<lambda>c. c \<notin> set D) s' = []"
      using ce terminated_drop_Cons(2) [OF te] by (metis cstring_simps(2))
    then have "t = s'" by (metis t takeWhile_dropWhile_id append_Nil2)
    have res: "string_tokenize str D st = Some (Some q, st\<lparr>tokenize_last := None\<rparr>)"
      using start p ne_s sk qn fd True by (simp add: string_tokenize_def Let_def)
    have "ts = []" unfolding ts nil by (simp add: tokens.simps)
    show thesis
      by (rule that [OF res])
        (use \<open>t = s'\<close> \<open>ts = []\<close> cq tq in \<open>auto simp: q_def tok_rest_def tok_wf_def tokens.simps\<close>)
  next
    case False
    let ?b' = "?b[e := NUL]"
    have res: "string_tokenize str D st =
        Some (Some q, st\<lparr>tok_buf := ?b', tokenize_last := Some (Suc e)\<rparr>)"
      using start p ne_s sk qn fd False by (simp add: string_tokenize_def Let_def)
    have nz: "?b ! i \<noteq> NUL" if "q \<le> i" "i < e" for i
    proof -
      have "i - q < length s'" using that le by (simp add: e_def)
      then show ?thesis using nth_cstring(1) [of "i - q" q ?b] cq that NUL_notin_cstring
        by (metis le_add_diff_inverse nth_mem)
    qed
    have "cstring (drop q ?b') = take (e - q) (drop q ?b')" and tt: "terminated (drop q ?b')"
      using cstring_drop_NUL [of e ?b' q] e nz by (auto simp: e_def)
    then have "cstring (drop q ?b') = take (length t) (drop q ?b)"
      by (simp add: e_def drop_update_swap)
    also have "\<dots> = take (length t) s'"
      using le cq by (metis cstring_def takeWhile_eq_take take_take min.absorb1)
    also have "\<dots> = t" by (metis t takeWhile_eq_take)
    finally have tk: "cstring (drop q ?b') = t" .
    have cs: "cstring (drop (Suc e) ?b') = tl (dropWhile (\<lambda>c. c \<notin> set D) s')"
      and ts': "terminated (drop (Suc e) ?b')"
      using ce te terminated_drop_Cons(2) [OF te] False
      by (simp_all add: drop_update_cancel) (metis list.sel(3))
    show thesis
      by (rule that [OF res]) (use tk tt cs ts' ts in \<open>auto simp: q_def e_def tok_rest_def tok_wf_def\<close>)
  qed
qed

section \<open>Integer to ASCII writes the numeral\<close>

text \<open>The value that a string of digits stands for.\<close>

definition digit_of :: "char \<Rightarrow> int" where
  "digit_of c = int (length (takeWhile (\<lambda>d. d \<noteq> c) itoa_alphabet))"

definition digits_val :: "int \<Rightarrow> string \<Rightarrow> int" where
  "digits_val base ds = foldl (\<lambda>a c. a * base + digit_of c) 0 ds"

lemma digits_val_snoc [simp]: "digits_val base (ds @ [c]) = digits_val base ds * base + digit_of c"
  by (simp add: digits_val_def)

lemma digits_val_Nil [simp]: "digits_val base [] = 0"
  by (simp add: digits_val_def)

lemma alphabet_table:
  "list_all (\<lambda>n. digit_of (itoa_alphabet ! n) = int n \<and> itoa_alphabet ! n \<noteq> NUL \<and>
      itoa_alphabet ! n \<noteq> CHR ''-'' \<and> (itoa_alphabet ! n = CHR ''0'' \<longleftrightarrow> n = 0)) [0..<36]"
  by code_simp

lemma alphabet_nth:
  assumes "n < 36"
  shows "digit_of (itoa_alphabet ! n) = int n" and "itoa_alphabet ! n \<noteq> NUL"
    and "itoa_alphabet ! n \<noteq> CHR ''-''" and "itoa_alphabet ! n = CHR ''0'' \<longleftrightarrow> n = 0"
  using alphabet_table assms by (auto simp: list_all_iff)

definition is_numeral :: "int \<Rightarrow> string \<Rightarrow> bool" where
  "is_numeral base ds \<longleftrightarrow> ds \<noteq> [] \<and> (\<forall>c\<in>set ds. c \<in> set (take (nat base) itoa_alphabet))"

lemma is_numeral_no_special:
  assumes "is_numeral base ds" shows "NUL \<notin> set ds" and "CHR ''-'' \<notin> set ds"
proof -
  have "\<exists>n<36. c = itoa_alphabet ! n" if "c \<in> set ds" for c
  proof -
    from that assms have "c \<in> set itoa_alphabet" by (auto simp: is_numeral_def dest: in_set_takeD)
    moreover have "length itoa_alphabet = 36" by (simp add: itoa_alphabet_def)
    ultimately show ?thesis by (metis in_set_conv_nth)
  qed
  then show "NUL \<notin> set ds" and "CHR ''-'' \<notin> set ds"
    using alphabet_nth(2,3) by metis+
qed

text \<open>A numeral without leading zeros: together with its value it is determined.\<close>

definition canonical :: "int \<Rightarrow> string \<Rightarrow> bool" where
  "canonical base ds \<longleftrightarrow> is_numeral base ds \<and> (hd ds = CHR ''0'' \<longrightarrow> ds = ''0'')"

lemma digit_of_range:
  assumes "c \<in> set (take (nat base) itoa_alphabet)"
  shows "0 \<le> digit_of c" and "digit_of c < base"
proof -
  have l: "length itoa_alphabet = 36" by (simp add: itoa_alphabet_def)
  obtain n where n: "n < nat base" "n < 36" "c = itoa_alphabet ! n"
    using assms unfolding in_set_conv_nth length_take l by (auto simp: l)
  show "0 \<le> digit_of c" and "digit_of c < base" using n alphabet_nth(1) [OF n(2)] by auto
qed

lemma digits_val_bound:
  assumes "0 < base" and "set ds \<subseteq> set (take (nat base) itoa_alphabet)"
  shows "0 \<le> digits_val base ds" and "digits_val base ds < base ^ length ds"
proof -
  have "0 \<le> digits_val base ds \<and> digits_val base ds < base ^ length ds"
    using assms(2)
  proof (induction ds rule: rev_induct)
    case (snoc c ds)
    then have IH: "0 \<le> digits_val base ds" "digits_val base ds + 1 \<le> base ^ length ds"
        and c: "0 \<le> digit_of c" "digit_of c < base" using digit_of_range by auto
    have "(digits_val base ds + 1) * base \<le> base ^ length ds * base" using IH(2) assms(1) by (intro mult_right_mono) simp_all
    then have u: "digits_val base ds * base + base \<le> base ^ length (ds @ [c])" by (simp add: distrib_right power_Suc2 del: power_Suc)
    have "0 \<le> digits_val base ds * base" using IH(1) assms(1) by simp
    then show ?case unfolding digits_val_snoc using u c by linarith
  qed simp
  then show "0 \<le> digits_val base ds" and "digits_val base ds < base ^ length ds" by simp_all
qed

lemma digits_val_zero: "digits_val base (CHR ''0'' # ds) = digits_val base ds"
proof -
  have "digit_of (CHR ''0'') = 0" by code_simp
  then show ?thesis by (simp add: digits_val_def)
qed

lemma canonicalI:
  assumes "0 < base" and "is_numeral base ds" and "base ^ (length ds - 1) \<le> digits_val base ds"
  shows "canonical base ds"
proof (cases ds)
  case (Cons c es)
  then have "digits_val base es < base ^ (length ds - 1)"
    using digits_val_bound(2) [OF assms(1), of es] assms(2) by (auto simp: is_numeral_def)
  then have "c \<noteq> CHR ''0''" using assms(3) Cons digits_val_zero by auto
  then show ?thesis using assms(2) Cons by (simp add: canonical_def)
qed (use assms in \<open>simp add: is_numeral_def\<close>)

lemma sdiv_digit:
  fixes v base :: int
  assumes "2 \<le> base"
  shows "\<bar>v - v sdiv base * base\<bar> = \<bar>v\<bar> mod base"
proof -
  have "v - v sdiv base * base = sgn v * (\<bar>v\<bar> - \<bar>v\<bar> div base * base)"
    using assms by (simp add: signed_divide_int_def right_diff_distrib mult.assoc sgn_mult_abs)
  then have "v - v sdiv base * base = sgn v * (\<bar>v\<bar> mod base)"
    by (simp add: minus_div_mult_eq_mod)
  with assms show ?thesis by (cases "v = 0") (simp_all add: abs_mult abs_sgn_eq)
qed

lemma itoa_loop_spec:
  assumes "2 \<le> base" and "base \<le> 36"
  shows "\<exists>ds tmp. itoa_loop base v w = (w @ rev ds, tmp) \<and> digits_val base ds = \<bar>v\<bar> \<and>
    is_numeral base ds \<and> (tmp < 0 \<longleftrightarrow> v < 0) \<and> (v \<noteq> 0 \<longrightarrow> base ^ (length ds - 1) \<le> \<bar>v\<bar>) \<and>
    (v = 0 \<longrightarrow> ds = ''0'')"
  using assms
proof (induction base v w rule: itoa_loop.induct)
  case (1 base v w)
  let ?v = "v sdiv base"
  define d where "d = nat (\<bar>v\<bar> mod base)"
  have "\<bar>v\<bar> mod base < base" using "1.prems" by (intro pos_mod_bound) simp
  with "1.prems" have "\<bar>v\<bar> mod base < 36" by linarith
  then have d: "d < 36" "int d = \<bar>v\<bar> mod base" "d < nat base"
    using "1.prems" by (simp_all add: d_def nat_less_iff)
  have dig: "(if v - ?v * base < 0 then - (v - ?v * base) else v - ?v * base) = int d"
    using sdiv_digit [OF "1.prems"(1), of v] d by (simp add: abs_if)
  have mem: "itoa_alphabet ! d \<in> set (take (nat base) itoa_alphabet)"
    using d by (auto simp: in_set_conv_nth itoa_alphabet_def intro!: exI [of _ d])
  have split: "\<bar>?v\<bar> * base + int d = \<bar>v\<bar>" using d "1.prems" by (simp add: abs_sdiv)
  let ?c = "itoa_alphabet ! d"
  have loop: "itoa_loop base v w = (if ?v \<noteq> 0 then itoa_loop base ?v (w @ [?c]) else (w @ [?c], v))"
    using "1.prems"(1) by (subst itoa_loop.simps) (simp only: Let_def dig nat_int simp_thms)
  have zero: "v = 0 \<Longrightarrow> ?c = CHR ''0''" using split alphabet_nth(4) [OF d(1)] by auto
  show ?case
  proof (cases "?v = 0")
    case True
    with loop mem zero split alphabet_nth(1) [OF d(1)] have
      "itoa_loop base v w = (w @ rev [?c], v)" "digits_val base [?c] = \<bar>v\<bar>" "is_numeral base [?c]"
      "v = 0 \<longrightarrow> [?c] = ''0''" "v \<noteq> 0 \<longrightarrow> base ^ (length [?c] - 1) \<le> \<bar>v\<bar>"
      using digits_val_snoc [of base "[]" ?c] by (auto simp: is_numeral_def)
    then show ?thesis by blast
  next
    case False
    then obtain ds tmp where IH: "itoa_loop base ?v (w @ [itoa_alphabet ! d]) = (w @ [itoa_alphabet ! d] @ rev ds, tmp)"
      "digits_val base ds = \<bar>?v\<bar>" "is_numeral base ds" "tmp < 0 \<longleftrightarrow> ?v < 0" "base ^ (length ds - 1) \<le> \<bar>?v\<bar>"
      using "1.IH" [OF refl refl refl refl refl] "1.prems" dig by auto
    have "length ds - 1 + 1 = length ds" using IH(3) by (simp add: is_numeral_def)
    then have "base ^ length ds = base ^ (length ds - 1) * base" by (metis power_add power_one_right)
    also have "\<dots> \<le> \<bar>?v\<bar> * base" using IH(5) "1.prems" by (intro mult_right_mono) auto
    also have "\<dots> \<le> \<bar>v\<bar>" using split by linarith
    finally have len: "base ^ length ds \<le> \<bar>v\<bar>" .
    have "v \<noteq> 0" using False by (auto simp: signed_divide_int_def)
    moreover have "?v < 0 \<longleftrightarrow> v < 0"
    proof -
      have "?v = sgn v * (\<bar>v\<bar> div base)" using "1.prems" by (simp add: signed_divide_int_def)
      moreover have "0 \<le> \<bar>v\<bar> div base" using "1.prems" by (simp add: pos_imp_zdiv_nonneg_iff)
      ultimately show ?thesis using False by (auto simp: sgn_if split: if_splits)
    qed
    ultimately show ?thesis
      using IH len mem split alphabet_nth(1) [OF d(1)] False loop
      by (intro exI [of _ "ds @ [?c]"] exI [of _ tmp]) (auto simp: is_numeral_def)
  qed
qed

lemma reverse_range_append:
  "reverse_range (length a) (length a + length m - 1) (a @ m @ b) = a @ rev m @ b"
proof (induction "length m" arbitrary: a m b rule: less_induct)
  case less
  show ?case
  proof (cases m)
    case Nil
    moreover have "\<not> length a < length a - 1" by simp
    ultimately show ?thesis by (subst reverse_range.simps) (simp del: One_nat_def)
  next
    case (Cons x m1)
    show ?thesis
    proof (cases m1 rule: rev_cases)
      case Nil
      with Cons show ?thesis by (subst reverse_range.simps) simp
    next
      case (snoc m' y)
      have "reverse_range (length a) (length a + length m - 1) (a @ m @ b) =
          reverse_range (length (a @ [y])) (length (a @ [y]) + length m' - 1) ((a @ [y]) @ m' @ x # b)"
        unfolding Cons snoc by (subst reverse_range.simps) (simp add: nth_append list_update_append)
      also have "\<dots> = (a @ [y]) @ rev m' @ x # b"
        by (rule less) (simp add: Cons snoc)
      finally show ?thesis by (simp add: Cons snoc)
    qed
  qed
qed

lemma itoa_eq:
  assumes "2 \<le> base" and "base \<le> 36"
  obtains ds where "is_numeral base ds" and "digits_val base ds = \<bar>v\<bar>"
    and "v \<noteq> 0 \<Longrightarrow> base ^ (length ds - 1) \<le> \<bar>v\<bar>" and "v = 0 \<Longrightarrow> ds = ''0''"
    and "\<And>str. length (if v < 0 \<and> base = 10 then ''-'' @ ds else ds) < length str \<Longrightarrow>
      itoa v str base = Some ((if v < 0 \<and> base = 10 then ''-'' @ ds else ds) @ NUL #
        drop (Suc (length (if v < 0 \<and> base = 10 then ''-'' @ ds else ds))) str)"
proof -
  obtain ds tmp where *: "itoa_loop base v [] = (rev ds, tmp)" "digits_val base ds = \<bar>v\<bar>"
      "is_numeral base ds" "tmp < 0 \<longleftrightarrow> v < 0" "v \<noteq> 0 \<longrightarrow> base ^ (length ds - 1) \<le> \<bar>v\<bar>"
      "v = 0 \<longrightarrow> ds = ''0''"
    using itoa_loop_spec [OF assms, of v "[]"] by auto
  let ?w = "if v < 0 \<and> base = 10 then ''-'' @ ds else ds"
  have w: "(if tmp < 0 \<and> base = 10 then rev ds @ ''-'' else rev ds) = rev ?w" using *(4) by simp
  have "itoa v str base = Some (?w @ NUL # drop (Suc (length ?w)) str)" if "length ?w < length str" for str
  proof -
    have "itoa v str base = Some (reverse_range 0 (length (rev ?w) - 1)
        (rev ?w @ NUL # drop (Suc (length (rev ?w))) str))"
      using assms that unfolding itoa_def *(1) Let_def split_conv w
      by (simp only: not_less [symmetric] simp_thms if_False length_rev)
    then show ?thesis
      using reverse_range_append [of "[]" "rev ?w" "NUL # drop (Suc (length (rev ?w))) str"]
      by (simp split del: if_split)
  qed
  with * that show thesis by blast
qed

lemma itoa_length:
  fixes base v :: int
  assumes "2 \<le> base" and "\<bar>v\<bar> \<le> 2 ^ 31" and "base ^ (n - 1) \<le> \<bar>v\<bar>"
  shows "n \<le> 32" and "base = 10 \<Longrightarrow> n \<le> 10"
proof -
  have "(2::int) ^ (n - 1) \<le> base ^ (n - 1)" using assms(1) by (intro power_mono) auto
  with assms have "(2::int) ^ (n - 1) \<le> 2 ^ 31" by linarith
  then have "n - 1 \<le> 31" by (rule power_le_imp_le_exp [rotated]) simp
  then show "n \<le> 32" by simp
  assume "base = 10"
  with assms(2,3) have "(10::int) ^ (n - 1) \<le> 2 ^ 31" by (auto intro: order_trans)
  also have "(2::int) ^ 31 < 10 ^ 10" by simp
  finally have "n - 1 < 10" by (rule power_less_imp_less_exp [rotated]) simp
  then show "n \<le> 10" by simp
qed

section \<open>The contract of the string library\<close>


end
