(* ===== verification/Shell.thy ===== *)
theory Shell
  imports CString
begin

text \<open>
  The command interpreter of \<^verbatim>\<open>src/kernel/shell.c\<close>: the command registry, the split of
  an input line into an argument vector, and the dispatch of a line to a handler. Command
  handlers are a parameter (any type \<open>'h\<close>); executing a line yields which handler is called
  with which arguments. An argument is the offset in the line buffer where its token starts.
\<close>

section \<open>The registry\<close>

record 'h shell_command =
  cmd_name :: string
  cmd_description :: string
  cmd_handler :: 'h

abbreviation MAX_COMMANDS :: nat where "MAX_COMMANDS \<equiv> 48"

abbreviation SHELL_MAX_ARGS :: nat where "SHELL_MAX_ARGS \<equiv> 16"

text \<open>The first \<^verbatim>\<open>command_count\<close> entries of \<^verbatim>\<open>command_table\<close>.\<close>

type_synonym 'h command_table = "'h shell_command list"

text \<open>The table and what is written on the console.\<close>

definition shell_register_command ::
    "string \<Rightarrow> string \<Rightarrow> 'h \<Rightarrow> 'h command_table \<Rightarrow> 'h command_table \<times> string" where
  "shell_register_command name description handler table =
     (if MAX_COMMANDS \<le> length table then (table, ''Error: Maximum number of commands reached\<newline>'')
      else (table @ [\<lparr>cmd_name = name, cmd_description = description, cmd_handler = handler\<rparr>], []))"

definition shell_get_commands :: "'h command_table \<Rightarrow> nat \<times> 'h command_table" where
  "shell_get_commands table = (length table, table)"

section \<open>Parsing and dispatch\<close>

definition shell_delims :: string where
  "shell_delims = [CHR '' '', CHR 0x09, CHR 0x0A, CHR 0x0D]"

text \<open>The loop of \<^verbatim>\<open>parse_command\<close>, with the last token and the arguments so far.\<close>

function parse_loop ::
    "nat \<Rightarrow> nat option \<Rightarrow> nat list \<Rightarrow> tokenizer \<Rightarrow> (nat list \<times> tokenizer) option" where
  "parse_loop max_args token argv st =
     (case token of
        None \<Rightarrow> Some (argv, st)
      | Some p \<Rightarrow>
          if length argv < max_args
          then case string_tokenize None shell_delims st of
                 None \<Rightarrow> None
               | Some (token', st') \<Rightarrow> parse_loop max_args token' (argv @ [p]) st'
          else Some (argv, st))"
  by pat_completeness auto
termination
  by (relation "measure (\<lambda>(m, token, argv, st). m - length argv)") auto

declare parse_loop.simps [simp del]

definition parse_command :: "nat \<Rightarrow> tokenizer \<Rightarrow> nat \<Rightarrow> (nat list \<times> tokenizer) option" where
  "parse_command input st max_args =
     (case string_tokenize (Some input) shell_delims st of
        None \<Rightarrow> None
      | Some (token, st') \<Rightarrow> parse_loop max_args token [] st')"

fun only_whitespace :: "cbuf \<Rightarrow> bool option" where
  "only_whitespace [] = None"
| "only_whitespace (c # cs) =
     (if c = NUL then Some True
      else if \<not> is_whitespace c then Some False else only_whitespace cs)"

datatype 'h shell_outcome = Nothing_to_do | Call 'h "nat list" cbuf | Command_not_found string

fun find_command :: "cbuf \<Rightarrow> 'h command_table \<Rightarrow> 'h option option" where
  "find_command name [] = Some None"
| "find_command name (c # cs) =
     (case string_compare name (cmd_name c @ [NUL]) of
        None \<Rightarrow> None
      | Some d \<Rightarrow> if d = 0 then Some (Some (cmd_handler c)) else find_command name cs)"

definition shell_execute ::
    "'h command_table \<Rightarrow> nat option \<Rightarrow> cbuf option \<Rightarrow> ('h shell_outcome \<times> nat option) option" where
  "shell_execute table tok_last input =
     (case input of
        None \<Rightarrow> Some (Nothing_to_do, tok_last)
      | Some [] \<Rightarrow> None
      | Some (c # cs) \<Rightarrow>
          if c = NUL then Some (Nothing_to_do, tok_last)
          else do {
            blank \<leftarrow> only_whitespace (c # cs);
            if blank then Some (Nothing_to_do, tok_last)
            else do {
              (argv, st) \<leftarrow>
                parse_command 0 \<lparr>tok_buf = c # cs, tokenize_last = tok_last\<rparr> SHELL_MAX_ARGS;
              case argv of
                [] \<Rightarrow> Some (Nothing_to_do, tokenize_last st)
              | cmd # _ \<Rightarrow> do {
                  found \<leftarrow> find_command (drop cmd (tok_buf st)) table;
                  Some (case found of
                          Some h \<Rightarrow> Call h argv (tok_buf st)
                        | None \<Rightarrow> Command_not_found (cstring (drop cmd (tok_buf st))),
                        tokenize_last st)
                }
            }
          })"

section \<open>A line is split into its words\<close>

abbreviation arg :: "cbuf \<Rightarrow> nat \<Rightarrow> string" where
  "arg b p \<equiv> cstring (drop p b)"

text \<open>What a continued tokenization may still write.\<close>

definition tok_limit :: "tokenizer \<Rightarrow> nat" where
  "tok_limit st = (case tokenize_last st of None \<Rightarrow> length (tok_buf st) | Some r \<Rightarrow> r)"

lemma cstring_frame:
  assumes "terminated (drop q b)" and "\<And>i. i \<le> q + length (arg b q) \<Longrightarrow> b' ! i = b ! i"
    and "length b' = length b"
  shows "arg b' q = arg b q" and "terminated (drop q b')"
proof -
  let ?n = "length (arg b q)"
  have lt: "q + ?n < length b"
    using terminated_drop_add [OF assms(1), of ?n] terminated_drop_Cons(1) by blast
  have pre: "take ?n (drop q b') = take ?n (drop q b)"
    using assms(2,3) lt by (intro nth_equalityI) auto
  also have "\<dots> = arg b q" by (metis cstring_def takeWhile_eq_take)
  finally have t: "take ?n (drop q b') = arg b q" .
  have "b' ! (q + ?n) = NUL" using assms(2) nth_end_cstring [OF assms(1)] by simp
  then have "drop q b' = arg b q @ NUL # drop (Suc (q + ?n)) b'"
    using lt assms(3) t
    by (metis Cons_nth_drop_Suc add.commute append_take_drop_id drop_drop)
  then show "arg b' q = arg b q" and "terminated (drop q b')"
    by (metis NUL_notin_cstring cstring_append_NUL, metis terminated_append_NUL)
qed

lemma string_tokenize_continue:
  assumes "tok_wf st"
  shows "\<exists>token st'. string_tokenize None D st = Some (token, st') \<and> length (tok_buf st') = length (tok_buf st) \<and>
    (\<forall>i<tok_limit st. tok_buf st' ! i = tok_buf st ! i) \<and>
    (case token of
       None \<Rightarrow> tokens D (tok_rest st) = []
     | Some q \<Rightarrow> tokens D (tok_rest st) = arg (tok_buf st') q # tokens D (tok_rest st') \<and> tok_wf st' \<and>
         terminated (drop q (tok_buf st')) \<and> q + length (arg (tok_buf st') q) < tok_limit st' \<and>
         tok_limit st \<le> tok_limit st')"
proof (cases "tokenize_last st")
  case None
  then show ?thesis by (auto simp: string_tokenize_def tok_rest_def tokens.simps)
next
  case (Some p)
  with assms have trm: "terminated (drop p (tok_buf st))" and rest: "tok_rest st = cstring (drop p (tok_buf st))"
    by (simp_all add: tok_wf_def tok_rest_def)
  show ?thesis
  proof (cases "tokens D (tok_rest st)")
    case Nil
    then obtain st' where "string_tokenize None D st = Some (None, st')" "tok_buf st' = tok_buf st"
      using string_tokenize_none [where str = None and st = st and p = p and D = D] Some trm rest by auto
    with Nil show ?thesis by auto
  next
    case (Cons t ts)
    then obtain q st' where r: "string_tokenize None D st = Some (Some q, st')"
      "cstring (drop q (tok_buf st')) = t" "terminated (drop q (tok_buf st'))" "p \<le> q"
      "\<And>i. i < q \<Longrightarrow> tok_buf st' ! i = tok_buf st ! i" "length (tok_buf st') = length (tok_buf st)"
      "tokens D (tok_rest st') = ts" "tok_wf st'"
      "\<And>r. tokenize_last st' = Some r \<Longrightarrow> r = Suc (q + length t)"
      using string_tokenize_some [where str = None and st = st and p = p and D = D] Some trm rest by auto
    have "q + length t < length (tok_buf st')"
      using terminated_drop_add [OF r(3), of "length t"] terminated_drop_Cons(1) r(2) by blast
    with r(2,4,9) Some have "q + length t < tok_limit st'" "tok_limit st \<le> tok_limit st'"
      by (auto simp: tok_limit_def split: option.splits)
    with r Cons Some show ?thesis by (auto simp: tok_limit_def)
  qed
qed

lemma parse_loop_words:
  assumes "tok_wf st"
    and "case token of
           None \<Rightarrow> ws = []
         | Some q \<Rightarrow> ws = arg (tok_buf st) q # tokens shell_delims (tok_rest st) \<and>
             terminated (drop q (tok_buf st)) \<and> q + length (arg (tok_buf st) q) < tok_limit st"
  shows "\<exists>qs st'. parse_loop m token argv st = Some (argv @ qs, st') \<and>
    map (arg (tok_buf st')) qs = take (m - length argv) ws \<and> length (tok_buf st') = length (tok_buf st) \<and>
    (\<forall>q\<in>set qs. terminated (drop q (tok_buf st'))) \<and>
    (\<forall>i<tok_limit st. tok_buf st' ! i = tok_buf st ! i)"
  using assms
proof (induction m token argv st arbitrary: ws rule: parse_loop.induct)
  case (1 m token argv st)
  show ?case
  proof (cases token)
    case None
    with "1.prems" show ?thesis by (subst parse_loop.simps) auto
  next
    case (Some q)
    show ?thesis
    proof (cases "length argv < m")
      case False
      with Some show ?thesis by (subst parse_loop.simps) auto
    next
      case True
      obtain token' st1 where n: "string_tokenize None shell_delims st = Some (token', st1)"
          "length (tok_buf st1) = length (tok_buf st)" "\<forall>i<tok_limit st. tok_buf st1 ! i = tok_buf st ! i"
        and c: "case token' of
           None \<Rightarrow> tokens shell_delims (tok_rest st) = []
         | Some q \<Rightarrow> tokens shell_delims (tok_rest st) = arg (tok_buf st1) q # tokens shell_delims (tok_rest st1) \<and>
             tok_wf st1 \<and> terminated (drop q (tok_buf st1)) \<and> q + length (arg (tok_buf st1) q) < tok_limit st1 \<and>
             tok_limit st \<le> tok_limit st1"
        using string_tokenize_continue [OF "1.prems"(1)] by blast
      have step: "parse_loop m token argv st = parse_loop m token' (argv @ [q]) st1"
        using Some True n(1) by (subst parse_loop.simps) simp
      obtain qs st' where ih: "parse_loop m token' (argv @ [q]) st1 = Some ((argv @ [q]) @ qs, st')"
          "map (arg (tok_buf st')) qs = take (m - length (argv @ [q])) (tl ws)"
          "length (tok_buf st') = length (tok_buf st)" "\<forall>q\<in>set qs. terminated (drop q (tok_buf st'))"
          "\<forall>i<tok_limit st. tok_buf st' ! i = tok_buf st ! i"
      proof (cases token')
        case None
        with c Some "1.prems" n that [of "[]" st1] show thesis
          by (subst (asm) parse_loop.simps) auto
      next
        case (Some q')
        with c "1.prems"(2) \<open>token = Some q\<close> n that show thesis
          using "1.IH" [OF \<open>token = Some q\<close> True n(1) refl, of "tl ws"] by fastforce
      qed
      have q: "ws = arg (tok_buf st) q # tokens shell_delims (tok_rest st)"
          "terminated (drop q (tok_buf st))" "q + length (arg (tok_buf st) q) < tok_limit st"
        using "1.prems"(2) Some by auto
      have "arg (tok_buf st') q = arg (tok_buf st) q" "terminated (drop q (tok_buf st'))"
        using cstring_frame [OF q(2) _ ih(3)] q(3) ih(5) by auto
      with step ih q(1) True show ?thesis
        by (intro exI [of _ "q # qs"] exI [of _ st']) (auto simp: Suc_diff_Suc [symmetric])
    qed
  qed
qed

lemma parse_command_words:
  assumes "terminated (drop p (tok_buf st))"
  shows "\<exists>argv st'. parse_command p st m = Some (argv, st') \<and>
    map (arg (tok_buf st')) argv = take m (tokens shell_delims (arg (tok_buf st) p)) \<and>
    length (tok_buf st') = length (tok_buf st) \<and> (\<forall>q\<in>set argv. terminated (drop q (tok_buf st')))"
proof (cases "tokens shell_delims (arg (tok_buf st) p)")
  case Nil
  then obtain st' where "string_tokenize (Some p) shell_delims st = Some (None, st')" "tok_buf st' = tok_buf st"
    using string_tokenize_none [where str = "Some p" and st = st and p = p and D = shell_delims] assms by auto
  with Nil show ?thesis by (auto simp: parse_command_def parse_loop.simps)
next
  case (Cons t ts)
  then obtain q st' where r: "string_tokenize (Some p) shell_delims st = Some (Some q, st')"
    "arg (tok_buf st') q = t" "terminated (drop q (tok_buf st'))" "p \<le> q"
    "\<And>i. i < q \<Longrightarrow> tok_buf st' ! i = tok_buf st ! i" "length (tok_buf st') = length (tok_buf st)" "tokens shell_delims (tok_rest st') = ts" "tok_wf st'"
    "\<And>r. tokenize_last st' = Some r \<Longrightarrow> r = Suc (q + length t)"
    using string_tokenize_some [where str = "Some p" and st = st and p = p and D = shell_delims
        and t = t and ts = ts] assms by auto
  have "q + length t < length (tok_buf st')"
    using terminated_drop_add [OF r(3), of "length t"] terminated_drop_Cons(1) r(2) by blast
  with r(9) have "q + length t < tok_limit st'" by (auto simp: tok_limit_def split: option.splits)
  then show ?thesis
    using parse_loop_words [where st = st' and token = "Some q" and ws = "t # ts" and m = m and argv = "[]"] r Cons by (auto simp: parse_command_def)
qed

lemma only_whitespace_eq:
  "terminated b \<Longrightarrow> only_whitespace b = Some (tokens shell_delims (cstring b) = [])"
proof (induction b)
  case (Cons c b)
  have ws: "is_whitespace c \<longleftrightarrow> c \<in> set shell_delims" by (auto simp: is_whitespace_def shell_delims_def)
  show ?case
  proof (cases "c = NUL")
    case False
    have "tokens shell_delims (c # cstring b) = [] \<longleftrightarrow> c \<in> set shell_delims \<and> tokens shell_delims (cstring b) = []"
      by (subst (1 2) tokens.simps) (auto simp: Let_def)
    with False Cons ws show ?thesis by auto
  qed (simp add: tokens.simps)
qed simp

lemma find_command_eq:
  assumes "terminated name" and "\<forall>c\<in>set table. NUL \<notin> set (cmd_name c)"
  shows "find_command name table =
    Some (map_option cmd_handler (find (\<lambda>c. cmd_name c = cstring name) table))"
  using assms(2)
proof (induction table)
  case (Cons c cs)
  have trm: "terminated (cmd_name c @ [NUL])" by simp
  obtain d where d: "string_compare name (cmd_name c @ [NUL]) = Some d"
    using string_compare_Some [OF assms(1) trm] by blast
  have "d = 0 \<longleftrightarrow> cmd_name c = cstring name"
    using string_compare_zero [OF assms(1) trm] d Cons.prems by auto
  with Cons d show ?case by auto
qed simp

lemma registered_bounded:
  "length table \<le> MAX_COMMANDS \<Longrightarrow> length (fst (shell_register_command n d h table)) \<le> MAX_COMMANDS"
  by (simp add: shell_register_command_def)

text \<open>
  C1. Executing a line: for every terminated line in a buffer, the dispatch reads and writes only inside
  the buffer; a blank line does nothing; otherwise the first registered command whose name
  is the first word of the line is called, and its argument vector holds the first sixteen
  words of the line, each terminated in place; a first word that names no command is
  reported as not found.
\<close>

theorem shell_execute_dispatch:
  assumes "terminated b" and "\<forall>c\<in>set table. NUL \<notin> set (cmd_name c)"
  shows "case tokens shell_delims (cstring b) of
      [] \<Rightarrow> shell_execute table l (Some b) = Some (Nothing_to_do, l)
    | cmd # args \<Rightarrow>
        (case find (\<lambda>c. cmd_name c = cmd) table of
           None \<Rightarrow> \<exists>l'. shell_execute table l (Some b) = Some (Command_not_found cmd, l')
         | Some c \<Rightarrow> \<exists>argv b' l'. shell_execute table l (Some b) = Some (Call (cmd_handler c) argv b', l') \<and>
             map (\<lambda>p. cstring (drop p b')) argv = take SHELL_MAX_ARGS (cmd # args) \<and> length b' = length b)"
proof (cases "tokens shell_delims (cstring b)")
  case Nil
  from assms(1) obtain c cs where b: "b = c # cs" by (cases b) auto
  from only_whitespace_eq [OF assms(1)] Nil b show ?thesis
    by (simp add: shell_execute_def del: only_whitespace.simps cstring_simps)
next
  case (Cons cmd args)
  from assms(1) obtain c cs where b: "b = c # cs" by (cases b) auto
  have c: "c \<noteq> NUL" using Cons b by (auto simp: tokens.simps)
  let ?st = "\<lparr>tok_buf = b, tokenize_last = l\<rparr>"
  obtain argv st' where p: "parse_command 0 ?st SHELL_MAX_ARGS = Some (argv, st')"
      "map (arg (tok_buf st')) argv = take SHELL_MAX_ARGS (cmd # args)"
      "length (tok_buf st') = length b" "\<forall>q\<in>set argv. terminated (drop q (tok_buf st'))"
    using parse_command_words [of 0 ?st SHELL_MAX_ARGS] assms(1) Cons by auto
  then obtain q qs where argv: "argv = q # qs" "arg (tok_buf st') q = cmd" "terminated (drop q (tok_buf st'))"
    by (cases argv) auto
  have "find_command (drop q (tok_buf st')) table = Some (map_option cmd_handler (find (\<lambda>c. cmd_name c = cmd) table))"
    using find_command_eq [OF argv(3) assms(2)] argv(2) by simp
  with only_whitespace_eq [OF assms(1)] Cons b c p argv show ?thesis
    by (auto simp: shell_execute_def simp del: only_whitespace.simps cstring_simps split: option.splits)
qed

theorem shell_execute_dispatch_witness:
  "terminated ('' ps  -a'' @ [NUL]) \<and>
   (\<exists>argv b' l'. shell_execute [\<lparr>cmd_name = ''ps'', cmd_description = [], cmd_handler = (7 :: nat)\<rparr>] None
       (Some ('' ps  -a'' @ [NUL])) = Some (Call 7 argv b', l') \<and>
     map (\<lambda>p. cstring (drop p b')) argv = [''ps'', ''-a''])"
proof -
  have t: "tokens shell_delims (cstring ('' ps  -a'' @ [NUL])) = [''ps'', ''-a'']"
    by code_simp
  show ?thesis
    using shell_execute_dispatch [of "'' ps  -a'' @ [NUL]"
        "[\<lparr>cmd_name = ''ps'', cmd_description = [], cmd_handler = (7 :: nat)\<rparr>]" None]
    unfolding t by auto
qed

end
