(* ===== verification/IPC.thy ===== *)
theory IPC
  imports CString
begin

text \<open>
  Pipes and message queues, \<^verbatim>\<open>src/kernel/ipc.c\<close> and \<^verbatim>\<open>src/include/ipc.h\<close>. The static
  tables are lists; a pointer into one of them is an index, with \<open>None\<close> for NULL; a caller's
  buffer is the list of its bytes. The result \<open>None\<close> is an access outside a table or a
  buffer. Positions and counts are natural numbers: they stay at or below the size of the
  ring, so the 32-bit \<^verbatim>\<open>size_t\<close> cannot wrap.
\<close>

section \<open>State\<close>

abbreviation PIPE_BUF_SIZE :: nat where "PIPE_BUF_SIZE \<equiv> 4096"
abbreviation MSG_QUEUE_SIZE :: nat where "MSG_QUEUE_SIZE \<equiv> 16"
abbreviation MSG_MAX_SIZE :: nat where "MSG_MAX_SIZE \<equiv> 256"
abbreviation MAX_PIPES :: nat where "MAX_PIPES \<equiv> 32"
abbreviation MAX_MSG_QUEUES :: nat where "MAX_MSG_QUEUES \<equiv> 32"

record pipe =
  pipe_buffer :: "u8 list"
  read_pos :: nat
  write_pos :: nat
  pipe_count :: nat
  reader_pid :: u32
  writer_pid :: u32
  pipe_open :: bool

record message =
  sender_pid :: u32
  msg_type :: u32
  msg_size :: nat
  msg_data :: "u8 list"

record msg_queue =
  messages :: "message list"
  mq_head :: nat
  mq_tail :: nat
  mq_count :: nat
  owner_pid :: u32
  mq_open :: bool

record ipc =
  pipes :: "pipe list"
  msg_queues :: "msg_queue list"
  ipc_initialized :: bool

section \<open>Initialisation\<close>

definition ipc_init :: "ipc \<Rightarrow> ipc" where
  "ipc_init s =
     (if ipc_initialized s then s
      else s\<lparr>pipes := map (\<lambda>p. p\<lparr>pipe_open := False, read_pos := 0, write_pos := 0, pipe_count := 0\<rparr>) (pipes s),
             msg_queues := map (\<lambda>q. q\<lparr>mq_open := False, mq_head := 0, mq_tail := 0, mq_count := 0\<rparr>) (msg_queues s),
             ipc_initialized := True\<rparr>)"

section \<open>Pipes\<close>

definition pipe_create :: "u32 \<Rightarrow> u32 \<Rightarrow> ipc \<Rightarrow> nat option \<times> ipc" where
  "pipe_create rpid wpid s =
     (case first_index (\<lambda>p. \<not> pipe_open p) (pipes s) of
        None \<Rightarrow> (None, s)
      | Some i \<Rightarrow>
          (Some i, s\<lparr>pipes := (pipes s)[i := (pipes s ! i)\<lparr>pipe_open := True, reader_pid := rpid,
             writer_pid := wpid, read_pos := 0, write_pos := 0, pipe_count := 0\<rparr>]\<rparr>))"

text \<open>One iteration of the write loop and of the read loop.\<close>

definition pipe_put :: "u8 \<Rightarrow> pipe \<Rightarrow> pipe" where
  "pipe_put b p =
     p\<lparr>pipe_buffer := (pipe_buffer p)[write_pos p := b],
       write_pos := (write_pos p + 1) mod PIPE_BUF_SIZE,
       pipe_count := pipe_count p + 1\<rparr>"

definition pipe_get :: "pipe \<Rightarrow> u8 \<times> pipe" where
  "pipe_get p =
     (pipe_buffer p ! read_pos p,
      p\<lparr>read_pos := (read_pos p + 1) mod PIPE_BUF_SIZE, pipe_count := pipe_count p - 1\<rparr>)"

function pipe_write_loop :: "u8 list \<Rightarrow> nat \<Rightarrow> pipe \<Rightarrow> nat \<Rightarrow> (nat \<times> pipe) option" where
  "pipe_write_loop src sz p written =
     (if written < sz \<and> pipe_count p < PIPE_BUF_SIZE
      then if written < length src \<and> write_pos p < length (pipe_buffer p)
           then pipe_write_loop src sz (pipe_put (src ! written) p) (written + 1)
           else None
      else Some (written, p))"
  by pat_completeness auto
termination
  by (relation "measure (\<lambda>(src, sz, p, written). sz - written)") auto

declare pipe_write_loop.simps [simp del]

definition pipe_write :: "nat option \<Rightarrow> u8 list option \<Rightarrow> nat \<Rightarrow> ipc \<Rightarrow> (int \<times> ipc) option" where
  "pipe_write ptr data sz s =
     (case ptr of
        None \<Rightarrow> Some (-1, s)
      | Some i \<Rightarrow>
          if length (pipes s) \<le> i then None
          else if \<not> pipe_open (pipes s ! i) then Some (-1, s)
          else case data of
                 None \<Rightarrow> Some (-1, s)
               | Some src \<Rightarrow> do {
                   (written, p) \<leftarrow> pipe_write_loop src sz (pipes s ! i) 0;
                   Some (int written, s\<lparr>pipes := (pipes s)[i := p]\<rparr>)
                 })"

function pipe_read_loop :: "nat \<Rightarrow> u8 list \<Rightarrow> pipe \<Rightarrow> nat \<Rightarrow> (nat \<times> u8 list \<times> pipe) option" where
  "pipe_read_loop sz dst p n =
     (if n < sz \<and> 0 < pipe_count p
      then if n < length dst \<and> read_pos p < length (pipe_buffer p)
           then let (b, p') = pipe_get p in pipe_read_loop sz (dst[n := b]) p' (n + 1)
           else None
      else Some (n, dst, p))"
  by pat_completeness auto
termination
  by (relation "measure (\<lambda>(sz, dst, p, n). sz - n)") auto

declare pipe_read_loop.simps [simp del]

definition pipe_read ::
    "nat option \<Rightarrow> u8 list option \<Rightarrow> nat \<Rightarrow> ipc \<Rightarrow> (int \<times> u8 list option \<times> ipc) option" where
  "pipe_read ptr buf sz s =
     (case ptr of
        None \<Rightarrow> Some (-1, buf, s)
      | Some i \<Rightarrow>
          if length (pipes s) \<le> i then None
          else if \<not> pipe_open (pipes s ! i) then Some (-1, buf, s)
          else case buf of
                 None \<Rightarrow> Some (-1, buf, s)
               | Some dst \<Rightarrow> do {
                   (n, dst', p) \<leftarrow> pipe_read_loop sz dst (pipes s ! i) 0;
                   Some (int n, Some dst', s\<lparr>pipes := (pipes s)[i := p]\<rparr>)
                 })"

definition pipe_close :: "nat option \<Rightarrow> ipc \<Rightarrow> ipc option" where
  "pipe_close ptr s =
     (case ptr of
        None \<Rightarrow> Some s
      | Some i \<Rightarrow>
          if length (pipes s) \<le> i then None
          else Some (s\<lparr>pipes := (pipes s)[i := (pipes s ! i)\<lparr>pipe_open := False\<rparr>]\<rparr>))"

section \<open>Message queues\<close>

definition msgqueue_create :: "u32 \<Rightarrow> ipc \<Rightarrow> nat option \<times> ipc" where
  "msgqueue_create owner s =
     (case first_index (\<lambda>q. \<not> mq_open q) (msg_queues s) of
        None \<Rightarrow> (None, s)
      | Some i \<Rightarrow>
          (Some i, s\<lparr>msg_queues := (msg_queues s)[i := (msg_queues s ! i)\<lparr>mq_open := True,
             owner_pid := owner, mq_head := 0, mq_tail := 0, mq_count := 0\<rparr>]\<rparr>))"

text \<open>The enqueue and dequeue of \<^verbatim>\<open>msgqueue_send\<close> and \<^verbatim>\<open>msgqueue_receive\<close>, after their checks.\<close>

definition mq_put :: "message \<Rightarrow> msg_queue \<Rightarrow> msg_queue" where
  "mq_put m q =
     q\<lparr>messages := (messages q)[mq_tail q := m],
       mq_tail := (mq_tail q + 1) mod MSG_QUEUE_SIZE, mq_count := mq_count q + 1\<rparr>"

definition mq_get :: "msg_queue \<Rightarrow> message \<times> msg_queue" where
  "mq_get q =
     (messages q ! mq_head q,
      q\<lparr>mq_head := (mq_head q + 1) mod MSG_QUEUE_SIZE, mq_count := mq_count q - 1\<rparr>)"

definition msgqueue_send ::
    "nat option \<Rightarrow> u32 \<Rightarrow> u32 \<Rightarrow> u8 list option \<Rightarrow> nat \<Rightarrow> ipc \<Rightarrow> (int \<times> ipc) option" where
  "msgqueue_send ptr sender ty data sz s =
     (case ptr of
        None \<Rightarrow> Some (-1, s)
      | Some i \<Rightarrow>
          if length (msg_queues s) \<le> i then None
          else let q = msg_queues s ! i in
            if \<not> mq_open q \<or> MSG_MAX_SIZE < sz then Some (-1, s)
            else if MSG_QUEUE_SIZE \<le> mq_count q then Some (-1, s)
            else if length (messages q) \<le> mq_tail q then None
            else do {
              let old = msg_data (messages q ! mq_tail q);
              data' \<leftarrow> (case data of
                          Some src \<Rightarrow> if 0 < sz then memcpy old src sz else Some old
                        | None \<Rightarrow> Some old);
              Some (0, s\<lparr>msg_queues := (msg_queues s)[i :=
                mq_put \<lparr>sender_pid = sender, msg_type = ty, msg_size = sz, msg_data = data'\<rparr> q]\<rparr>)
            })"

text \<open>The message that the receiver's buffer holds afterwards, if one is delivered.\<close>

definition msgqueue_receive :: "nat option \<Rightarrow> message option \<Rightarrow> ipc \<Rightarrow> (int \<times> message option \<times> ipc) option" where
  "msgqueue_receive ptr msg s =
     (case ptr of
        None \<Rightarrow> Some (-1, msg, s)
      | Some i \<Rightarrow>
          if length (msg_queues s) \<le> i then None
          else let q = msg_queues s ! i in
            if \<not> mq_open q \<or> msg = None then Some (-1, msg, s)
            else if mq_count q = 0 then Some (-1, msg, s)
            else if length (messages q) \<le> mq_head q then None
            else let (m, q') = mq_get q
                 in Some (0, Some m, s\<lparr>msg_queues := (msg_queues s)[i := q']\<rparr>))"

definition msgqueue_close :: "nat option \<Rightarrow> ipc \<Rightarrow> ipc option" where
  "msgqueue_close ptr s =
     (case ptr of
        None \<Rightarrow> Some s
      | Some i \<Rightarrow>
          if length (msg_queues s) \<le> i then None
          else Some (s\<lparr>msg_queues := (msg_queues s)[i := (msg_queues s ! i)\<lparr>mq_open := False\<rparr>]\<rparr>))"

section \<open>Well-formedness and the queued contents\<close>

definition pipe_wf :: "pipe \<Rightarrow> bool" where
  "pipe_wf p \<longleftrightarrow> length (pipe_buffer p) = PIPE_BUF_SIZE \<and> pipe_count p \<le> PIPE_BUF_SIZE \<and>
     read_pos p < PIPE_BUF_SIZE \<and> write_pos p = (read_pos p + pipe_count p) mod PIPE_BUF_SIZE"

definition pipe_contents :: "pipe \<Rightarrow> u8 list" where
  "pipe_contents p = ring_elems (pipe_buffer p) (read_pos p) (pipe_count p)"

definition mq_wf :: "msg_queue \<Rightarrow> bool" where
  "mq_wf q \<longleftrightarrow> length (messages q) = MSG_QUEUE_SIZE \<and> mq_count q \<le> MSG_QUEUE_SIZE \<and>
     mq_head q < MSG_QUEUE_SIZE \<and> mq_tail q = (mq_head q + mq_count q) mod MSG_QUEUE_SIZE"

definition mq_payload_wf :: "msg_queue \<Rightarrow> bool" where
  "mq_payload_wf q \<longleftrightarrow> (\<forall>m\<in>set (messages q). length (msg_data m) = MSG_MAX_SIZE)"

definition mq_contents :: "msg_queue \<Rightarrow> message list" where
  "mq_contents q = ring_elems (messages q) (mq_head q) (mq_count q)"

definition ipc_wf :: "ipc \<Rightarrow> bool" where
  "ipc_wf s \<longleftrightarrow> length (pipes s) = MAX_PIPES \<and> length (msg_queues s) = MAX_MSG_QUEUES \<and>
     (\<forall>p\<in>set (pipes s). pipe_wf p) \<and> (\<forall>q\<in>set (msg_queues s). mq_wf q \<and> mq_payload_wf q)"

lemma pipe_contents_length [simp]: "length (pipe_contents p) = pipe_count p"
  by (simp add: pipe_contents_def)

lemma mq_contents_length [simp]: "length (mq_contents q) = mq_count q"
  by (simp add: mq_contents_def)

lemma ring_pos_pop: "0 < c \<Longrightarrow> (Suc r mod n + c - Suc 0) mod n = (r + c) mod (n :: nat)"
  by (cases c) (simp_all add: mod_simps)

interpretation pipe_fifo: bounded_fifo pipe_wf pipe_contents PIPE_BUF_SIZE pipe_put pipe_get
proof unfold_locales
  fix p b
  assume wf: "pipe_wf p"
  then show "length (pipe_contents p) \<le> PIPE_BUF_SIZE" by (simp add: pipe_wf_def)
  assume room: "length (pipe_contents p) < PIPE_BUF_SIZE"
  with wf show "pipe_wf (pipe_put b p)" by (simp add: pipe_wf_def pipe_put_def mod_simps)
  from wf room show "pipe_contents (pipe_put b p) = pipe_contents p @ [b]"
    using ring_push [of "pipe_count p" "pipe_buffer p" "write_pos p" "read_pos p" b]
    by (simp add: pipe_wf_def pipe_put_def pipe_contents_def)
next
  fix p
  assume wf: "pipe_wf p" and ne: "pipe_contents p \<noteq> []"
  then have c: "0 < pipe_count p" by (metis length_greater_0_conv pipe_contents_length)
  with wf show "pipe_wf (snd (pipe_get p))"
    by (auto simp: pipe_wf_def pipe_get_def ring_pos_pop)
  from wf c show "pipe_contents p = fst (pipe_get p) # pipe_contents (snd (pipe_get p))"
    using ring_pop [of "pipe_count p" "read_pos p" "pipe_buffer p"]
    by (simp add: pipe_wf_def pipe_get_def pipe_contents_def)
qed

interpretation mq_fifo: bounded_fifo mq_wf mq_contents MSG_QUEUE_SIZE mq_put mq_get
proof unfold_locales
  fix q m
  assume wf: "mq_wf q"
  then show "length (mq_contents q) \<le> MSG_QUEUE_SIZE" by (simp add: mq_wf_def)
  assume room: "length (mq_contents q) < MSG_QUEUE_SIZE"
  with wf show "mq_wf (mq_put m q)" by (simp add: mq_wf_def mq_put_def mod_simps)
  from wf room show "mq_contents (mq_put m q) = mq_contents q @ [m]"
    using ring_push [of "mq_count q" "messages q" "mq_tail q" "mq_head q" m]
    by (simp add: mq_wf_def mq_put_def mq_contents_def)
next
  fix q
  assume wf: "mq_wf q" and ne: "mq_contents q \<noteq> []"
  then have c: "0 < mq_count q" by (metis length_greater_0_conv mq_contents_length)
  with wf show "mq_wf (snd (mq_get q))"
    by (auto simp: mq_wf_def mq_get_def ring_pos_pop)
  from wf c show "mq_contents q = fst (mq_get q) # mq_contents (snd (mq_get q))"
    using ring_pop [of "mq_count q" "mq_head q" "messages q"]
    by (simp add: mq_wf_def mq_get_def mq_contents_def)
qed

lemma mq_open_simps [simp]: "mq_open (mq_put m q) = mq_open q" "mq_open (snd (mq_get q)) = mq_open q"
  by (simp_all add: mq_put_def mq_get_def)

lemma mq_payload_put:
  "mq_payload_wf q \<Longrightarrow> length (msg_data m) = MSG_MAX_SIZE \<Longrightarrow> mq_payload_wf (mq_put m q)"
  by (auto simp: mq_payload_wf_def mq_put_def dest: set_update_subset_insert [THEN subsetD])

lemma mq_payload_get: "mq_payload_wf q \<Longrightarrow> mq_payload_wf (snd (mq_get q))"
  by (simp add: mq_payload_wf_def mq_get_def)

section \<open>The loops are transfers of whole blocks\<close>

lemma pipe_put_fields [simp]:
  "pipe_count (pipe_put b p) = Suc (pipe_count p)" "pipe_open (pipe_put b p) = pipe_open p"
  by (simp_all add: pipe_put_def)

lemma pipe_write_loop_eq:
  assumes "pipe_wf p" and "w \<le> sz" and "sz \<le> length src"
  shows "pipe_write_loop src sz p w =
    (let n = min (sz - w) (PIPE_BUF_SIZE - pipe_count p)
     in Some (w + n, fold pipe_put (take n (drop w src)) p))"
  using assms
proof (induction src sz p w rule: pipe_write_loop.induct)
  case (1 src sz p w)
  show ?case
  proof (cases "w < sz \<and> pipe_count p < PIPE_BUF_SIZE")
    case True
    have pos: "write_pos p < length (pipe_buffer p)" using "1.prems"(1) by (simp add: pipe_wf_def)
    have n: "min (sz - w) (PIPE_BUF_SIZE - pipe_count p)
        = Suc (min (sz - Suc w) (PIPE_BUF_SIZE - Suc (pipe_count p)))"
      using True by auto
    have wf: "pipe_wf (pipe_put (src ! w) p)"
      using "1.prems"(1) True by (intro pipe_fifo.push_invar) auto
    have d: "drop w src = src ! w # drop (Suc w) src" using True "1.prems" by (simp add: Cons_nth_drop_Suc)
    have "pipe_write_loop src sz p w = pipe_write_loop src sz (pipe_put (src ! w) p) (Suc w)"
      using True pos "1.prems" by (subst pipe_write_loop.simps) simp
    also have "\<dots> = (let n = min (sz - Suc w) (PIPE_BUF_SIZE - Suc (pipe_count p))
        in Some (Suc w + n, fold pipe_put (take n (drop (Suc w) src)) (pipe_put (src ! w) p)))"
      using "1.IH" True pos "1.prems" wf by (simp add: Suc_leI)
    finally show ?thesis unfolding n d by (simp add: Let_def)
  next
    case False
    then show ?thesis using "1.prems" by (subst pipe_write_loop.simps) (auto simp: Let_def min_def pipe_wf_def)
  qed
qed

lemma pipe_read_loop_eq:
  assumes "pipe_wf p" and "n \<le> sz" and "sz \<le> length dst"
  shows "pipe_read_loop sz dst p n =
    (let k = min (sz - n) (pipe_count p); (xs, p') = drain pipe_get k p
     in Some (n + k, take n dst @ xs @ drop (n + k) dst, p'))"
  using assms
proof (induction sz dst p n rule: pipe_read_loop.induct)
  case (1 sz dst p n)
  show ?case
  proof (cases "n < sz \<and> 0 < pipe_count p")
    case True
    obtain b p' where get: "pipe_get p = (b, p')" by (cases "pipe_get p")
    have pos: "read_pos p < length (pipe_buffer p)" using "1.prems"(1) by (simp add: pipe_wf_def)
    have ne: "pipe_contents p \<noteq> []" using True by (metis length_greater_0_conv pipe_contents_length)
    have wf: "pipe_wf p'" using pipe_fifo.pop_invar [OF "1.prems"(1) ne] get by simp
    have cnt: "pipe_count p = Suc (pipe_count p')" using get True by (auto simp: pipe_get_def)
    have k: "min (sz - n) (pipe_count p) = Suc (min (sz - Suc n) (pipe_count p'))" using True cnt by auto
    have "pipe_read_loop sz dst p n = pipe_read_loop sz (dst[n := b]) p' (Suc n)"
      using True pos "1.prems" get by (subst pipe_read_loop.simps) simp
    also have "\<dots> = (let k = min (sz - Suc n) (pipe_count p'); (xs, p'') = drain pipe_get k p'
        in Some (Suc n + k, take (Suc n) (dst[n := b]) @ xs @ drop (Suc n + k) (dst[n := b]), p''))"
      using "1.IH" True pos "1.prems" wf get by (simp add: Suc_leI)
    finally show ?thesis unfolding k using True "1.prems"
      by (simp add: Let_def get split_beta take_Suc_conv_app_nth)
  next
    case False
    then show ?thesis using "1.prems" by (subst pipe_read_loop.simps) (auto simp: Let_def min_def)
  qed
qed

lemma fold_pipe_put_open [simp]: "pipe_open (fold pipe_put xs p) = pipe_open p"
  by (induction xs arbitrary: p) auto

lemma drain_pipe_get_open [simp]: "pipe_open (snd (drain pipe_get n p)) = pipe_open p"
  by (induction n arbitrary: p) (auto simp: split_beta pipe_get_def)

lemma ipc_wf_pipe: "ipc_wf s \<Longrightarrow> i < MAX_PIPES \<Longrightarrow> pipe_wf (pipes s ! i)"
  by (simp add: ipc_wf_def)

lemma ipc_wf_queue:
  assumes "ipc_wf s" and "i < MAX_MSG_QUEUES"
  shows "mq_wf (msg_queues s ! i)" and "mq_payload_wf (msg_queues s ! i)"
  using assms by (simp_all add: ipc_wf_def)

lemma ipc_wf_set_pipe: "ipc_wf s \<Longrightarrow> pipe_wf p \<Longrightarrow> ipc_wf (s\<lparr>pipes := (pipes s)[i := p]\<rparr>)"
  by (auto simp: ipc_wf_def dest: set_update_subset_insert [THEN subsetD])

lemma ipc_wf_set_queue:
  "ipc_wf s \<Longrightarrow> mq_wf q \<Longrightarrow> mq_payload_wf q \<Longrightarrow> ipc_wf (s\<lparr>msg_queues := (msg_queues s)[i := q]\<rparr>)"
  by (auto simp: ipc_wf_def dest: set_update_subset_insert [THEN subsetD])

lemmas ipc_wf_lengths = ipc_wf_def [THEN iffD1, THEN conjunct1]
  ipc_wf_def [THEN iffD1, THEN conjunct2, THEN conjunct1]

section \<open>Effect of each operation on an open pipe or queue\<close>

lemma pipe_write_open:
  assumes "ipc_wf s" and "i < MAX_PIPES" and "pipe_open (pipes s ! i)" and "sz \<le> length src"
  defines "n \<equiv> min sz (PIPE_BUF_SIZE - length (pipe_contents (pipes s ! i)))"
  obtains p where "pipe_write (Some i) (Some src) sz s = Some (int n, s\<lparr>pipes := (pipes s)[i := p]\<rparr>)"
    and "pipe_contents p = pipe_contents (pipes s ! i) @ take n src" and "pipe_wf p" and "pipe_open p"
proof -
  let ?p = "pipes s ! i"
  have wf: "pipe_wf ?p" using assms by (simp add: ipc_wf_pipe)
  have le: "pipe_count ?p \<le> PIPE_BUF_SIZE" using wf by (simp add: pipe_wf_def)
  have n: "length (pipe_contents ?p) + length (take n src) \<le> PIPE_BUF_SIZE"
    using le by (simp add: n_def)
  show thesis
    by (rule that [of "fold pipe_put (take n src) ?p"])
      (use assms pipe_write_loop_eq [OF wf, of 0 sz src] pipe_fifo.fold_push [OF wf n] in
        \<open>simp_all add: pipe_write_def ipc_wf_lengths n_def Let_def\<close>)
qed

lemma pipe_read_open:
  assumes "ipc_wf s" and "i < MAX_PIPES" and "pipe_open (pipes s ! i)" and "sz \<le> length dst"
  defines "n \<equiv> min sz (length (pipe_contents (pipes s ! i)))"
  obtains p where "pipe_read (Some i) (Some dst) sz s =
      Some (int n, Some (take n (pipe_contents (pipes s ! i)) @ drop n dst), s\<lparr>pipes := (pipes s)[i := p]\<rparr>)"
    and "pipe_contents p = drop n (pipe_contents (pipes s ! i))" and "pipe_wf p" and "pipe_open p"
proof -
  let ?p = "pipes s ! i"
  have wf: "pipe_wf ?p" using assms by (simp add: ipc_wf_pipe)
  have n: "n \<le> length (pipe_contents ?p)" by (simp add: n_def)
  show thesis
    by (rule that [of "snd (drain pipe_get n ?p)"])
      (use assms pipe_read_loop_eq [OF wf, of 0 sz dst] pipe_fifo.drain_elems [OF wf n] in
        \<open>simp_all add: pipe_read_def ipc_wf_lengths n_def split_beta Let_def\<close>)
qed

lemma msgqueue_send_open:
  assumes "ipc_wf s" and "i < MAX_MSG_QUEUES" and "mq_open (msg_queues s ! i)"
    and "sz \<le> MSG_MAX_SIZE" and "sz \<le> length src" and "length (mq_contents (msg_queues s ! i)) < MSG_QUEUE_SIZE"
  obtains m q where "msgqueue_send (Some i) pid ty (Some src) sz s = Some (0, s\<lparr>msg_queues := (msg_queues s)[i := q]\<rparr>)"
    and "mq_contents q = mq_contents (msg_queues s ! i) @ [m]" and "mq_wf q" and "mq_payload_wf q" and "mq_open q"
    and "sender_pid m = pid" and "msg_type m = ty" and "msg_size m = sz" and "take sz (msg_data m) = take sz src"
proof -
  let ?q = "msg_queues s ! i" and ?old = "msg_data (messages (msg_queues s ! i) ! mq_tail (msg_queues s ! i))"
  note wf = ipc_wf_queue [OF assms(1,2)]
  have t: "mq_tail ?q < length (messages ?q)" using wf(1) by (simp add: mq_wf_def)
  then have old: "length ?old = MSG_MAX_SIZE" using wf(2) by (simp add: mq_payload_wf_def)
  define m where "m = \<lparr>sender_pid = pid, msg_type = ty, msg_size = sz, msg_data = take sz src @ drop sz ?old\<rparr>"
  have len: "length (msg_data m) = MSG_MAX_SIZE" using assms old by (simp add: m_def)
  have cp: "(if 0 < sz then memcpy ?old src sz else Some ?old) = Some (take sz src @ drop sz ?old)"
    using assms old by (simp add: memcpy_eq)
  have eq: "msgqueue_send (Some i) pid ty (Some src) sz s =
      Some (0, s\<lparr>msg_queues := (msg_queues s)[i := mq_put m ?q]\<rparr>)"
    using assms t cp by (simp add: msgqueue_send_def ipc_wf_lengths Let_def m_def)
  have "sender_pid m = pid" "msg_type m = ty" "msg_size m = sz" "take sz (msg_data m) = take sz src"
    using assms by (simp_all add: m_def)
  with assms wf len show thesis
    by (intro that [OF eq, of m]) (simp_all add: mq_payload_put mq_fifo.push_invar mq_fifo.push_elems)
qed

lemma msgqueue_receive_open:
  assumes "ipc_wf s" and "i < MAX_MSG_QUEUES" and "mq_open (msg_queues s ! i)"
    and "mq_contents (msg_queues s ! i) = m # ms"
  obtains q where "msgqueue_receive (Some i) (Some buf) s =
      Some (0, Some m, s\<lparr>msg_queues := (msg_queues s)[i := q]\<rparr>)"
    and "mq_contents q = ms" and "mq_wf q" and "mq_payload_wf q" and "mq_open q"
proof -
  let ?q = "msg_queues s ! i"
  note wf = ipc_wf_queue [OF assms(1,2)]
  have h: "mq_head ?q < length (messages ?q)" using wf(1) by (simp add: mq_wf_def)
  have ne: "mq_contents ?q \<noteq> []" using assms(4) by simp
  then have c: "mq_count ?q \<noteq> 0" by (metis length_0_conv mq_contents_length)
  have m: "fst (mq_get ?q) = m" "mq_contents (snd (mq_get ?q)) = ms"
    using mq_fifo.pop_elems [OF wf(1) ne] assms(4) by auto
  show thesis
    by (rule that [of "snd (mq_get ?q)"])
      (use assms wf h c m mq_fifo.pop_invar [OF wf(1) ne] in
        \<open>simp_all add: msgqueue_receive_def ipc_wf_lengths Let_def split_beta mq_payload_get\<close>)
qed

section \<open>Reachable states\<close>

text \<open>The zero-initialised static tables.\<close>

definition ipc_boot :: ipc where
  "ipc_boot =
     \<lparr>pipes = replicate MAX_PIPES \<lparr>pipe_buffer = replicate PIPE_BUF_SIZE 0, read_pos = 0, write_pos = 0,
        pipe_count = 0, reader_pid = 0, writer_pid = 0, pipe_open = False\<rparr>,
      msg_queues = replicate MAX_MSG_QUEUES \<lparr>messages = replicate MSG_QUEUE_SIZE
        \<lparr>sender_pid = 0, msg_type = 0, msg_size = 0, msg_data = replicate MSG_MAX_SIZE 0\<rparr>,
        mq_head = 0, mq_tail = 0, mq_count = 0, owner_pid = 0, mq_open = False\<rparr>,
      ipc_initialized = False\<rparr>"

inductive ipc_reachable :: "ipc \<Rightarrow> bool" where
  boot: "ipc_reachable ipc_boot"
| init: "ipc_reachable s \<Longrightarrow> ipc_reachable (ipc_init s)"
| pcreate: "ipc_reachable s \<Longrightarrow> pipe_create r w s = (res, s') \<Longrightarrow> ipc_reachable s'"
| pwrite: "ipc_reachable s \<Longrightarrow> pipe_write p d n s = Some (res, s') \<Longrightarrow> ipc_reachable s'"
| pread: "ipc_reachable s \<Longrightarrow> pipe_read p b n s = Some (res, b', s') \<Longrightarrow> ipc_reachable s'"
| pclose: "ipc_reachable s \<Longrightarrow> pipe_close p s = Some s' \<Longrightarrow> ipc_reachable s'"
| qcreate: "ipc_reachable s \<Longrightarrow> msgqueue_create w s = (res, s') \<Longrightarrow> ipc_reachable s'"
| qsend: "ipc_reachable s \<Longrightarrow> msgqueue_send q pid ty d n s = Some (res, s') \<Longrightarrow> ipc_reachable s'"
| qreceive: "ipc_reachable s \<Longrightarrow> msgqueue_receive q m s = Some (res, m', s') \<Longrightarrow> ipc_reachable s'"
| qclose: "ipc_reachable s \<Longrightarrow> msgqueue_close q s = Some s' \<Longrightarrow> ipc_reachable s'"

lemma pipe_write_loop_wf: "pipe_wf p \<Longrightarrow> pipe_write_loop src n p w = Some (r, p') \<Longrightarrow> pipe_wf p'"
proof (induction src n p w rule: pipe_write_loop.induct)
  case (1 src n p w)
  from "1.prems"(2) "1.IH" "1.prems"(1) show ?case
    by (subst (asm) pipe_write_loop.simps) (auto split: if_splits simp: pipe_fifo.push_invar)
qed

lemma pipe_read_loop_wf: "pipe_wf p \<Longrightarrow> pipe_read_loop n dst p k = Some (r, d, p') \<Longrightarrow> pipe_wf p'"
proof (induction n dst p k rule: pipe_read_loop.induct)
  case (1 n dst p k)
  have "0 < pipe_count p \<Longrightarrow> pipe_wf (snd (pipe_get p))"
    using pipe_fifo.pop_invar [OF "1.prems"(1)] by (metis length_0_conv less_irrefl pipe_contents_length)
  with "1.prems"(2) "1.IH" "1.prems"(1) show ?case
    by (subst (asm) pipe_read_loop.simps) (auto split: if_splits prod.splits simp: Let_def)
qed

lemma msg_copy_length:
  assumes "(case d of Some src \<Rightarrow> if 0 < n then memcpy old src n else Some old | None \<Rightarrow> Some old) = Some d'"
  shows "length d' = length old"
proof -
  have "length d' = length old" if "memcpy old src n = Some d'" for src
    using that memcpy_Some_iff [of old src n] by (auto simp: memcpy_eq)
  with assms show ?thesis by (auto split: option.splits if_splits)
qed

lemma ipc_boot_wf: "ipc_wf ipc_boot"
  by (simp add: ipc_wf_def ipc_boot_def pipe_wf_def mq_wf_def mq_payload_wf_def)

lemma wf_open_simps [simp]:
  "pipe_wf (p\<lparr>pipe_open := b\<rparr>) = pipe_wf p"
  "mq_wf (q\<lparr>mq_open := b\<rparr>) = mq_wf q" "mq_payload_wf (q\<lparr>mq_open := b\<rparr>) = mq_payload_wf q"
  by (simp_all add: pipe_wf_def mq_wf_def mq_payload_wf_def)

lemma ipc_init_wf: "ipc_wf s \<Longrightarrow> ipc_wf (ipc_init s)"
  by (auto simp: ipc_init_def ipc_wf_def pipe_wf_def mq_wf_def mq_payload_wf_def)

lemmas ipc_wf_access = ipc_wf_pipe ipc_wf_queue ipc_wf_lengths not_le

lemma pipe_create_wf:
  assumes "ipc_wf s" and "pipe_create r w s = (res, s')"
  shows "ipc_wf s'"
proof (cases "first_index (\<lambda>p. \<not> pipe_open p) (pipes s)")
  case (Some i)
  then have "pipe_wf (pipes s ! i)"
    using assms(1) first_index_SomeD(1) [OF Some] by (simp add: ipc_wf_access)
  with Some assms show ?thesis by (auto simp: pipe_create_def pipe_wf_def intro!: ipc_wf_set_pipe)
qed (use assms in \<open>simp add: pipe_create_def\<close>)

lemma pipe_write_wf: "ipc_wf s \<Longrightarrow> pipe_write p d n s = Some (res, s') \<Longrightarrow> ipc_wf s'"
  by (auto simp: pipe_write_def ipc_wf_access split: option.splits if_splits bind_splits
      intro!: ipc_wf_set_pipe elim!: pipe_write_loop_wf [rotated])

lemma pipe_read_wf: "ipc_wf s \<Longrightarrow> pipe_read p b n s = Some (res, b', s') \<Longrightarrow> ipc_wf s'"
  by (auto simp: pipe_read_def ipc_wf_access split: option.splits if_splits bind_splits
      intro!: ipc_wf_set_pipe elim!: pipe_read_loop_wf [rotated])

lemma pipe_close_wf: "ipc_wf s \<Longrightarrow> pipe_close p s = Some s' \<Longrightarrow> ipc_wf s'"
  by (auto simp: pipe_close_def ipc_wf_access split: option.splits if_splits intro!: ipc_wf_set_pipe)

lemma msgqueue_create_wf:
  assumes "ipc_wf s" and "msgqueue_create w s = (res, s')"
  shows "ipc_wf s'"
proof (cases "first_index (\<lambda>q. \<not> mq_open q) (msg_queues s)")
  case (Some i)
  then have "mq_wf (msg_queues s ! i)" "mq_payload_wf (msg_queues s ! i)"
    using assms(1) first_index_SomeD(1) [OF Some] by (simp_all add: ipc_wf_access)
  with Some assms show ?thesis
    by (auto simp: msgqueue_create_def mq_wf_def mq_payload_wf_def intro!: ipc_wf_set_queue)
qed (use assms in \<open>simp add: msgqueue_create_def\<close>)

lemma msgqueue_send_wf:
  assumes "ipc_wf s" and "msgqueue_send q pid ty d n s = Some (res, s')"
  shows "ipc_wf s'"
proof (cases "s' = s")
  case False
  with assms(2) obtain i d' where i: "i < length (msg_queues s)"
    and q: "mq_count (msg_queues s ! i) < MSG_QUEUE_SIZE" "mq_tail (msg_queues s ! i) < length (messages (msg_queues s ! i))"
    and d: "(case d of Some src \<Rightarrow> if 0 < n then memcpy (msg_data (messages (msg_queues s ! i) ! mq_tail (msg_queues s ! i))) src n
        else Some (msg_data (messages (msg_queues s ! i) ! mq_tail (msg_queues s ! i)))
      | None \<Rightarrow> Some (msg_data (messages (msg_queues s ! i) ! mq_tail (msg_queues s ! i)))) = Some d'"
    and s': "s' = s\<lparr>msg_queues := (msg_queues s)[i :=
        mq_put \<lparr>sender_pid = pid, msg_type = ty, msg_size = n, msg_data = d'\<rparr> (msg_queues s ! i)]\<rparr>"
    by (auto simp: msgqueue_send_def Let_def not_le split: option.splits if_splits bind_splits)
  have "i < MAX_MSG_QUEUES" using i assms(1) by (simp add: ipc_wf_lengths)
  note wf = ipc_wf_queue [OF assms(1) this]
  have "length d' = MSG_MAX_SIZE"
    using msg_copy_length [OF d] q(2) wf(2) by (simp add: mq_payload_wf_def)
  with wf q(1) assms(1) show ?thesis
    unfolding s' by (intro ipc_wf_set_queue mq_payload_put mq_fifo.push_invar) auto
qed (use assms in simp)

lemma msgqueue_receive_wf:
  assumes "ipc_wf s" and "msgqueue_receive q m s = Some (res, m', s')"
  shows "ipc_wf s'"
proof -
  have "mq_wf (snd (mq_get x))" if "mq_wf x" "0 < mq_count x" for x
    using mq_fifo.pop_invar that by (metis length_0_conv less_irrefl mq_contents_length)
  with assms show ?thesis
    by (auto simp: msgqueue_receive_def ipc_wf_access Let_def split_beta split: option.splits if_splits
        intro!: ipc_wf_set_queue mq_payload_get)
qed

lemma msgqueue_close_wf: "ipc_wf s \<Longrightarrow> msgqueue_close q s = Some s' \<Longrightarrow> ipc_wf s'"
  by (auto simp: msgqueue_close_def ipc_wf_access split: option.splits if_splits intro!: ipc_wf_set_queue)

lemmas ipc_step_wf = ipc_boot_wf ipc_init_wf pipe_create_wf pipe_write_wf pipe_read_wf pipe_close_wf
  msgqueue_create_wf msgqueue_send_wf msgqueue_receive_wf msgqueue_close_wf

section \<open>The contract of the module\<close>

text \<open>A client's session on one pipe: the bytes the pipe accepted and the bytes it delivered.\<close>

datatype pipe_op = Put "u8 list" | Take nat

fun pipe_session :: "nat \<Rightarrow> pipe_op list \<Rightarrow> ipc \<Rightarrow> (u8 list \<times> u8 list \<times> ipc) option" where
  "pipe_session i [] s = Some ([], [], s)"
| "pipe_session i (Put src # ops) s = do {
     (n, s1) \<leftarrow> pipe_write (Some i) (Some src) (length src) s;
     (accepted, delivered, s2) \<leftarrow> pipe_session i ops s1;
     Some (take (nat n) src @ accepted, delivered, s2)
   }"
| "pipe_session i (Take k # ops) s = do {
     (n, buf, s1) \<leftarrow> pipe_read (Some i) (Some (replicate k 0)) k s;
     (accepted, delivered, s2) \<leftarrow> pipe_session i ops s1;
     Some (accepted, take (nat n) (the buf) @ delivered, s2)
   }"

text \<open>
  C30. A pipe is a lossless byte stream: in every session of writes and reads on an open pipe no call
  leaves its buffers, and the bytes delivered followed by the bytes still in the pipe are
  the bytes it held at the start followed by the bytes it accepted, in the same order.
\<close>

theorem pipe_lossless:
  assumes "ipc_wf s" and "i < MAX_PIPES" and "pipe_open (pipes s ! i)"
  shows "\<exists>accepted delivered s'. pipe_session i ops s = Some (accepted, delivered, s') \<and> ipc_wf s' \<and>
    delivered @ pipe_contents (pipes s' ! i) = pipe_contents (pipes s ! i) @ accepted"
  using assms
proof (induction ops arbitrary: s)
  case (Cons op ops)
  have len: "i < length (pipes s)" using Cons.prems by (simp add: ipc_wf_lengths)
  show ?case
  proof (cases op)
    case (Put src)
    obtain n p where w: "pipe_write (Some i) (Some src) (length src) s = Some (int n, s\<lparr>pipes := (pipes s)[i := p]\<rparr>)"
      "pipe_contents p = pipe_contents (pipes s ! i) @ take n src" "pipe_wf p" "pipe_open p"
      using pipe_write_open [OF Cons.prems order_refl] by metis
    with Put len Cons.IH [of "s\<lparr>pipes := (pipes s)[i := p]\<rparr>"] Cons.prems
    show ?thesis by (auto simp: ipc_wf_set_pipe)
  next
    case (Take k)
    obtain n p where r: "pipe_read (Some i) (Some (replicate k 0)) k s = Some (int n,
        Some (take n (pipe_contents (pipes s ! i)) @ drop n (replicate k 0)), s\<lparr>pipes := (pipes s)[i := p]\<rparr>)"
      "pipe_contents p = drop n (pipe_contents (pipes s ! i))" "pipe_wf p" "pipe_open p"
      "n \<le> length (pipe_contents (pipes s ! i))"
      using pipe_read_open [OF Cons.prems, of k "replicate k 0"] by (metis length_replicate min.cobounded2 order_refl)
    with Take len Cons.IH [of "s\<lparr>pipes := (pipes s)[i := p]\<rparr>"] Cons.prems
    show ?thesis by (auto simp: ipc_wf_set_pipe)
  qed
qed simp

lemma pipe_create_boot:
  "\<exists>s. pipe_create 1 2 ipc_boot = (Some 0, s) \<and> ipc_wf s \<and> pipe_open (pipes s ! 0) \<and> pipe_contents (pipes s ! 0) = []"
proof -
  have "first_index (\<lambda>p. \<not> pipe_open p) (pipes ipc_boot) = Some 0"
    by (simp add: first_index_Some_iff ipc_boot_def)
  moreover have "0 < length (pipes ipc_boot)" by (simp add: ipc_boot_def)
  ultimately show ?thesis
    using pipe_create_wf [OF ipc_boot_wf] by (auto simp: pipe_create_def pipe_contents_def)
qed

theorem pipe_lossless_witness:
  "\<exists>s. ipc_wf s \<and> pipe_open (pipes s ! 0) \<and>
    (\<exists>accepted delivered s'. pipe_session 0 [Put [1, 2, 3], Take 2, Put [4], Take 9] s = Some (accepted, delivered, s') \<and>
       delivered @ pipe_contents (pipes s' ! 0) = accepted)"
proof -
  obtain s where s: "ipc_wf s" "pipe_open (pipes s ! 0)" "pipe_contents (pipes s ! 0) = []"
    using pipe_create_boot by blast
  then show ?thesis using pipe_lossless [of s 0 "[Put [1, 2, 3], Take 2, Put [4], Take 9]"] by auto
qed

lemma msgqueue_send_cases:
  assumes "ipc_wf s" and "i < MAX_MSG_QUEUES" and "sz \<le> length src"
  defines "q \<equiv> msg_queues s ! i"
  shows "if mq_open q \<and> sz \<le> MSG_MAX_SIZE \<and> length (mq_contents q) < MSG_QUEUE_SIZE
    then \<exists>s' m. msgqueue_send (Some i) pid ty (Some src) sz s = Some (0, s') \<and> ipc_wf s' \<and>
      mq_contents (msg_queues s' ! i) = mq_contents q @ [m] \<and> sender_pid m = pid \<and> msg_type m = ty \<and>
      msg_size m = sz \<and> take sz (msg_data m) = take sz src
    else msgqueue_send (Some i) pid ty (Some src) sz s = Some (-1, s)"
proof -
  have len: "i < length (msg_queues s)" using assms by (simp add: ipc_wf_lengths)
  show ?thesis
  proof (cases "mq_open q \<and> sz \<le> MSG_MAX_SIZE \<and> length (mq_contents q) < MSG_QUEUE_SIZE")
    case True
    then obtain m q' where "msgqueue_send (Some i) pid ty (Some src) sz s = Some (0, s\<lparr>msg_queues := (msg_queues s)[i := q']\<rparr>)"
      "mq_contents q' = mq_contents q @ [m]" "mq_wf q'" "mq_payload_wf q'" "mq_open q'"
      "sender_pid m = pid" "msg_type m = ty" "msg_size m = sz" "take sz (msg_data m) = take sz src"
      using msgqueue_send_open [OF assms(1,2) _ _ assms(3)] unfolding q_def by metis
    with True len assms(1) show ?thesis by (auto simp: ipc_wf_set_queue)
  next
    case False
    with len show ?thesis by (auto simp: msgqueue_send_def q_def Let_def)
  qed
qed

lemma msgqueue_receive_cases:
  assumes "ipc_wf s" and "i < MAX_MSG_QUEUES"
  defines "q \<equiv> msg_queues s ! i"
  shows "if mq_open q \<and> mq_contents q \<noteq> []
    then \<exists>s'. msgqueue_receive (Some i) (Some buf) s = Some (0, Some (hd (mq_contents q)), s') \<and> ipc_wf s' \<and>
      mq_contents (msg_queues s' ! i) = tl (mq_contents q)
    else msgqueue_receive (Some i) (Some buf) s = Some (-1, Some buf, s)"
proof -
  have len: "i < length (msg_queues s)" using assms by (simp add: ipc_wf_lengths)
  show ?thesis
  proof (cases "mq_open q \<and> mq_contents q \<noteq> []")
    case True
    then obtain m ms where c: "mq_contents q = m # ms" by (cases "mq_contents q") auto
    with True obtain q' where "msgqueue_receive (Some i) (Some buf) s =
        Some (0, Some m, s\<lparr>msg_queues := (msg_queues s)[i := q']\<rparr>)" "mq_contents q' = ms" "mq_wf q'" "mq_payload_wf q'"
      using msgqueue_receive_open [OF assms(1,2)] unfolding q_def by metis
    with True len c assms(1) show ?thesis by (auto simp: ipc_wf_set_queue)
  next
    case False
    then have "mq_open q \<Longrightarrow> mq_count q = 0" by (metis length_0_conv mq_contents_length)
    with False len show ?thesis by (auto simp: msgqueue_receive_def q_def Let_def)
  qed
qed

text \<open>
  C31. A message queue is a bounded FIFO of messages: on a queue of the table, sending appends the
  message with its sender, type, size and payload exactly when the queue is open, the payload
  fits and fewer than sixteen messages wait, and otherwise returns -1 and changes nothing;
  receiving hands out the oldest message exactly when the queue is open and not empty, and
  otherwise returns -1 and changes nothing.
\<close>

theorem msgqueue_fifo:
  assumes "ipc_wf s" and "i < MAX_MSG_QUEUES" and "sz \<le> length src" and "q = msg_queues s ! i"
  shows "(if mq_open q \<and> sz \<le> MSG_MAX_SIZE \<and> length (mq_contents q) < MSG_QUEUE_SIZE
     then \<exists>s' m. msgqueue_send (Some i) pid ty (Some src) sz s = Some (0, s') \<and> ipc_wf s' \<and>
       mq_contents (msg_queues s' ! i) = mq_contents q @ [m] \<and> sender_pid m = pid \<and> msg_type m = ty \<and>
       msg_size m = sz \<and> take sz (msg_data m) = take sz src
     else msgqueue_send (Some i) pid ty (Some src) sz s = Some (-1, s)) \<and>
    (if mq_open q \<and> mq_contents q \<noteq> []
     then \<exists>s'. msgqueue_receive (Some i) (Some buf) s = Some (0, Some (hd (mq_contents q)), s') \<and> ipc_wf s' \<and>
       mq_contents (msg_queues s' ! i) = tl (mq_contents q)
     else msgqueue_receive (Some i) (Some buf) s = Some (-1, Some buf, s))"
  using msgqueue_send_cases [OF assms(1,2,3)] msgqueue_receive_cases [OF assms(1,2)]
  unfolding assms(4) by blast

lemma msgqueue_create_boot:
  "\<exists>s. msgqueue_create 1 ipc_boot = (Some 0, s) \<and> ipc_wf s \<and> mq_open (msg_queues s ! 0) \<and> mq_contents (msg_queues s ! 0) = []"
proof -
  have "first_index (\<lambda>q. \<not> mq_open q) (msg_queues ipc_boot) = Some 0"
    by (simp add: first_index_Some_iff ipc_boot_def)
  moreover have "0 < length (msg_queues ipc_boot)" by (simp add: ipc_boot_def)
  ultimately show ?thesis
    using msgqueue_create_wf [OF ipc_boot_wf] by (auto simp: msgqueue_create_def mq_contents_def)
qed

theorem msgqueue_fifo_witness:
  "\<exists>s s' m. ipc_wf s \<and> msgqueue_send (Some 0) 5 9 (Some [10, 20]) 2 s = Some (0, s') \<and>
    mq_contents (msg_queues s' ! 0) = [m] \<and> take 2 (msg_data m) = [10, 20] \<and>
    msgqueue_receive (Some 0) (Some m) s = Some (-1, Some m, s)"
proof -
  obtain s where s: "ipc_wf s" "mq_open (msg_queues s ! 0)" "mq_contents (msg_queues s ! 0) = []"
    using msgqueue_create_boot by blast
  then show ?thesis
    using msgqueue_fifo [of s 0 2 "[10, 20]" "msg_queues s ! 0" 5 9] by auto metis
qed

text \<open>
  C32. Every state that the module reaches from its zero-initialised tables by any sequence of its
  operations, with any arguments, is well formed: thirty-two pipes and thirty-two queues, each ring with its
  positions in range, its count at most its capacity and its write position where the read
  position and the count say, and every message slot with its 256 bytes.
\<close>

theorem ipc_reachable_wf: "ipc_reachable s \<Longrightarrow> ipc_wf s"
  by (induction rule: ipc_reachable.induct) (blast intro: ipc_step_wf)+

theorem ipc_reachable_wf_witness: "ipc_wf (ipc_init ipc_boot)"
  by (rule ipc_reachable_wf) (intro ipc_reachable.intros)

text \<open>
  Creating a pipe takes the lowest closed slot and hands it out open, empty and with the given
  endpoints; it fails exactly when all thirty-two pipes are open, and then changes nothing.
\<close>

theorem pipe_create_spec:
  assumes "ipc_wf s"
  shows "case pipe_create rpid wpid s of
      (None, s') \<Rightarrow> s' = s \<and> (\<forall>j < MAX_PIPES. pipe_open (pipes s ! j))
    | (Some i, s') \<Rightarrow> i < MAX_PIPES \<and> \<not> pipe_open (pipes s ! i) \<and> (\<forall>j < i. pipe_open (pipes s ! j)) \<and>
        pipe_open (pipes s' ! i) \<and> pipe_contents (pipes s' ! i) = [] \<and> reader_pid (pipes s' ! i) = rpid \<and>
        writer_pid (pipes s' ! i) = wpid \<and> (\<forall>j. j \<noteq> i \<longrightarrow> pipes s' ! j = pipes s ! j)"
proof (cases "first_index (\<lambda>p. \<not> pipe_open p) (pipes s)")
  case None
  then have "\<forall>j < length (pipes s). pipe_open (pipes s ! j)" by (simp add: first_index_None_iff)
  with None assms show ?thesis by (simp add: pipe_create_def ipc_wf_lengths)
next
  case (Some i)
  then have "i < length (pipes s)" "\<not> pipe_open (pipes s ! i)" "\<forall>j < i. pipe_open (pipes s ! j)"
    by (simp_all add: first_index_Some_iff)
  with Some assms show ?thesis by (simp add: pipe_create_def ipc_wf_lengths pipe_contents_def)
qed

theorem pipe_create_spec_witness:
  "ipc_wf ipc_boot \<and> (case pipe_create 3 4 ipc_boot of (None, s') \<Rightarrow> False
     | (Some i, s') \<Rightarrow> i = 0 \<and> pipe_open (pipes s' ! i) \<and> reader_pid (pipes s' ! i) = 3)"
proof -
  have "\<not> pipe_open (pipes ipc_boot ! 0)" by (simp add: ipc_boot_def)
  then show ?thesis
    using pipe_create_spec [OF ipc_boot_wf, of 3 4] ipc_boot_wf by (auto split: prod.splits option.splits)
qed

end
