(* ===== verification/PMM.thy ===== *)
theory PMM
  imports Prelude
begin

text \<open>
  The physical memory manager, \<^verbatim>\<open>src/memory/pmm.c\<close>, \<^verbatim>\<open>src/memory/pmm.h\<close> and the boot
  information of \<^verbatim>\<open>src/include/multiboot.h\<close>. The bitmap array is a function from byte
  indices; every access in the code is guarded by the bound of the array. Page numbers and
  addresses are 32-bit words, so products wrap as in the code; NULL is the address 0. The
  boot information and the memory map that the boot loader leaves in memory are arguments,
  and so are the two linker symbols.
\<close>

section \<open>State and bitmap\<close>

abbreviation (input) PMM_PAGE_SIZE :: "'a :: len word" where "PMM_PAGE_SIZE \<equiv> 4096"
abbreviation (input) PMM_BITMAP_SIZE :: u32 where "PMM_BITMAP_SIZE \<equiv> 1048576"
abbreviation (input) PMM_LOW_MEMORY :: "'a :: len word" where "PMM_LOW_MEMORY \<equiv> 0x100000"
abbreviation (input) MULTIBOOT_MEMORY_AVAILABLE :: u32 where "MULTIBOOT_MEMORY_AVAILABLE \<equiv> 1"

record pmm =
  pmm_bitmap :: "u32 \<Rightarrow> u8"
  total_pages :: u32
  used_pages :: u32
  max_physical_address :: u64

definition bitmap_set :: "u32 \<Rightarrow> pmm \<Rightarrow> pmm" where
  "bitmap_set page s =
     (let byte = page div 8; bit = page mod 8
      in if byte < PMM_BITMAP_SIZE
         then s\<lparr>pmm_bitmap := (pmm_bitmap s)(byte := pmm_bitmap s byte OR push_bit (unat bit) 1)\<rparr>
         else s)"

definition bitmap_clear :: "u32 \<Rightarrow> pmm \<Rightarrow> pmm" where
  "bitmap_clear page s =
     (let byte = page div 8; bit = page mod 8
      in if byte < PMM_BITMAP_SIZE
         then s\<lparr>pmm_bitmap := (pmm_bitmap s)(byte := pmm_bitmap s byte AND NOT (push_bit (unat bit) 1))\<rparr>
         else s)"

definition bitmap_test :: "u32 \<Rightarrow> pmm \<Rightarrow> bool" where
  "bitmap_test page s =
     (let byte = page div 8; bit = page mod 8
      in if byte < PMM_BITMAP_SIZE
         then pmm_bitmap s byte AND push_bit (unat bit) 1 \<noteq> 0
         else True)"

section \<open>Initialisation\<close>

definition reserve_range :: "u64 \<Rightarrow> u64 \<Rightarrow> pmm \<Rightarrow> pmm" where
  "reserve_range start end s =
     (if end \<le> start then s
      else let first = ucast (start div PMM_PAGE_SIZE);
               last_page = ucast ((end + PMM_PAGE_SIZE - 1) div PMM_PAGE_SIZE)
           in for_u32 first (min last_page (total_pages s))
                (\<lambda>page s. if \<not> bitmap_test page s then bitmap_set page s else s) s)"

record multiboot_mmap_entry =
  mmap_size :: u32
  mmap_addr :: u64
  mmap_len :: u64
  mmap_type :: u32

record multiboot_info =
  mb_flags :: u32
  mb_mem_lower :: u32
  mb_mem_upper :: u32
  mb_mmap_length :: u32
  mb_mmap_addr :: u32

text \<open>
  The two \<^verbatim>\<open>while (mmap < mmap_end)\<close> loops over the entries that \<open>mem\<close> holds. A malformed
  map can keep the pointer below its end forever, hence the option.
\<close>

partial_function (option) mmap_walk ::
    "(multiboot_mmap_entry \<Rightarrow> 's \<Rightarrow> 's) \<Rightarrow> (u32 \<Rightarrow> multiboot_mmap_entry) \<Rightarrow> u32 \<Rightarrow> u32 \<Rightarrow> 's \<Rightarrow> 's option" where
  "mmap_walk f mem mmap mmap_end s =
     (if mmap < mmap_end
      then mmap_walk f mem (mmap + mmap_size (mem mmap) + 4) mmap_end (f (mem mmap) s)
      else Some s)"

definition mmap_measure :: "multiboot_mmap_entry \<Rightarrow> pmm \<Rightarrow> pmm" where
  "mmap_measure e s =
     (if mmap_type e = MULTIBOOT_MEMORY_AVAILABLE
      then let region_end = mmap_addr e + mmap_len e
           in if max_physical_address s < region_end then s\<lparr>max_physical_address := region_end\<rparr> else s
      else s)"

definition mmap_release :: "multiboot_mmap_entry \<Rightarrow> pmm \<Rightarrow> pmm" where
  "mmap_release e s =
     (if mmap_type e = MULTIBOOT_MEMORY_AVAILABLE \<and> PMM_LOW_MEMORY \<le> mmap_addr e
      then let start_page = ucast (mmap_addr e div PMM_PAGE_SIZE);
               end_page = ucast ((mmap_addr e + mmap_len e) div PMM_PAGE_SIZE)
           in for_u32 start_page (min end_page (total_pages s)) bitmap_clear s
      else s)"

definition count_used :: "pmm \<Rightarrow> pmm" where
  "count_used s =
     for_u32 0 (total_pages s)
       (\<lambda>i s. if bitmap_test i s then s\<lparr>used_pages := used_pages s + 1\<rparr> else s) (s\<lparr>used_pages := 0\<rparr>)"

definition pmm_init ::
    "u32 \<Rightarrow> u32 \<Rightarrow> (u32 \<Rightarrow> multiboot_mmap_entry) \<Rightarrow> multiboot_info \<Rightarrow> pmm \<Rightarrow> pmm option" where
  "pmm_init kernel_start kernel_end mem mboot s =
     (let s0 = for_u32 0 PMM_BITMAP_SIZE (\<lambda>i s. s\<lparr>pmm_bitmap := (pmm_bitmap s)(i := 0xFF)\<rparr>) s
      in if mb_flags mboot AND 0x40 = 0
         then let mem_kb = mb_mem_lower mboot + mb_mem_upper mboot;
                  s1 = s0\<lparr>total_pages := (mem_kb * 1024) div PMM_PAGE_SIZE,
                          max_physical_address := ucast (mem_kb * 1024)\<rparr>;
                  s2 = for_u32 (PMM_LOW_MEMORY div PMM_PAGE_SIZE) (total_pages s1) bitmap_clear s1;
                  s3 = reserve_range 0 PMM_PAGE_SIZE s2;
                  s4 = reserve_range (ucast kernel_start) (ucast kernel_end) s3
              in Some (count_used s4)
         else let mmap = mb_mmap_addr mboot;
                  mmap_end = mb_mmap_addr mboot + mb_mmap_length mboot
              in case mmap_walk mmap_measure mem mmap mmap_end s0 of
                   None \<Rightarrow> None
                 | Some s1 \<Rightarrow>
                     let pages = ucast (max_physical_address s1 div PMM_PAGE_SIZE);
                         s2 = s1\<lparr>total_pages := if PMM_BITMAP_SIZE * 8 < pages then PMM_BITMAP_SIZE * 8 else pages\<rparr>
                     in case mmap_walk mmap_release mem mmap mmap_end s2 of
                          None \<Rightarrow> None
                        | Some s3 \<Rightarrow>
                            let s4 = reserve_range 0 PMM_PAGE_SIZE s3;
                                s5 = reserve_range (ucast kernel_start) (ucast kernel_end) s4
                            in Some (count_used s5))"

section \<open>Operations\<close>

function find_free_page :: "u32 \<Rightarrow> pmm \<Rightarrow> u32 option" where
  "find_free_page page s =
     (if page < total_pages s
      then if \<not> bitmap_test page s then Some page else find_free_page (page + 1) s
      else None)"
  by pat_completeness auto
termination
  by (relation "measure (\<lambda>(page, s). unat (total_pages s) - unat page)")
    (auto simp: unat_Suc_less word_less_nat_alt)

declare find_free_page.simps [simp del]

definition pmm_alloc_page :: "pmm \<Rightarrow> u32 \<times> pmm" where
  "pmm_alloc_page s =
     (case find_free_page 0 s of
        Some page \<Rightarrow>
          (page * PMM_PAGE_SIZE, (bitmap_set page s)\<lparr>used_pages := used_pages s + 1\<rparr>)
      | None \<Rightarrow> (0, s))"

definition pmm_free_page :: "u32 \<Rightarrow> pmm \<Rightarrow> pmm" where
  "pmm_free_page page s =
     (let page_num = page div PMM_PAGE_SIZE
      in if page_num < total_pages s \<and> bitmap_test page_num s
         then (bitmap_clear page_num s)\<lparr>used_pages := used_pages s - 1\<rparr>
         else s)"

definition pmm_mark_used :: "u32 \<Rightarrow> pmm \<Rightarrow> pmm" where
  "pmm_mark_used page s =
     (let page_num = page div PMM_PAGE_SIZE
      in if page_num < total_pages s \<and> \<not> bitmap_test page_num s
         then (bitmap_set page_num s)\<lparr>used_pages := used_pages s + 1\<rparr>
         else s)"

definition pmm_mark_free :: "u32 \<Rightarrow> pmm \<Rightarrow> pmm" where
  "pmm_mark_free page s = pmm_free_page page s"

definition pmm_is_page_free :: "u32 \<Rightarrow> pmm \<Rightarrow> bool" where
  "pmm_is_page_free page s =
     (let page_num = page div PMM_PAGE_SIZE
      in if total_pages s \<le> page_num then False else \<not> bitmap_test page_num s)"

record pmm_stats =
  st_total_pages :: u32
  st_used_pages :: u32
  st_free_pages :: u32
  st_total_memory_kb :: u32
  st_used_memory_kb :: u32
  st_free_memory_kb :: u32

definition pmm_get_stats :: "pmm \<Rightarrow> pmm_stats" where
  "pmm_get_stats s =
     (let total_kb = (total_pages s * PMM_PAGE_SIZE) div 1024;
          used_kb = (used_pages s * PMM_PAGE_SIZE) div 1024
      in \<lparr>st_total_pages = total_pages s, st_used_pages = used_pages s,
          st_free_pages = total_pages s - used_pages s, st_total_memory_kb = total_kb,
          st_used_memory_kb = used_kb, st_free_memory_kb = total_kb - used_kb\<rparr>)"

definition pmm_get_total_pages :: "pmm \<Rightarrow> u32" where
  "pmm_get_total_pages s = total_pages s"

definition pmm_get_max_address :: "pmm \<Rightarrow> u32" where
  "pmm_get_max_address s =
     (let max_bytes = ucast (total_pages s) * PMM_PAGE_SIZE
      in if max_physical_address s < max_bytes then ucast (max_physical_address s) else ucast max_bytes)"

section \<open>The bitmap is a set of pages\<close>

text \<open>The page numbers that the array covers.\<close>

abbreviation tracked :: "u32 \<Rightarrow> bool" where
  "tracked p \<equiv> p div 8 < PMM_BITMAP_SIZE"

lemma tracked_iff: "tracked p \<longleftrightarrow> p < 8388608"
  by (simp add: word_less_nat_alt unat_div div_less_iff_less_mult)

lemma bit_number_less: "unat (p mod 8 :: u32) < 8"
  by (simp add: unat_mod)

lemma page_eq_iff: "p = q \<longleftrightarrow> p div 8 = q div 8 \<and> unat (p mod 8) = unat (q mod 8)" for p q :: u32
  by (metis div_mult_mod_eq word_unat_eq_iff)

lemma bitmap_test_iff:
  "bitmap_test p s \<longleftrightarrow> (tracked p \<longrightarrow> bit (pmm_bitmap s (p div 8)) (unat (p mod 8)))"
  by (simp add: bitmap_test_def Let_def and_exp_eq_0_iff_not_bit push_bit_of_1)

lemma bitmap_test_set: "bitmap_test p (bitmap_set q s) \<longleftrightarrow> p = q \<or> bitmap_test p s"
  using bit_number_less [of q] page_eq_iff [of p q]
  by (auto simp: bitmap_test_iff bitmap_set_def Let_def bit_simps push_bit_of_1)

lemma bitmap_test_clear: "bitmap_test p (bitmap_clear q s) \<longleftrightarrow> (p = q \<longrightarrow> \<not> tracked p) \<and> bitmap_test p s"
  using bit_number_less [of p] page_eq_iff [of p q]
  by (auto simp: bitmap_test_iff bitmap_clear_def Let_def bit_simps push_bit_of_1)

lemma bitmap_update_fields [simp]:
  "total_pages (bitmap_set p s) = total_pages s" "used_pages (bitmap_set p s) = used_pages s"
  "max_physical_address (bitmap_set p s) = max_physical_address s"
  "total_pages (bitmap_clear p s) = total_pages s" "used_pages (bitmap_clear p s) = used_pages s"
  "max_physical_address (bitmap_clear p s) = max_physical_address s"
  by (simp_all add: bitmap_set_def bitmap_clear_def Let_def)

lemma bitmap_test_update [simp]:
  "bitmap_test p (s\<lparr>used_pages := u\<rparr>) = bitmap_test p s"
  "bitmap_test p (s\<lparr>total_pages := t\<rparr>) = bitmap_test p s"
  "bitmap_test p (s\<lparr>max_physical_address := m\<rparr>) = bitmap_test p s"
  by (simp_all add: bitmap_test_def)

definition pages_of :: "pmm \<Rightarrow> u32 set" where
  "pages_of s = {p. p < total_pages s}"

definition used_set :: "pmm \<Rightarrow> u32 set" where
  "used_set s = {p. p < total_pages s \<and> bitmap_test p s}"

definition free_set :: "pmm \<Rightarrow> u32 set" where
  "free_set s = {p. p < total_pages s \<and> \<not> bitmap_test p s}"

definition pmm_wf :: "pmm \<Rightarrow> bool" where
  "pmm_wf s \<longleftrightarrow> total_pages s \<le> PMM_BITMAP_SIZE * 8 \<and> unat (used_pages s) = card (used_set s)"

lemma card_pages_of: "card (pages_of s) = unat (total_pages s)"
proof -
  have "bij_betw unat (pages_of s) {..< unat (total_pages s)}"
  proof (rule bij_betw_byWitness [where f' = of_nat])
    show "of_nat ` {..< unat (total_pages s)} \<subseteq> pages_of s"
      using unat_u32_less [of "total_pages s"]
      by (auto simp: pages_of_def word_less_nat_alt unat_of_nat)
    show "\<forall>a'\<in>{..< unat (total_pages s)}. unat (of_nat a' :: u32) = a'"
      using unat_u32_less [of "total_pages s"] by (auto simp: unat_of_nat)
  qed (auto simp: pages_of_def word_less_nat_alt)
  then show ?thesis by (metis bij_betw_same_card card_lessThan)
qed

lemma used_free_partition:
  "used_set s \<union> free_set s = pages_of s" "used_set s \<inter> free_set s = {}"
  by (auto simp: used_set_def free_set_def pages_of_def)

lemma card_used_free: "card (used_set s) + card (free_set s) = unat (total_pages s)"
proof -
  have "card (used_set s \<union> free_set s) = card (used_set s) + card (free_set s)"
    by (rule card_Un_disjoint) (auto simp: used_free_partition)
  then show ?thesis by (simp add: used_free_partition card_pages_of)
qed

section \<open>Effect of the loops\<close>

lemma for_u32_mark:
  assumes "\<And>q s. bitmap_test p (f q s) \<longleftrightarrow> p = q \<or> bitmap_test p s"
  shows "bitmap_test p (for_u32 a b f s) \<longleftrightarrow> (a \<le> p \<and> p < b) \<or> bitmap_test p s"
  using assms
proof (induction a b f s rule: for_u32.induct)
  case (1 a b f s)
  then show ?case
    using u32_range_step [of a b p] by (cases "a < b") (simp_all add: for_u32_step, blast, meson le_less_trans)
qed

lemma for_u32_unmark:
  "bitmap_test p (for_u32 a b bitmap_clear s) \<longleftrightarrow> (a \<le> p \<and> p < b \<longrightarrow> \<not> tracked p) \<and> bitmap_test p s"
proof (induction a b "bitmap_clear" s rule: for_u32.induct)
  case (1 a b s)
  then show ?case
    using u32_range_step [of a b p]
    by (cases "a < b") (simp_all add: for_u32_step bitmap_test_clear, blast, meson le_less_trans)
qed

lemma reserve_range_test:
  "bitmap_test p (reserve_range st en s) \<longleftrightarrow>
     (st < en \<and> ucast (st div 4096) \<le> p \<and> p < ucast ((en + 4096 - 1) div 4096) \<and> p < total_pages s) \<or> bitmap_test p s"
proof -
  have "bitmap_test p (for_u32 a b (\<lambda>page s. if \<not> bitmap_test page s then bitmap_set page s else s) s)
      \<longleftrightarrow> (a \<le> p \<and> p < b) \<or> bitmap_test p s" for a b
    by (rule for_u32_mark) (auto simp: bitmap_test_set)
  then show ?thesis by (auto simp: reserve_range_def Let_def not_le)
qed

lemma reserve_range_fields [simp]:
  "total_pages (reserve_range st en s) = total_pages s"
  by (auto simp: reserve_range_def Let_def intro!: for_u32_preserves)

lemma mmap_release_fields [simp]: "total_pages (mmap_release e s) = total_pages s"
  by (auto simp: mmap_release_def Let_def intro!: for_u32_preserves)

definition region_pages :: "multiboot_mmap_entry \<Rightarrow> u32 \<Rightarrow> bool" where
  "region_pages e p \<longleftrightarrow> mmap_type e = MULTIBOOT_MEMORY_AVAILABLE \<and> PMM_LOW_MEMORY \<le> mmap_addr e \<and>
     ucast (mmap_addr e div PMM_PAGE_SIZE) \<le> p \<and> p < ucast ((mmap_addr e + mmap_len e) div PMM_PAGE_SIZE)"

lemma mmap_release_test:
  "bitmap_test p (mmap_release e s) \<longleftrightarrow>
     (region_pages e p \<and> p < total_pages s \<longrightarrow> \<not> tracked p) \<and> bitmap_test p s"
  by (auto simp: mmap_release_def region_pages_def Let_def for_u32_unmark)

text \<open>The recount at the end of the initialisation establishes the invariant.\<close>

lemma count_used_test [simp]: "bitmap_test p (count_used s) = bitmap_test p s"
  unfolding count_used_def by (subst for_u32_preserves [where g = "bitmap_test p"]) auto

lemma count_used_total [simp]: "total_pages (count_used s) = total_pages s"
  unfolding count_used_def by (subst for_u32_preserves [where g = total_pages]) auto

lemma count_used_card: "unat (used_pages (count_used s)) = card (used_set s)"
proof -
  let ?f = "\<lambda>i s. if bitmap_test i s then s\<lparr>used_pages := used_pages s + 1\<rparr> else s"
  let ?below = "\<lambda>k. {p. p < k \<and> bitmap_test p s}"
  let ?P = "\<lambda>k s'. unat (used_pages s') = card (?below k) \<and> (\<forall>p. bitmap_test p s' = bitmap_test p s)"
  have "?P (total_pages s) (for_u32 0 (total_pages s) ?f (s\<lparr>used_pages := 0\<rparr>))"
  proof (rule for_u32_invariant)
    fix k s'
    assume k: "k < total_pages s" and P: "?P k s'"
    have lt: "p < k + 1 \<longleftrightarrow> p < k \<or> p = k" for p
      using unat_Suc_less [OF k] by (auto simp: word_less_nat_alt word_unat_eq_iff less_Suc_eq)
    have "card (?below k) \<le> card (pages_of (s\<lparr>total_pages := k\<rparr>))"
      by (rule card_mono) (auto simp: pages_of_def)
    then have "unat (used_pages s') < unat (total_pages s)"
      using k P by (simp add: card_pages_of word_less_nat_alt)
    then have inc: "unat (used_pages s' + 1) = Suc (unat (used_pages s'))"
      by (intro unat_Suc_less [of _ "total_pages s"]) (simp add: word_less_nat_alt)
    show "?P (k + 1) (?f k s')"
    proof (cases "bitmap_test k s")
      case True
      then have "?below (k + 1) = insert k (?below k)" by (auto simp: lt)
      moreover have "card (insert k (?below k)) = Suc (card (?below k))" by simp
      ultimately show ?thesis using True P inc by simp
    next
      case False
      then have "?below (k + 1) = ?below k" by (auto simp: lt)
      with False P show ?thesis by simp
    qed
  qed auto
  then show ?thesis by (simp add: count_used_def used_set_def)
qed

section \<open>Well-formed memory maps\<close>

text \<open>
  The map that a boot loader provides: the entries lie one behind the other from the first
  address to the end address, each advancing by its own size field plus four, without
  wrapping around.
\<close>

inductive mmap_entries ::
    "(u32 \<Rightarrow> multiboot_mmap_entry) \<Rightarrow> u32 \<Rightarrow> u32 \<Rightarrow> multiboot_mmap_entry list \<Rightarrow> bool" where
  mmap_nil: "mmap_entries mem a a []"
| mmap_cons: "a < b \<Longrightarrow> mmap_entries mem (a + mmap_size (mem a) + 4) b es \<Longrightarrow> mmap_entries mem a b (mem a # es)"

lemma mmap_walk_entries: "mmap_entries mem a b es \<Longrightarrow> mmap_walk f mem a b s = Some (fold f es s)"
  by (induction arbitrary: s rule: mmap_entries.induct) (simp_all add: mmap_walk.simps)

lemma fold_release_total [simp]: "total_pages (fold mmap_release es s) = total_pages s"
  by (induction es arbitrary: s) auto

lemma fold_release_test:
  "bitmap_test p (fold mmap_release es s) \<longleftrightarrow>
     ((\<exists>e\<in>set es. region_pages e p) \<and> p < total_pages s \<longrightarrow> \<not> tracked p) \<and> bitmap_test p s"
  by (induction es arbitrary: s) (auto simp: mmap_release_test)

lemma fold_measure_test [simp]: "bitmap_test p (fold mmap_measure es s) = bitmap_test p s"
  by (induction es arbitrary: s) (auto simp: mmap_measure_def Let_def)

lemma fill_test:
  "bitmap_test p (for_u32 0 PMM_BITMAP_SIZE (\<lambda>i s. s\<lparr>pmm_bitmap := (pmm_bitmap s)(i := 0xFF)\<rparr>) s)"
proof -
  let ?f = "\<lambda>i s. s\<lparr>pmm_bitmap := (pmm_bitmap s)(i := 0xFF)\<rparr>"
  let ?P = "\<lambda>k s. \<forall>i<k. pmm_bitmap s i = 0xFF"
  have "?P PMM_BITMAP_SIZE (for_u32 0 PMM_BITMAP_SIZE ?f s)"
  proof (rule for_u32_invariant)
    fix k :: u32 and s' :: pmm
    assume k: "k < PMM_BITMAP_SIZE" and P: "?P k s'"
    have lt: "p < k + 1 \<longleftrightarrow> p < k \<or> p = k" for p
      using unat_Suc_less [OF k] by (auto simp: word_less_nat_alt word_unat_eq_iff less_Suc_eq)
    from P show "?P (k + 1) (?f k s')" by (auto simp: lt)
  qed auto
  moreover have "bit (0xFF :: u8) n" if "n < 8" for n
    using that by (auto simp: less_Suc_eq numeral_eq_Suc)
  ultimately show ?thesis using bit_number_less [of p] by (simp add: bitmap_test_iff)
qed

section \<open>Effect of each operation\<close>

lemma pmm_wf_count_used: "total_pages s \<le> PMM_BITMAP_SIZE * 8 \<Longrightarrow> pmm_wf (count_used s)"
  using count_used_card [of s] by (simp add: pmm_wf_def used_set_def)

lemma tracked_total: "pmm_wf s \<Longrightarrow> p < total_pages s \<Longrightarrow> tracked p"
  unfolding tracked_iff pmm_wf_def by (auto intro: order_less_le_trans)

lemma find_free_page_Some:
  "find_free_page q s = Some p \<Longrightarrow> q \<le> p \<and> p \<in> free_set s \<and> (\<forall>r. q \<le> r \<longrightarrow> r < p \<longrightarrow> r \<notin> free_set s)"
proof (induction q s rule: find_free_page.induct)
  case (1 q s)
  show ?case
  proof (cases "q < total_pages s \<and> bitmap_test q s")
    case True
    with 1 have "q + 1 \<le> p \<and> p \<in> free_set s \<and> (\<forall>r. q + 1 \<le> r \<longrightarrow> r < p \<longrightarrow> r \<notin> free_set s)"
      by (subst (asm) (2) find_free_page.simps) auto
    with True u32_range_step [of q "total_pages s"] show ?thesis
      by (auto simp: free_set_def) (metis less_trans)+
  next
    case False
    with "1.prems" show ?thesis
      by (subst (asm) find_free_page.simps) (auto simp: free_set_def split: if_splits)
  qed
qed

lemma find_free_page_None: "find_free_page q s = None \<Longrightarrow> q \<le> r \<Longrightarrow> r \<notin> free_set s"
proof (induction q s rule: find_free_page.induct)
  case (1 q s)
  show ?case
  proof (cases "q < total_pages s")
    case True
    with "1.prems"(1) have t: "bitmap_test q s" "find_free_page (q + 1) s = None"
      by (subst (asm) find_free_page.simps, simp split: if_splits)+
    with 1 True u32_range_step [OF True, of r] show ?thesis by (auto simp: free_set_def)
  next
    case False
    with "1.prems"(2) show ?thesis by (auto simp: free_set_def)
  qed
qed

lemma mark_used_effect:
  assumes "pmm_wf s" and "p \<in> free_set s"
  defines "s' \<equiv> (bitmap_set p s)\<lparr>used_pages := used_pages s + 1\<rparr>"
  shows "used_set s' = insert p (used_set s)" and "free_set s' = free_set s - {p}" and "pmm_wf s'"
    and "total_pages s' = total_pages s"
proof -
  have p: "p < total_pages s" "p \<notin> used_set s" using assms(2) by (auto simp: free_set_def used_set_def)
  show tot: "total_pages s' = total_pages s" by (simp add: s'_def)
  show used: "used_set s' = insert p (used_set s)" using p by (auto simp: used_set_def s'_def bitmap_test_set)
  show "free_set s' = free_set s - {p}" by (auto simp: free_set_def s'_def bitmap_test_set)
  have "0 < card (free_set s)" using assms(2) by (auto simp: card_gt_0_iff)
  then have "used_pages s < total_pages s"
    using assms(1) card_used_free [of s] by (simp add: pmm_wf_def word_less_nat_alt)
  then have "unat (used_pages s + 1) = Suc (card (used_set s))"
    using assms(1) by (simp add: unat_Suc_less pmm_wf_def)
  with p used assms(1) tot show "pmm_wf s'" by (simp add: pmm_wf_def s'_def)
qed

lemma mark_free_effect:
  assumes "pmm_wf s" and "p \<in> used_set s"
  defines "s' \<equiv> (bitmap_clear p s)\<lparr>used_pages := used_pages s - 1\<rparr>"
  shows "used_set s' = used_set s - {p}" and "free_set s' = insert p (free_set s)" and "pmm_wf s'"
    and "total_pages s' = total_pages s"
proof -
  have p: "p < total_pages s" using assms(2) by (auto simp: used_set_def)
  have tr: "tracked p" using tracked_total assms(1) p by blast
  show tot: "total_pages s' = total_pages s" by (simp add: s'_def)
  show used: "used_set s' = used_set s - {p}" using tr by (auto simp: used_set_def s'_def bitmap_test_clear)
  show "free_set s' = insert p (free_set s)" using p tr by (auto simp: free_set_def s'_def bitmap_test_clear)
  have pos: "0 < card (used_set s)" using assms(2) by (auto simp: card_gt_0_iff)
  then have "used_pages s \<noteq> 0" using assms(1) by (auto simp: pmm_wf_def)
  then have "unat (used_pages s - 1) = card (used_set s) - 1"
    using assms(1) by (simp add: unat_minus_one pmm_wf_def)
  with used assms(1,2) tot show "pmm_wf s'" by (simp add: pmm_wf_def s'_def)
qed

lemma pmm_alloc_page_cases:
  assumes "pmm_wf s"
  obtains (Full) "free_set s = {}" "pmm_alloc_page s = (0, s)"
    | (Page) p s' where "pmm_alloc_page s = (p * 4096, s')" "p \<in> free_set s" "\<And>q. q < p \<Longrightarrow> q \<notin> free_set s"
        "used_set s' = insert p (used_set s)" "free_set s' = free_set s - {p}" "pmm_wf s'"
        "total_pages s' = total_pages s"
proof (cases "find_free_page 0 s")
  case None
  then have "free_set s = {}" using find_free_page_None [of 0 s] by auto
  with None Full show thesis by (simp add: pmm_alloc_page_def)
next
  case (Some p)
  note f = find_free_page_Some [OF Some]
  then have p: "p \<in> free_set s" "\<And>q. q < p \<Longrightarrow> q \<notin> free_set s" by auto
  have "pmm_alloc_page s = (p * 4096, (bitmap_set p s)\<lparr>used_pages := used_pages s + 1\<rparr>)"
    using Some by (simp add: pmm_alloc_page_def)
  from Page [OF this p] mark_used_effect [OF assms p(1)] show thesis by blast
qed

lemma pmm_free_page_effect:
  assumes "pmm_wf s"
  shows "if a div 4096 \<in> used_set s
    then used_set (pmm_free_page a s) = used_set s - {a div 4096} \<and>
         free_set (pmm_free_page a s) = insert (a div 4096) (free_set s) \<and> pmm_wf (pmm_free_page a s)
    else pmm_free_page a s = s"
  using mark_free_effect [OF assms, of "a div 4096"] by (auto simp: pmm_free_page_def Let_def used_set_def)

lemma pmm_mark_used_effect:
  assumes "pmm_wf s"
  shows "if a div 4096 \<in> free_set s
    then used_set (pmm_mark_used a s) = insert (a div 4096) (used_set s) \<and>
         free_set (pmm_mark_used a s) = free_set s - {a div 4096} \<and> pmm_wf (pmm_mark_used a s)
    else pmm_mark_used a s = s"
  using mark_used_effect [OF assms, of "a div 4096"] by (auto simp: pmm_mark_used_def Let_def free_set_def)

lemma page_address:
  assumes "p < (0x100000 :: u32)"
  shows "unat (p * 4096) = unat p * 4096" and "p * 4096 div 4096 = p"
proof -
  have "unat p < 0x100000" using assms by (simp add: word_less_nat_alt)
  then show u: "unat (p * 4096) = unat p * 4096" by (simp add: unat_word_ariths)
  show "p * 4096 div 4096 = p" by (simp add: word_unat_eq_iff unat_div u)
qed

section \<open>The interface of a frame allocator\<close>

text \<open>
  What the users of page frames rely on: \<open>frames\<close> are the addresses that can ever be handed
  out, \<open>avail\<close> those that are not in use. A frame is page aligned and not NULL; allocation
  takes an available frame and fails only when there is none; a released frame is available
  again.
\<close>

primrec alloc_many :: "('s \<Rightarrow> u32 \<times> 's) \<Rightarrow> nat \<Rightarrow> 's \<Rightarrow> u32 list \<times> 's" where
  "alloc_many alloc 0 s = ([], s)"
| "alloc_many alloc (Suc n) s =
     (let (a, s1) = alloc s; (as, s2) = alloc_many alloc n s1 in (a # as, s2))"

locale frame_allocator =
  fixes invar :: "'s \<Rightarrow> bool"
    and frames :: "'s \<Rightarrow> u32 set"
    and avail :: "'s \<Rightarrow> u32 set"
    and alloc :: "'s \<Rightarrow> u32 \<times> 's"
    and release :: "u32 \<Rightarrow> 's \<Rightarrow> 's"
  assumes avail_frames: "invar s \<Longrightarrow> avail s \<subseteq> frames s"
    and frames_aligned: "invar s \<Longrightarrow> a \<in> frames s \<Longrightarrow> a mod 4096 = 0 \<and> a \<noteq> 0"
    and alloc_none: "invar s \<Longrightarrow> avail s = {} \<Longrightarrow> alloc s = (0, s)"
    and alloc_some: "invar s \<Longrightarrow> avail s \<noteq> {} \<Longrightarrow>
      fst (alloc s) \<in> avail s \<and> avail (snd (alloc s)) = avail s - {fst (alloc s)} \<and>
      frames (snd (alloc s)) = frames s \<and> invar (snd (alloc s))"
    and release_frame: "invar s \<Longrightarrow> a \<in> frames s \<Longrightarrow> a \<notin> avail s \<Longrightarrow>
      avail (release a s) = insert a (avail s) \<and> frames (release a s) = frames s \<and> invar (release a s)"
begin

lemma alloc_invar: "invar s \<Longrightarrow> invar (snd (alloc s))"
  using alloc_none alloc_some by (cases "avail s = {}") auto

lemma alloc_null_iff: "invar s \<Longrightarrow> fst (alloc s) = 0 \<longleftrightarrow> avail s = {}"
  using alloc_none alloc_some avail_frames frames_aligned by (metis fst_conv subsetD)

lemma alloc_many_distinct:
  assumes "invar s" and "n \<le> card (avail s)" and "finite (avail s)"
  shows "let (as, s') = alloc_many alloc n s in distinct as \<and> length as = n \<and> set as \<subseteq> avail s \<and>
    avail s' = avail s - set as \<and> frames s' = frames s \<and> invar s'"
  using assms
proof (induction n arbitrary: s)
  case (Suc n)
  obtain a s1 where a: "alloc s = (a, s1)" by (cases "alloc s")
  have "avail s \<noteq> {}" using Suc.prems by auto
  then have s1: "a \<in> avail s" "avail s1 = avail s - {a}" "frames s1 = frames s" "invar s1"
    using alloc_some [OF Suc.prems(1)] a by auto
  with Suc.prems have "n \<le> card (avail s1)" "finite (avail s1)" by auto
  with Suc.IH [OF s1(4)] s1 a show ?case by (auto simp: Let_def split: prod.splits)
qed simp

lemma alloc_release:
  assumes "invar s" and "avail s \<noteq> {}"
  shows "avail (release (fst (alloc s)) (snd (alloc s))) = avail s"
proof -
  note al = alloc_some [OF assms]
  then have "fst (alloc s) \<in> frames (snd (alloc s))" using avail_frames [OF assms(1)] by auto
  with al release_frame [of "snd (alloc s)" "fst (alloc s)"] show ?thesis by auto
qed

end

text \<open>
  The manager provides it whenever it tracks at most 4 GiB and page 0 is reserved, which is
  the state after initialisation on such a machine.
\<close>

definition pmm_ok :: "pmm \<Rightarrow> bool" where
  "pmm_ok s \<longleftrightarrow> pmm_wf s \<and> total_pages s \<le> 0x100000 \<and> 0 \<in> used_set s"

definition pmm_frames :: "pmm \<Rightarrow> u32 set" where
  "pmm_frames s = (\<lambda>p. p * 4096) ` (pages_of s - {0})"

definition pmm_avail :: "pmm \<Rightarrow> u32 set" where
  "pmm_avail s = (\<lambda>p. p * 4096) ` free_set s"

lemma pmm_ok_page: "pmm_ok s \<Longrightarrow> p \<in> pages_of s \<Longrightarrow> p < 0x100000"
  unfolding pmm_ok_def pages_of_def by (auto intro: order_less_le_trans)

lemma free_pages_of: "p \<in> free_set s \<Longrightarrow> p \<in> pages_of s"
  by (simp add: free_set_def pages_of_def)

lemma pmm_ok_inj: "pmm_ok s \<Longrightarrow> inj_on (\<lambda>p. p * 4096) (pages_of s)"
  by (metis (mono_tags, lifting) inj_onI page_address(2) pmm_ok_page)

lemma pmm_avail_div:
  assumes "pmm_ok s" and "a \<in> pmm_frames s"
  shows "a div 4096 \<in> pages_of s" and "a div 4096 * 4096 = a" and "a div 4096 \<noteq> 0"
    and "a \<in> pmm_avail s \<longleftrightarrow> a div 4096 \<in> free_set s"
proof -
  obtain p where p: "a = p * 4096" "p \<in> pages_of s" "p \<noteq> 0" using assms(2) by (auto simp: pmm_frames_def)
  have d: "a div 4096 = p" using p page_address(2) pmm_ok_page [OF assms(1)] by blast
  with p show "a div 4096 \<in> pages_of s" "a div 4096 * 4096 = a" "a div 4096 \<noteq> 0" by auto
  have "a \<in> pmm_avail s \<longleftrightarrow> p \<in> free_set s"
    using p pmm_ok_inj [OF assms(1)] by (auto simp: pmm_avail_def inj_on_def dest: free_pages_of)
  with d show "a \<in> pmm_avail s \<longleftrightarrow> a div 4096 \<in> free_set s" by simp
qed

interpretation pmm_alloc: frame_allocator pmm_ok pmm_frames pmm_avail pmm_alloc_page pmm_free_page
proof unfold_locales
  fix s
  assume ok: "pmm_ok s"
  then have wf: "pmm_wf s" and z: "0 \<notin> free_set s" by (auto simp: pmm_ok_def used_set_def free_set_def)
  show "pmm_avail s \<subseteq> pmm_frames s"
    using z by (auto simp: pmm_avail_def pmm_frames_def dest: free_pages_of)
  show "a mod 4096 = 0 \<and> a \<noteq> 0" if "a \<in> pmm_frames s" for a
  proof -
    have "a div 4096 * 4096 + a mod 4096 = a" by (rule div_mult_mod_eq)
    with pmm_avail_div(2,3) [OF ok that] show ?thesis by auto
  qed
  show "pmm_alloc_page s = (0, s)" if "pmm_avail s = {}"
    using that by (cases rule: pmm_alloc_page_cases [OF wf]) (auto simp: pmm_avail_def)
  show "fst (pmm_alloc_page s) \<in> pmm_avail s \<and>
      pmm_avail (snd (pmm_alloc_page s)) = pmm_avail s - {fst (pmm_alloc_page s)} \<and>
      pmm_frames (snd (pmm_alloc_page s)) = pmm_frames s \<and> pmm_ok (snd (pmm_alloc_page s))"
    if ne: "pmm_avail s \<noteq> {}"
    using wf
  proof (cases rule: pmm_alloc_page_cases)
    case (Page p s')
    have "(\<lambda>p. p * 4096) ` (free_set s - {p}) = (\<lambda>p. p * 4096) ` free_set s - {p * 4096}"
      using inj_on_image_set_diff [OF pmm_ok_inj [OF ok], of "free_set s" "{p}"] Page(2)
      by (auto dest: free_pages_of)
    with Page ok show ?thesis
      by (auto simp: pmm_avail_def pmm_frames_def pages_of_def pmm_ok_def)
  qed (use ne in \<open>simp add: pmm_avail_def\<close>)
  show "pmm_avail (pmm_free_page a s) = insert a (pmm_avail s) \<and>
      pmm_frames (pmm_free_page a s) = pmm_frames s \<and> pmm_ok (pmm_free_page a s)"
    if a: "a \<in> pmm_frames s" and na: "a \<notin> pmm_avail s" for a
  proof -
    note d = pmm_avail_div [OF ok a]
    have u: "a div 4096 \<in> used_set s" using d(1,4) na used_free_partition [of s] by auto
    have "total_pages (pmm_free_page a s) = total_pages s" by (simp add: pmm_free_page_def Let_def)
    with pmm_free_page_effect [OF wf, of a] u d ok show ?thesis
      by (auto simp: pmm_avail_def pmm_frames_def pages_of_def pmm_ok_def)
  qed
qed

lemma page_of_address:
  fixes ks ke p :: u32
  shows "ucast ks < (ucast ke :: u64) \<and> ucast ((ucast ks :: u64) div 4096) \<le> p \<and>
      p < ucast (((ucast ke :: u64) + 4096 - 1) div 4096) \<longleftrightarrow> (\<exists>a. ks \<le> a \<and> a < ke \<and> a div 4096 = p)"
proof -
  have up: "unat (ucast w :: u64) = unat w" for w :: u32
    using unat_u32_less [of w] by (simp add: unsigned_ucast_eq take_bit_eq_mod)
  have dn: "unat (ucast w :: u32) = unat w" if "unat w < 4294967296" for w :: u64
    using that by (simp add: unsigned_ucast_eq take_bit_eq_mod)
  have ks: "unat (ucast ((ucast ks :: u64) div 4096) :: u32) = unat ks div 4096"
    using unat_u32_less [of ks] by (subst dn) (auto simp: unat_div up)
  have sum: "unat ((ucast ke :: u64) + 4096 - 1) = unat ke + 4095"
    using unat_u32_less [of ke] by (simp add: up unat_word_ariths)
  have ke: "unat (ucast (((ucast ke :: u64) + 4096 - 1) div 4096) :: u32) = (unat ke + 4095) div 4096"
    using unat_u32_less [of ke] by (subst dn) (auto simp only: unat_div sum, auto)
  have "(\<exists>a. ks \<le> a \<and> a < ke \<and> a div 4096 = p) \<longleftrightarrow>
      unat ks < unat ke \<and> unat ks div 4096 \<le> unat p \<and> unat p < (unat ke + 4095) div 4096" (is "?l \<longleftrightarrow> ?r")
  proof
    assume ?l
    then obtain a where "ks \<le> a" "a < ke" "p = a div 4096" by blast
    then have a: "unat ks \<le> unat a" "unat a < unat ke" "unat p = unat a div 4096"
      by (simp_all add: word_le_nat_alt word_less_nat_alt unat_div)
    then have "unat ks div 4096 \<le> unat p" "unat p < (unat ke + 4095) div 4096"
      by (simp_all add: div_le_mono)
    with a show ?r by simp
  next
    assume r: ?r
    define n where "n = max (unat ks) (unat p * 4096)"
    have "n < unat ke" "n div 4096 = unat p" "unat ks \<le> n" using r by (auto simp: n_def max_def)
    moreover have "unat (of_nat n :: u32) = n"
      using \<open>n < unat ke\<close> unat_u32_less [of ke] by (simp add: unat_of_nat)
    ultimately show ?l
      by (intro exI [of _ "of_nat n"]) (simp add: word_le_nat_alt word_less_nat_alt word_unat_eq_iff unat_div)
  qed
  then show ?thesis by (simp only: word_less_nat_alt word_le_nat_alt up ks ke)
qed

text \<open>The page frames that hold a byte of the kernel image.\<close>

definition kernel_page :: "u32 \<Rightarrow> u32 \<Rightarrow> u32 \<Rightarrow> bool" where
  "kernel_page kernel_start kernel_end p \<longleftrightarrow> (\<exists>a. kernel_start \<le> a \<and> a < kernel_end \<and> a div 4096 = p)"

lemma reserve_kernel_test:
  "bitmap_test p (reserve_range (ucast ks) (ucast ke) s) \<longleftrightarrow>
     (kernel_page ks ke p \<and> p < total_pages s) \<or> bitmap_test p s"
  using page_of_address [of ks ke p] by (auto simp: reserve_range_test kernel_page_def)

lemma reserve_zero_test: "bitmap_test p (reserve_range 0 4096 s) \<longleftrightarrow> (p = 0 \<and> p < total_pages s) \<or> bitmap_test p s"
proof -
  have "p < 1 \<longleftrightarrow> p = 0" for p :: u32 by (auto simp: word_less_nat_alt word_unat_eq_iff)
  then show ?thesis by (auto simp: reserve_range_test)
qed

text \<open>The end of the highest available region.\<close>

definition ram_end :: "multiboot_mmap_entry list \<Rightarrow> u64 \<Rightarrow> u64" where
  "ram_end es m = fold (\<lambda>e m. if mmap_type e = MULTIBOOT_MEMORY_AVAILABLE then max m (mmap_addr e + mmap_len e) else m) es m"

lemma fold_measure_max: "max_physical_address (fold mmap_measure es s) = ram_end es (max_physical_address s)"
  by (induction es arbitrary: s) (auto simp: ram_end_def mmap_measure_def Let_def max_def not_less)

lemma pmm_init_map:
  assumes "mb_flags mb AND 0x40 \<noteq> 0"
    and "mmap_entries mem (mb_mmap_addr mb) (mb_mmap_addr mb + mb_mmap_length mb) es"
  shows "\<exists>s'. pmm_init ks ke mem mb s = Some s' \<and> pmm_wf s' \<and>
    total_pages s' = min 8388608 (ucast (ram_end es (max_physical_address s) div 4096)) \<and>
    (\<forall>p. p \<in> free_set s' \<longleftrightarrow> p < total_pages s' \<and> (\<exists>e\<in>set es. region_pages e p) \<and> p \<noteq> 0 \<and> \<not> kernel_page ks ke p)"
proof -
  define s0 where "s0 = for_u32 0 PMM_BITMAP_SIZE (\<lambda>i s. s\<lparr>pmm_bitmap := (pmm_bitmap s)(i := 0xFF)\<rparr>) s"
  define s1 where "s1 = fold mmap_measure es s0"
  define pages :: u32 where "pages = ucast (max_physical_address s1 div 4096)"
  define s2 where "s2 = s1\<lparr>total_pages := if 8388608 < pages then 8388608 else pages\<rparr>"
  define s3 where "s3 = fold mmap_release es s2"
  define s5 where "s5 = reserve_range (ucast ks) (ucast ke) (reserve_range 0 4096 s3)"
  have init: "pmm_init ks ke mem mb s = Some (count_used s5)"
    using assms(1)
    by (simp add: pmm_init_def Let_def mmap_walk_entries [OF assms(2)]
        s0_def s1_def s2_def s3_def s5_def pages_def)
  have all: "bitmap_test p s0" for p unfolding s0_def by (rule fill_test)
  have tot: "total_pages s5 = total_pages s2" by (simp add: s5_def s3_def)
  have le: "total_pages s5 \<le> PMM_BITMAP_SIZE * 8" unfolding tot by (simp add: s2_def not_less)
  have tr: "tracked p" if "p < total_pages s2" for p
    using le that unfolding tot tracked_iff by (auto intro: order_less_le_trans)
  have "bitmap_test p s5 \<longleftrightarrow> kernel_page ks ke p \<or> p = 0 \<or> \<not> (\<exists>e\<in>set es. region_pages e p)"
    if "p < total_pages s2" for p
    using that tr [OF that] all
    by (auto simp: s5_def reserve_kernel_test reserve_zero_test s3_def fold_release_test s2_def s1_def)
  then have "p \<in> free_set (count_used s5) \<longleftrightarrow>
      p < total_pages (count_used s5) \<and> (\<exists>e\<in>set es. region_pages e p) \<and> p \<noteq> 0 \<and> \<not> kernel_page ks ke p" for p
    by (auto simp: free_set_def tot)
  moreover have "max_physical_address s0 = max_physical_address s"
    unfolding s0_def by (rule for_u32_preserves) simp
  then have "total_pages (count_used s5) = min 8388608 (ucast (ram_end es (max_physical_address s) div 4096))"
    by (auto simp: tot s2_def pages_def s1_def fold_measure_max min_def)
  ultimately show ?thesis using init pmm_wf_count_used [OF le] by blast
qed

lemma pmm_init_basic:
  assumes "mb_flags mb AND 0x40 = 0"
  shows "\<exists>s'. pmm_init ks ke mem mb s = Some s' \<and> pmm_wf s' \<and>
    total_pages s' = (mb_mem_lower mb + mb_mem_upper mb) * 1024 div 4096 \<and>
    (\<forall>p. p \<in> free_set s' \<longleftrightarrow> p < total_pages s' \<and> 256 \<le> p \<and> \<not> kernel_page ks ke p)"
proof -
  define s0 where "s0 = for_u32 0 PMM_BITMAP_SIZE (\<lambda>i s. s\<lparr>pmm_bitmap := (pmm_bitmap s)(i := 0xFF)\<rparr>) s"
  define kb where "kb = mb_mem_lower mb + mb_mem_upper mb"
  define s1 where "s1 = s0\<lparr>total_pages := (kb * 1024) div 4096, max_physical_address := ucast (kb * 1024)\<rparr>"
  define s2 where "s2 = for_u32 256 (total_pages s1) bitmap_clear s1"
  define s4 where "s4 = reserve_range (ucast ks) (ucast ke) (reserve_range 0 4096 s2)"
  have init: "pmm_init ks ke mem mb s = Some (count_used s4)"
    using assms by (simp add: pmm_init_def Let_def s0_def s1_def s2_def s4_def kb_def)
  have all: "bitmap_test p s1" for p using fill_test [of p s] by (simp add: s1_def s0_def)
  have t2: "total_pages s2 = total_pages s1" unfolding s2_def by (rule for_u32_preserves) simp
  have tot: "total_pages s4 = kb * 1024 div 4096" by (simp add: s4_def t2) (simp add: s1_def)
  have lt: "kb * 1024 div 4096 < 0x100000" by (simp add: word_less_nat_alt unat_div) (use unat_u32_less [of "kb * 1024"] in simp)
  then have le: "total_pages s4 \<le> PMM_BITMAP_SIZE * 8" unfolding tot by (simp add: word_le_nat_alt word_less_nat_alt)
  have tr: "tracked p" if "p < total_pages s4" for p
    using le that unfolding tracked_iff by (auto intro: order_less_le_trans)
  have "bitmap_test p s4 \<longleftrightarrow> kernel_page ks ke p \<or> p = 0 \<or> \<not> 256 \<le> p" if "p < total_pages s4" for p
    using that tr [OF that] all t2 tot
    by (auto simp: s4_def reserve_kernel_test reserve_zero_test s2_def for_u32_unmark)
  then have "p \<in> free_set (count_used s4) \<longleftrightarrow> p < total_pages (count_used s4) \<and> 256 \<le> p \<and> \<not> kernel_page ks ke p" for p
    by (auto simp: free_set_def)
  then show ?thesis using init pmm_wf_count_used [OF le] tot by (auto simp: kb_def)
qed



text \<open>A state with one reserved and one free page.\<close>

definition pmm_example :: pmm where
  "pmm_example = \<lparr>pmm_bitmap = (\<lambda>_. 1), total_pages = 2, used_pages = 1, max_physical_address = 8192\<rparr>"

lemma pmm_example_sets: "used_set pmm_example = {0}" "free_set pmm_example = {1}"
proof -
  have two: "p < 2 \<longleftrightarrow> p = 0 \<or> p = 1" for p :: u32
    by (auto simp: word_less_nat_alt word_unat_eq_iff)
  have "bitmap_test 0 pmm_example" "\<not> bitmap_test 1 pmm_example"
    by (simp_all add: bitmap_test_def pmm_example_def Let_def)
  moreover have "total_pages pmm_example = 2" by (simp add: pmm_example_def)
  ultimately show "used_set pmm_example = {0}" "free_set pmm_example = {1}"
    unfolding used_set_def free_set_def by (auto simp: two)
qed

lemma pmm_example_ok: "pmm_ok pmm_example"
  using pmm_example_sets by (simp add: pmm_ok_def pmm_wf_def) (simp add: pmm_example_def)

text \<open>
  C22. Allocation is first fit: it returns the address of the lowest free page, marks that page and no
  other used and keeps the counter exact; when no page is free it returns NULL and changes
  nothing.
\<close>

theorem pmm_alloc_first_fit:
  assumes "pmm_wf s"
  shows "if free_set s = {} then pmm_alloc_page s = (0, s)
    else \<exists>p s'. pmm_alloc_page s = (p * 4096, s') \<and> p \<in> free_set s \<and> (\<forall>q<p. q \<notin> free_set s) \<and>
      used_set s' = insert p (used_set s) \<and> free_set s' = free_set s - {p} \<and> pmm_wf s'"
  using assms by (cases rule: pmm_alloc_page_cases) auto

theorem pmm_alloc_first_fit_witness:
  "pmm_wf pmm_example \<and> (\<exists>s'. pmm_alloc_page pmm_example = (0x1000, s') \<and> used_set s' = {0, 1})"
  using pmm_alloc_first_fit [of pmm_example] pmm_example_ok pmm_example_sets
  by (auto simp: pmm_ok_def)

text \<open>
  C23. On a machine of at most 4 GiB whose page 0 is reserved, any number of allocations up to the
  number of free pages return pairwise distinct, page-aligned addresses other than NULL, and
  freeing an allocated page makes exactly that page available again.
\<close>

theorem pmm_allocations_distinct:
  assumes "pmm_ok s" and "n \<le> card (pmm_avail s)" and "alloc_many pmm_alloc_page n s = (as, s')"
  shows "distinct as \<and> length as = n \<and> (\<forall>a\<in>set as. a mod 4096 = 0 \<and> a \<noteq> 0) \<and>
    pmm_avail s' = pmm_avail s - set as \<and> pmm_ok s' \<and>
    (\<forall>a\<in>set as. pmm_avail (pmm_free_page a s') = insert a (pmm_avail s'))"
proof -
  have fin: "finite (pmm_avail s)" by (simp add: pmm_avail_def)
  have as: "distinct as" "length as = n" "set as \<subseteq> pmm_avail s" "pmm_avail s' = pmm_avail s - set as"
      "pmm_frames s' = pmm_frames s" "pmm_ok s'"
    using pmm_alloc.alloc_many_distinct [OF assms(1,2) fin] assms(3) by auto
  have fr: "a \<in> pmm_frames s'" "a \<notin> pmm_avail s'" if "a \<in> set as" for a
    using as that pmm_alloc.avail_frames [OF assms(1)] by auto
  then show ?thesis
    using as pmm_alloc.frames_aligned [OF as(6)] pmm_alloc.release_frame [OF as(6)] by auto
qed

theorem pmm_allocations_distinct_witness:
  "pmm_ok pmm_example \<and> 1 \<le> card (pmm_avail pmm_example) \<and>
   (\<exists>a s'. alloc_many pmm_alloc_page 1 pmm_example = ([a], s') \<and> a mod 4096 = 0 \<and> a \<noteq> 0 \<and> pmm_avail s' = pmm_avail pmm_example - {a})"
proof -
  have av: "pmm_avail pmm_example = {0x1000}" by (simp add: pmm_avail_def pmm_example_sets)
  obtain as s' where al: "alloc_many pmm_alloc_page 1 pmm_example = (as, s')" by fastforce
  have c: "1 \<le> card (pmm_avail pmm_example)" by (simp add: av)
  show ?thesis
    using pmm_allocations_distinct [OF pmm_example_ok c al] al c pmm_example_ok
    by (cases as) auto
qed

text \<open>
  Releasing an address frees its page exactly when that page is in use; a second release, or the
  release of an address outside the tracked memory, changes nothing; marking a page used is the
  inverse, and both keep the state consistent.
\<close>

theorem pmm_free_idempotent:
  assumes "pmm_wf s"
  shows "pmm_wf (pmm_free_page a s) \<and> pmm_free_page a (pmm_free_page a s) = pmm_free_page a s \<and>
    used_set (pmm_free_page a s) = used_set s - {a div 4096} \<and>
    (a div 4096 \<in> used_set s \<longrightarrow> used_set (pmm_mark_used a (pmm_free_page a s)) = used_set s) \<and>
    (\<not> a div 4096 < total_pages s \<longrightarrow> pmm_free_page a s = s)"
proof -
  note f = pmm_free_page_effect [OF assms, of a]
  have wf: "pmm_wf (pmm_free_page a s)" using f assms by (auto split: if_splits)
  have used: "used_set (pmm_free_page a s) = used_set s - {a div 4096}"
    using f by (auto split: if_splits)
  have again: "pmm_free_page a (pmm_free_page a s) = pmm_free_page a s"
    using pmm_free_page_effect [OF wf, of a] used by auto
  have "used_set (pmm_mark_used a (pmm_free_page a s)) = used_set s" if "a div 4096 \<in> used_set s"
    using pmm_mark_used_effect [OF wf, of a] f that by auto
  moreover have "\<not> a div 4096 < total_pages s \<Longrightarrow> pmm_free_page a s = s"
    by (simp add: pmm_free_page_def Let_def)
  ultimately show ?thesis using wf used again by blast
qed

theorem pmm_free_idempotent_witness:
  "pmm_wf pmm_example \<and> used_set (pmm_free_page 0x10 pmm_example) = {} \<and> pmm_free_page 0x9000 pmm_example = pmm_example"
proof -
  have wf: "pmm_wf pmm_example" using pmm_example_ok by (simp add: pmm_ok_def)
  have "\<not> (0x9000 div 4096 :: u32) < total_pages pmm_example" by (simp add: pmm_example_def)
  then show ?thesis
    using pmm_free_idempotent [OF wf, of "0x10"] pmm_free_idempotent [OF wf, of "0x9000"] wf
    by (simp add: pmm_example_sets)
qed

text \<open>The states of the manager: initialisation from a well-formed map, then any sequence of operations.\<close>

inductive pmm_reachable :: "pmm \<Rightarrow> bool" where
  init: "(mb_flags mb AND 0x40 \<noteq> 0 \<Longrightarrow> mmap_entries mem (mb_mmap_addr mb) (mb_mmap_addr mb + mb_mmap_length mb) es) \<Longrightarrow>
    pmm_init ks ke mem mb s = Some s' \<Longrightarrow> pmm_reachable s'"
| alloc: "pmm_reachable s \<Longrightarrow> pmm_reachable (snd (pmm_alloc_page s))"
| free: "pmm_reachable s \<Longrightarrow> pmm_reachable (pmm_free_page a s)"
| mark_used: "pmm_reachable s \<Longrightarrow> pmm_reachable (pmm_mark_used a s)"
| mark_free: "pmm_reachable s \<Longrightarrow> pmm_reachable (pmm_mark_free a s)"

lemma pmm_reachable_wf: "pmm_reachable s \<Longrightarrow> pmm_wf s"
proof (induction rule: pmm_reachable.induct)
  case (init mb mem es ks ke s s')
  then show ?case
    using pmm_init_basic [of mb ks ke mem s] pmm_init_map [of mb mem es ks ke s] by (cases "mb_flags mb AND 0x40 = 0") auto
next
  case (alloc s)
  from alloc.IH show ?case by (cases rule: pmm_alloc_page_cases) (use alloc.IH in auto)
next
  case (free s a)
  then show ?case using pmm_free_page_effect [of s a] by (auto split: if_splits)
next
  case (mark_used s a)
  then show ?case using pmm_mark_used_effect [of s a] by (auto split: if_splits)
next
  case (mark_free s a)
  then show ?case using pmm_free_page_effect [of s a] by (auto simp: pmm_mark_free_def split: if_splits)
qed

text \<open>
  C24. The statistics are exact in every state that the manager reaches while it tracks less than 4 GiB: the reported total, used and
  free pages are the number of pages tracked, marked used and not marked used, and the kilobyte figures are four times
  the page figures.
\<close>

theorem pmm_stats_exact:
  assumes "pmm_reachable s" and "total_pages s < 0x100000"
  shows "unat (st_total_pages (pmm_get_stats s)) = card (pages_of s) \<and>
    unat (st_used_pages (pmm_get_stats s)) = card (used_set s) \<and>
    unat (st_free_pages (pmm_get_stats s)) = card (free_set s) \<and>
    unat (st_total_memory_kb (pmm_get_stats s)) = 4 * card (pages_of s) \<and>
    unat (st_used_memory_kb (pmm_get_stats s)) = 4 * card (used_set s) \<and>
    unat (st_free_memory_kb (pmm_get_stats s)) = 4 * card (free_set s)"
proof -
  have n: "card (pages_of s) = unat (total_pages s)" by (rule card_pages_of)
  have u: "unat (used_pages s) = card (used_set s)" using pmm_reachable_wf [OF assms(1)] by (simp add: pmm_wf_def)
  have part: "card (used_set s) + card (free_set s) = unat (total_pages s)" by (rule card_used_free)
  have kb: "unat (w * 4096 div 1024) = 4 * unat w" if "unat w < 0x100000" for w :: u32
  proof -
    have "unat (w * 4096) = unat w * 4096" using that by (simp add: unat_word_ariths)
    then show ?thesis by (simp add: unat_div)
  qed
  have t: "unat (total_pages s) < 0x100000" using assms(2) by (simp add: word_less_nat_alt)
  have le: "used_pages s \<le> total_pages s" using u part by (simp add: word_le_nat_alt)
  have kt: "unat (total_pages s * 4096 div 1024) = 4 * unat (total_pages s)"
    and ku: "unat (used_pages s * 4096 div 1024) = 4 * card (used_set s)"
    using kb t u part by simp_all
  then have "used_pages s * 4096 div 1024 \<le> total_pages s * 4096 div 1024"
    using part by (simp add: word_le_nat_alt)
  then show ?thesis unfolding n using kt ku le u part
    by (simp add: pmm_get_stats_def Let_def unat_sub, intro conjI; linarith)
qed

theorem pmm_stats_exact_witness:
  "\<exists>s. pmm_reachable s \<and> total_pages s < 0x100000 \<and> unat (st_total_memory_kb (pmm_get_stats s)) = 2048"
proof -
  let ?mb = "\<lparr>mb_flags = 0, mb_mem_lower = 0, mb_mem_upper = 2048, mb_mmap_length = 0, mb_mmap_addr = 0\<rparr>"
  obtain s where s: "pmm_init 0x100000 0x140000 (\<lambda>_. undefined) ?mb pmm_example = Some s" "total_pages s = 512"
    using pmm_init_basic [of ?mb "0x100000" "0x140000" "\<lambda>_. undefined" pmm_example] by auto
  then have r: "pmm_reachable s" using pmm_reachable.init [of ?mb "\<lambda>_. undefined"] by simp
  then show ?thesis using pmm_stats_exact [OF r] s(2) card_pages_of [of s] by (intro exI [of _ s]) (simp only: simp_thms, simp)
qed

section \<open>Beyond 4 GiB\<close>

text \<open>
  The bitmap tracks 32 GiB, eight times what an address can name. If the lowest free page is
  the one at 4 GiB, its address wraps to NULL: the caller sees an allocation failure although
  the page is now marked used.
\<close>

lemma pmm_alloc_high_page_null:
  assumes "pmm_wf s" and "0x100000 \<in> free_set s" and "\<And>q. q < 0x100000 \<Longrightarrow> q \<notin> free_set s"
  shows "fst (pmm_alloc_page s) = 0 \<and> 0x100000 \<in> used_set (snd (pmm_alloc_page s))"
  using assms(1)
proof (cases rule: pmm_alloc_page_cases)
  case (Page p s')
  with assms(2,3) have "p = 0x100000" by (meson linorder_neqE)
  with Page show ?thesis by simp
qed (use assms in auto)

text \<open>A machine with exactly 4 GiB is reported as having none.\<close>

lemma pmm_max_address_wraps:
  "total_pages s = 0x100000 \<Longrightarrow> max_physical_address s = 0x100000000 \<Longrightarrow> pmm_get_max_address s = 0"
  by (simp add: pmm_get_max_address_def Let_def)

end
