(* ===== verification/VMM.thy ===== *)
theory VMM
  imports PMM
begin

text \<open>
  The virtual memory manager, \<^verbatim>\<open>src/memory/vmm.c\<close> and \<^verbatim>\<open>src/memory/vmm.h\<close>: two-level
  page tables in physical memory. Memory is a function from addresses to 32-bit words (the
  code reads and writes it only in aligned words); a directory or table is its address, with
  \<^verbatim>\<open>entries[i]\<close> at offset 4i and, in a directory, \<^verbatim>\<open>tables[i]\<close> at offset 4096 + 4i. The
  state also holds the physical memory manager, register CR3 and the list of pages flushed
  from the TLB, latest first.
\<close>

section \<open>State and page structures\<close>

record vmm =
  mem :: "u32 \<Rightarrow> u32"
  pmm_state :: pmm
  current_directory :: u32
  kernel_directory :: u32
  cr3 :: u32
  tlb_flushed :: "u32 list"

definition PD_INDEX :: "u32 \<Rightarrow> u32" where
  "PD_INDEX addr = drop_bit 22 addr AND 0x3FF"

definition PT_INDEX :: "u32 \<Rightarrow> u32" where
  "PT_INDEX addr = drop_bit 12 addr AND 0x3FF"

definition PAGE_ALIGN :: "u32 \<Rightarrow> u32" where
  "PAGE_ALIGN addr = addr AND 0xFFFFF000"

abbreviation (input) PTE_PRESENT :: u32 where "PTE_PRESENT \<equiv> 1"
abbreviation (input) PTE_WRITABLE :: u32 where "PTE_WRITABLE \<equiv> 2"
abbreviation (input) PTE_USER :: u32 where "PTE_USER \<equiv> 4"

definition dir_entry :: "u32 \<Rightarrow> u32 \<Rightarrow> u32" where
  "dir_entry dir i = dir + 4 * i"

definition dir_table :: "u32 \<Rightarrow> u32 \<Rightarrow> u32" where
  "dir_table dir i = dir + 4096 + 4 * i"

definition pt_entry :: "u32 \<Rightarrow> u32 \<Rightarrow> u32" where
  "pt_entry pt i = pt + 4 * i"

definition store :: "u32 \<Rightarrow> u32 \<Rightarrow> vmm \<Rightarrow> vmm" where
  "store a v s = s\<lparr>mem := (mem s)(a := v)\<rparr>"

definition palloc :: "vmm \<Rightarrow> u32 \<times> vmm" where
  "palloc s = (let (a, p) = pmm_alloc_page (pmm_state s) in (a, s\<lparr>pmm_state := p\<rparr>))"

definition tlb_flush_page :: "u32 \<Rightarrow> vmm \<Rightarrow> vmm" where
  "tlb_flush_page virt s = s\<lparr>tlb_flushed := virt # tlb_flushed s\<rparr>"

section \<open>Operations\<close>

definition get_page_table :: "u32 \<Rightarrow> u32 \<Rightarrow> bool \<Rightarrow> vmm \<Rightarrow> u32 \<times> vmm" where
  "get_page_table dir virt create s =
     (let pd_index = PD_INDEX virt
      in if mem s (dir_table dir pd_index) \<noteq> 0 then (mem s (dir_table dir pd_index), s)
         else if create
         then let (phys, s1) = palloc s
              in if phys = 0 then (0, s1)
                 else let s2 = for_u32 0 1024 (\<lambda>i. store (pt_entry phys i) 0) s1;
                          s3 = store (dir_table dir pd_index) phys s2;
                          s4 = store (dir_entry dir pd_index)
                                 ((phys AND 0xFFFFF000) OR PTE_PRESENT OR PTE_WRITABLE OR PTE_USER) s3
                      in (phys, s4)
         else (0, s))"

definition vmm_map_page :: "u32 \<Rightarrow> u32 \<Rightarrow> u32 \<Rightarrow> u32 \<Rightarrow> vmm \<Rightarrow> int \<times> vmm" where
  "vmm_map_page dir virt phys flags s =
     (let dir' = (if dir = 0 then current_directory s else dir);
          (pt, s1) = get_page_table dir' virt True s
      in if pt = 0 then (0, s1)
         else (1, tlb_flush_page virt
                (store (pt_entry pt (PT_INDEX virt)) ((phys AND 0xFFFFF000) OR (flags AND 0xFFF)) s1)))"

definition vmm_unmap_page :: "u32 \<Rightarrow> u32 \<Rightarrow> vmm \<Rightarrow> vmm" where
  "vmm_unmap_page dir virt s =
     (let dir' = (if dir = 0 then current_directory s else dir);
          (pt, s1) = get_page_table dir' virt False s
      in if pt = 0 then s1
         else tlb_flush_page virt (store (pt_entry pt (PT_INDEX virt)) 0 s1))"

definition vmm_get_physical :: "u32 \<Rightarrow> u32 \<Rightarrow> vmm \<Rightarrow> u32" where
  "vmm_get_physical dir virt s =
     (let dir' = (if dir = 0 then current_directory s else dir);
          (pt, s1) = get_page_table dir' virt False s
      in if pt = 0 then 0
         else let pte = mem s1 (pt_entry pt (PT_INDEX virt))
              in if pte AND PTE_PRESENT = 0 then 0
                 else (pte AND 0xFFFFF000) OR (virt AND 0xFFF))"

text \<open>
  The two region loops. The bound is page aligned, so the conjunct \<open>end \<le> 0xFFFFF000\<close> always
  holds; it is what keeps the running address from wrapping around.
\<close>

function map_region_loop :: "u32 \<Rightarrow> u32 \<Rightarrow> u32 \<Rightarrow> u32 \<Rightarrow> u32 \<Rightarrow> vmm \<Rightarrow> vmm" where
  "map_region_loop dir virt phys end flags s =
     (if virt < end \<and> end \<le> 0xFFFFF000
      then map_region_loop dir (virt + 4096) (phys + 4096) end flags (snd (vmm_map_page dir virt phys flags s))
      else s)"
  by pat_completeness auto
termination
proof (relation "measure (\<lambda>(dir, virt, phys, end, flags, s). unat end - unat virt)", goal_cases)
  case (2 dir virt phys e flags s)
  then have "unat virt < unat e" "unat e \<le> 0xFFFFF000" by (simp_all add: word_less_nat_alt word_le_nat_alt)
  then have "unat (virt + 4096) = unat virt + 4096" by (simp add: unat_word_ariths)
  with \<open>unat virt < unat e\<close> show ?case by simp
qed simp

declare map_region_loop.simps [simp del]

definition vmm_identity_map_region :: "u32 \<Rightarrow> u32 \<Rightarrow> u32 \<Rightarrow> u32 \<Rightarrow> vmm \<Rightarrow> vmm" where
  "vmm_identity_map_region dir start size' flags s =
     (let dir' = (if dir = 0 then current_directory s else dir);
          virt = PAGE_ALIGN start;
          end = (start + size' + 4096 - 1) AND 0xFFFFF000
      in map_region_loop dir' virt virt end flags s)"

definition vmm_map_region :: "u32 \<Rightarrow> u32 \<Rightarrow> u32 \<Rightarrow> u32 \<Rightarrow> u32 \<Rightarrow> vmm \<Rightarrow> vmm" where
  "vmm_map_region dir virt phys size' flags s =
     (let dir' = (if dir = 0 then current_directory s else dir);
          virt_addr = PAGE_ALIGN virt;
          phys_addr = PAGE_ALIGN phys;
          end = (virt + size' + 4096 - 1) AND 0xFFFFF000
      in map_region_loop dir' virt_addr phys_addr end flags s)"

definition vmm_switch_directory :: "u32 \<Rightarrow> vmm \<Rightarrow> vmm" where
  "vmm_switch_directory dir s =
     (if dir = 0 then s else s\<lparr>current_directory := dir, cr3 := dir\<rparr>)"

text \<open>
  A directory of 8192 bytes spans \<^verbatim>\<open>dir_pages\<close> = 2 pages; the pages after the first must
  come out of the allocator in address order.
\<close>

definition dir_pages :: nat where
  "dir_pages = (8192 + 4096 - 1) div 4096"

primrec claim_run :: "nat \<Rightarrow> u32 \<Rightarrow> vmm \<Rightarrow> bool \<times> vmm" where
  "claim_run 0 expect s = (True, s)"
| "claim_run (Suc n) expect s =
     (let (p, s1) = palloc s
      in if p \<noteq> expect then (False, s1) else claim_run n (p + 4096) s1)"

definition clear_directory :: "u32 \<Rightarrow> vmm \<Rightarrow> vmm" where
  "clear_directory dir =
     for_u32 0 1024 (\<lambda>i s. store (dir_table dir i) 0 (store (dir_entry dir i) 0 s))"

definition vmm_create_directory :: "vmm \<Rightarrow> u32 \<times> vmm" where
  "vmm_create_directory s =
     (let (dir, s1) = palloc s
      in if dir = 0 then (0, s1)
         else let (ok, s2) = claim_run (dir_pages - 1) (dir + 4096) s1
              in if \<not> ok then (0, s2) else (dir, clear_directory dir s2))"

definition vmm_destroy_directory :: "u32 \<Rightarrow> vmm \<Rightarrow> vmm" where
  "vmm_destroy_directory dir s =
     (if dir = 0 then s
      else let s1 = for_u32 0 1024
                 (\<lambda>i s. if mem s (dir_table dir i) \<noteq> 0
                         then s\<lparr>pmm_state := pmm_free_page (mem s (dir_table dir i)) (pmm_state s)\<rparr> else s) s
           in s1\<lparr>pmm_state := pmm_free_page dir (pmm_state s1)\<rparr>)"

definition vmm_init :: "vmm \<Rightarrow> vmm" where
  "vmm_init s =
     (let (dir, s1) = palloc s
      in if dir = 0 then s1
         else let (ok, s2) = claim_run (dir_pages - 1) (dir + 4096) s1
              in if \<not> ok then s2
                 else let s3 = clear_directory dir (s2\<lparr>kernel_directory := dir\<rparr>);
                          ram_end = pmm_get_max_address (pmm_state s3);
                          ram_end = (if ram_end < 0x400000 then 0x400000 else ram_end);
                          ram_end = (if 0x4000000 < ram_end then 0x4000000 else ram_end);
                          s4 = vmm_identity_map_region dir 0 ram_end (PTE_PRESENT OR PTE_WRITABLE OR PTE_USER) s3;
                          s5 = s4\<lparr>current_directory := dir\<rparr>
                      in vmm_switch_directory dir s5)"

section \<open>Address translation by the processor\<close>

text \<open>The walk that the memory management unit does for the directory in CR3.\<close>

definition mmu_translate :: "(u32 \<Rightarrow> u32) \<Rightarrow> u32 \<Rightarrow> u32 \<Rightarrow> u32 option" where
  "mmu_translate m pd virt =
     (let pde = m ((pd AND 0xFFFFF000) + 4 * PD_INDEX virt)
      in if pde AND PTE_PRESENT = 0 then None
         else let pte = m ((pde AND 0xFFFFF000) + 4 * PT_INDEX virt)
              in if pte AND PTE_PRESENT = 0 then None
                 else Some ((pte AND 0xFFFFF000) OR (virt AND 0xFFF)))"

section \<open>Words, pages and slots\<close>

lemma page_masks:
  "(0xFFFFF000 :: u32) = NOT (mask 12)" "(0xFFF :: u32) = mask 12" "(0x3FF :: u32) = mask 10"
  by (simp_all add: mask_eq_exp_minus_1)

definition aligned :: "u32 \<Rightarrow> bool" where
  "aligned a \<longleftrightarrow> a mod 4096 = 0"

lemma aligned_mask: "aligned a \<longleftrightarrow> a AND 0xFFF = 0"
  by (simp add: aligned_def page_masks(2) take_bit_eq_mask [symmetric] take_bit_eq_mod)

lemma aligned_bit: "aligned a \<longleftrightarrow> (\<forall>n<12. \<not> bit a n)"
proof -
  have "a AND 0xFFF = 0 \<longleftrightarrow> (\<forall>n<32. \<not> (bit a n \<and> n < 12))"
    by (simp add: page_masks bit_eq_iff bit_simps)
  also have "\<dots> \<longleftrightarrow> (\<forall>n<12. \<not> bit a n)"
  proof -
    have "n < 32" if "n < 12" for n :: nat using that by simp
    then show ?thesis by blast
  qed
  finally show ?thesis by (simp add: aligned_mask)
qed

lemma unat_aligned: "aligned a \<longleftrightarrow> 4096 dvd unat a"
  by (simp add: aligned_def word_unat_eq_iff unat_mod mod_eq_0_iff_dvd)

lemma pte_parts:
  "((phys AND 0xFFFFF000) OR (flags AND 0xFFF)) AND 0xFFFFF000 = (phys AND 0xFFFFF000 :: u32)"
  "((phys AND 0xFFFFF000) OR (flags AND 0xFFF)) AND 1 = (flags AND 1 :: u32)"
  by (rule bit_word_eqI; auto simp: page_masks bit_simps)+

lemma pde_parts:
  assumes "aligned t"
  shows "((t AND 0xFFFFF000) OR 1 OR 2 OR 4) AND 0xFFFFF000 = t"
    and "((t AND 0xFFFFF000) OR 1 OR 2 OR 4) AND 1 \<noteq> 0" and "t AND 0xFFFFF000 = t"
proof -
  have seven: "(7 :: u32) = mask 3" by (simp add: mask_eq_exp_minus_1)
  show "((t AND 0xFFFFF000) OR 1 OR 2 OR 4) AND 0xFFFFF000 = t"
    by (rule bit_word_eqI) (use assms in \<open>auto simp: aligned_bit page_masks bit_simps seven not_less\<close>)
  show "t AND 0xFFFFF000 = t"
    by (rule bit_word_eqI) (use assms in \<open>auto simp: aligned_bit page_masks bit_simps not_less\<close>)
  have "bit (((t AND 0xFFFFF000) OR 1 OR 2 OR 4) AND 1) 0" by (simp add: seven bit_simps)
  then show "((t AND 0xFFFFF000) OR 1 OR 2 OR 4) AND 1 \<noteq> 0" by (metis bit_0_eq bot_apply bot_bool_def)
qed

lemma unat_PD_INDEX: "unat (PD_INDEX v) = unat v div 2 ^ 22"
  using unat_u32_less [of v]
  by (simp add: PD_INDEX_def page_masks take_bit_eq_mask [symmetric] drop_bit_eq_div take_bit_eq_mod
      unat_div unat_mod)

lemma unat_PT_INDEX: "unat (PT_INDEX v) = unat v div 4096 mod 1024"
  by (simp add: PT_INDEX_def page_masks take_bit_eq_mask [symmetric] drop_bit_eq_div take_bit_eq_mod
      unat_div unat_mod)

lemma index_less: "PD_INDEX v < 1024" "PT_INDEX v < 1024"
  using unat_u32_less [of v] by (simp_all add: word_less_nat_alt unat_PD_INDEX unat_PT_INDEX)

lemma same_page_iff:
  "PD_INDEX v = PD_INDEX w \<and> PT_INDEX v = PT_INDEX w \<longleftrightarrow> v div 4096 = w div 4096"
proof -
  have pd: "unat (PD_INDEX v) = unat v div 4096 div 1024" for v
    using div_mult2_eq [of "unat v" 4096 1024] by (simp add: unat_PD_INDEX)
  have "x div 1024 = y div 1024 \<and> x mod 1024 = y mod 1024 \<longleftrightarrow> x = y" for x y :: nat
    by (metis div_mult_mod_eq)
  then show ?thesis by (simp add: word_unat_eq_iff pd unat_PT_INDEX unat_div)
qed

text \<open>The words of two aligned pages are distinct unless page and index agree.\<close>

lemma slot_unat:
  assumes "aligned a" and "i < 1024"
  shows "unat (a + 4 * i) = unat a + 4 * unat i"
proof -
  have i: "unat i < 1024" using assms(2) by (simp add: word_less_nat_alt)
  obtain k where k: "unat a = 4096 * k" using assms(1) by (auto simp: unat_aligned)
  with unat_u32_less [of a] have "k < 0x100000" by simp
  with k i have "unat a + 4 * unat i < 4294967296" by linarith
  then show ?thesis using i by (simp add: unat_word_ariths)
qed

lemma slot_eq_iff:
  assumes "aligned a" and "aligned b" and "i < 1024" and "j < 1024"
  shows "a + 4 * i = b + 4 * j \<longleftrightarrow> a = b \<and> i = j"
proof
  assume eq: "a + 4 * i = b + 4 * j"
  obtain k l where kl: "unat a = 4096 * k" "unat b = 4096 * l"
    using assms(1,2) unfolding unat_aligned by (elim dvdE) auto
  have ij: "unat i < 1024" "unat j < 1024" using assms(3,4) by (simp_all add: word_less_nat_alt)
  have "unat a + 4 * unat i = unat b + 4 * unat j"
    using eq slot_unat [OF assms(1,3)] slot_unat [OF assms(2,4)] by metis
  then have "4096 * k + 4 * unat i = 4096 * l + 4 * unat j" by (simp add: kl)
  moreover have "(4096 * m + 4 * x) div 4096 = m" if "x < 1024" for m x :: nat using that by simp
  ultimately have "k = l" using ij by metis
  with \<open>4096 * k + 4 * unat i = 4096 * l + 4 * unat j\<close> kl show "a = b \<and> i = j"
    by (simp add: word_unat_eq_iff)
qed simp

section \<open>Well-formed directories\<close>

text \<open>
  A directory occupies two allocated pages; every table it points to is an allocated page of
  its own, distinct from the others, and the hardware entry names the same page as the
  software pointer.
\<close>

abbreviation table :: "u32 \<Rightarrow> u32 \<Rightarrow> vmm \<Rightarrow> u32" where
  "table d i s \<equiv> mem s (dir_table d i)"

abbreviation allocated :: "vmm \<Rightarrow> u32 \<Rightarrow> bool" where
  "allocated s a \<equiv> a \<in> pmm_frames (pmm_state s) \<and> a \<notin> pmm_avail (pmm_state s)"

definition dir_wf :: "u32 \<Rightarrow> vmm \<Rightarrow> bool" where
  "dir_wf d s \<longleftrightarrow>
     pmm_ok (pmm_state s) \<and> allocated s d \<and> allocated s (d + 4096) \<and>
     (\<forall>i<1024. if table d i s = 0 then mem s (dir_entry d i) = 0
        else mem s (dir_entry d i) = ((table d i s AND 0xFFFFF000) OR 1 OR 2 OR 4) \<and>
             allocated s (table d i s) \<and> table d i s \<noteq> d \<and> table d i s \<noteq> d + 4096) \<and>
     (\<forall>i<1024. \<forall>j<1024. table d i s \<noteq> 0 \<longrightarrow> table d i s = table d j s \<longrightarrow> i = j)"

lemma frame_aligned: "pmm_ok p \<Longrightarrow> a \<in> pmm_frames p \<Longrightarrow> aligned a \<and> a \<noteq> 0"
  using pmm_alloc.frames_aligned by (simp add: aligned_def)

lemma dir_wfD:
  assumes "dir_wf d s"
  shows "pmm_ok (pmm_state s)" and "aligned d" and "d \<noteq> 0" and "aligned (d + 4096)" and "d + 4096 \<noteq> 0"
    and "i < 1024 \<Longrightarrow> table d i s \<noteq> 0 \<Longrightarrow> aligned (table d i s)"
proof -
  show ok: "pmm_ok (pmm_state s)" using assms by (simp add: dir_wf_def)
  note al = frame_aligned [OF ok]
  show "aligned d" "d \<noteq> 0" "aligned (d + 4096)" "d + 4096 \<noteq> 0"
    using assms al unfolding dir_wf_def by blast+
  show "aligned (table d i s)" if "i < 1024" "table d i s \<noteq> 0"
    using assms that al [of "table d i s"] unfolding dir_wf_def by presburger
qed

text \<open>The page table entry of a virtual address, 0 when there is no table.\<close>

definition pte_of :: "u32 \<Rightarrow> u32 \<Rightarrow> vmm \<Rightarrow> u32" where
  "pte_of d v s = (if table d (PD_INDEX v) s = 0 then 0 else mem s (pt_entry (table d (PD_INDEX v) s) (PT_INDEX v)))"

lemma vmm_get_physical_eq:
  "d \<noteq> 0 \<Longrightarrow> vmm_get_physical d v s =
     (if pte_of d v s AND 1 = 0 then 0 else (pte_of d v s AND 0xFFFFF000) OR (v AND 0xFFF))"
  by (simp add: vmm_get_physical_def get_page_table_def pte_of_def Let_def)

lemma mmu_translate_eq:
  assumes "dir_wf d s"
  shows "mmu_translate (mem s) d v =
    (if pte_of d v s AND 1 = 0 then None else Some ((pte_of d v s AND 0xFFFFF000) OR (v AND 0xFFF)))"
proof -
  let ?i = "PD_INDEX v"
  have d: "d AND 0xFFFFF000 = d" using pde_parts(3) dir_wfD(2) [OF assms] by blast
  show ?thesis
  proof (cases "table d ?i s = 0")
    case True
    then have "mem s (dir_entry d ?i) = 0" using assms index_less by (simp add: dir_wf_def)
    with True d show ?thesis by (simp add: mmu_translate_def pte_of_def Let_def dir_entry_def)
  next
    case False
    then have e: "mem s (dir_entry d ?i) = ((table d ?i s AND 0xFFFFF000) OR 1 OR 2 OR 4)"
      using assms index_less by (simp add: dir_wf_def)
    have a: "aligned (table d ?i s)" using dir_wfD(6) [OF assms index_less(1) False] .
    show ?thesis
      using False e pde_parts(1,2) [OF a] d
      by (simp add: mmu_translate_def pte_of_def Let_def dir_entry_def pt_entry_def)
  qed
qed

section \<open>Effect of the operations on the entries\<close>

lemmas slot_defs = dir_entry_def dir_table_def pt_entry_def

lemma store_simps [simp]:
  "mem (store a x s) = (mem s)(a := x)" "pmm_state (store a x s) = pmm_state s"
  "current_directory (store a x s) = current_directory s" "cr3 (store a x s) = cr3 s"
  "kernel_directory (store a x s) = kernel_directory s" "tlb_flushed (store a x s) = tlb_flushed s"
  by (simp_all add: store_def)

lemma dir_wf_fields [simp]:
  "dir_wf d (s\<lparr>tlb_flushed := l\<rparr>) = dir_wf d s" "dir_wf d (s\<lparr>current_directory := c\<rparr>) = dir_wf d s"
  "dir_wf d (s\<lparr>cr3 := c\<rparr>) = dir_wf d s" "dir_wf d (s\<lparr>kernel_directory := c\<rparr>) = dir_wf d s"
  "pte_of d v (s\<lparr>tlb_flushed := l\<rparr>) = pte_of d v s" "pte_of d v (s\<lparr>current_directory := c\<rparr>) = pte_of d v s"
  "pte_of d v (s\<lparr>cr3 := c\<rparr>) = pte_of d v s" "pte_of d v (s\<lparr>kernel_directory := c\<rparr>) = pte_of d v s"
  by (simp_all add: dir_wf_def pte_of_def)

text \<open>Different slots of the pages that make up a directory do not overlap.\<close>

lemma dir_slots_distinct:
  assumes "dir_wf d s" and "i < 1024" and "j < 1024"
  shows "dir_entry d i = dir_entry d j \<longleftrightarrow> i = j" and "dir_table d i = dir_table d j \<longleftrightarrow> i = j"
    and "dir_entry d i \<noteq> dir_table d j"
  using slot_eq_iff [OF dir_wfD(2) [OF assms(1)] dir_wfD(2) [OF assms(1)] assms(2,3)]
    slot_eq_iff [OF dir_wfD(4) [OF assms(1)] dir_wfD(4) [OF assms(1)] assms(2,3)]
    slot_eq_iff [OF dir_wfD(2) [OF assms(1)] dir_wfD(4) [OF assms(1)] assms(2,3)]
  by (simp_all add: slot_defs)

lemma page_slots_distinct:
  assumes "dir_wf d s" and "aligned t" and "t \<noteq> d" and "t \<noteq> d + 4096" and "i < 1024" and "j < 1024"
  shows "pt_entry t i \<noteq> dir_entry d j" and "pt_entry t i \<noteq> dir_table d j"
  using slot_eq_iff [OF assms(2) dir_wfD(2) [OF assms(1)] assms(5,6)]
    slot_eq_iff [OF assms(2) dir_wfD(4) [OF assms(1)] assms(5,6)] assms(3,4)
  by (auto simp: slot_defs)

lemma dir_wf_table:
  assumes "dir_wf d s" and "i < 1024" and "table d i s \<noteq> 0"
  shows "aligned (table d i s)" and "table d i s \<noteq> d" and "table d i s \<noteq> d + 4096"
    and "allocated s (table d i s)"
    and "j < 1024 \<Longrightarrow> table d j s = table d i s \<Longrightarrow> j = i"
  using assms dir_wfD(6) [OF assms] unfolding dir_wf_def by metis+

lemma store_pte:
  fixes x :: u32
  assumes wf: "dir_wf d s" and i: "i < 1024" and k: "k < 1024" and t: "table d i s \<noteq> 0"
  defines "s' \<equiv> store (pt_entry (table d i s) k) x s"
  shows "dir_wf d s'" and "pte_of d w s' = (if PD_INDEX w = i \<and> PT_INDEX w = k then x else pte_of d w s)"
    and "j < 1024 \<Longrightarrow> table d j s' = table d j s"
proof -
  note tab = dir_wf_table [OF wf i t]
  have same: "mem s' (dir_table d j) = mem s (dir_table d j)" "mem s' (dir_entry d j) = mem s (dir_entry d j)"
    if "j < 1024" for j
    using page_slots_distinct [OF wf tab(1,2,3) k that] by (auto simp: s'_def)
  show "dir_wf d s'" using wf same unfolding dir_wf_def s'_def by simp
  show "table d j s' = table d j s" if "j < 1024" using same(1) that .
  let ?j = "PD_INDEX w"
  show "pte_of d w s' = (if PD_INDEX w = i \<and> PT_INDEX w = k then x else pte_of d w s)"
  proof (cases "table d ?j s = 0")
    case True
    then show ?thesis using t same(1) [OF index_less(1)] by (auto simp: pte_of_def)
  next
    case False
    note tab' = dir_wf_table [OF wf index_less(1) False]
    have "pt_entry (table d ?j s) (PT_INDEX w) = pt_entry (table d i s) k \<longleftrightarrow> ?j = i \<and> PT_INDEX w = k"
      using slot_eq_iff [OF tab'(1) tab(1) index_less(2) k] tab(5) [OF index_less(1)] by (auto simp: slot_defs)
    then show ?thesis using False same(1) [OF index_less(1)] by (auto simp: pte_of_def s'_def)
  qed
qed

lemma for_u32_store_general:
  assumes "\<And>i s. mem (f i s) = (\<lambda>x. if x \<in> G i then 0 else mem s x)"
  shows "mem (for_u32 a b f s) x = (if \<exists>i. a \<le> i \<and> i < b \<and> x \<in> G i then 0 else mem s x)"
  using assms
proof (induction a b f s rule: for_u32.induct)
  case (1 a b f s)
  show ?case
  proof (cases "a < b")
    case True
    have "mem (for_u32 a b f s) x =
        (if \<exists>i. a + 1 \<le> i \<and> i < b \<and> x \<in> G i then 0 else if x \<in> G a then 0 else mem s x)"
      unfolding for_u32_step [OF True] "1.IH" [OF True "1.prems"] "1.prems" ..
    moreover have "(\<exists>i. a \<le> i \<and> i < b \<and> x \<in> G i) \<longleftrightarrow> x \<in> G a \<or> (\<exists>i. a + 1 \<le> i \<and> i < b \<and> x \<in> G i)"
      using u32_range_step [OF True] by metis
    ultimately show ?thesis by (simp only: split: if_split) blast
  next
    case False
    then have "\<not> (\<exists>i. a \<le> i \<and> i < b \<and> x \<in> G i)" by (meson le_less_trans)
    then show ?thesis unfolding for_u32_done [OF False] by (simp only: if_False)
  qed
qed

lemma for_u32_store:
  "mem (for_u32 a b (\<lambda>i. store (g i) 0) s) x = (if \<exists>i. a \<le> i \<and> i < b \<and> x = g i then 0 else mem s x)"
  using for_u32_store_general [where G = "\<lambda>i. {g i}" and f = "\<lambda>i. store (g i) 0"]
  by (simp only: store_simps fun_upd_def singleton_iff)

lemma for_u32_store_fields [simp]:
  "pmm_state (for_u32 a b (\<lambda>i. store (g i) 0) s) = pmm_state s"
  "current_directory (for_u32 a b (\<lambda>i. store (g i) 0) s) = current_directory s"
  "kernel_directory (for_u32 a b (\<lambda>i. store (g i) 0) s) = kernel_directory s"
  "cr3 (for_u32 a b (\<lambda>i. store (g i) 0) s) = cr3 s"
  "tlb_flushed (for_u32 a b (\<lambda>i. store (g i) 0) s) = tlb_flushed s"
  by (rule for_u32_preserves, simp)+

lemma for_u32_clear_table:
  assumes "aligned t"
  shows "k < 1024 \<Longrightarrow> mem (for_u32 0 1024 (\<lambda>i. store (pt_entry t i) 0) s) (pt_entry t k) = 0"
    and "aligned t' \<Longrightarrow> t' \<noteq> t \<Longrightarrow> k < 1024 \<Longrightarrow>
      mem (for_u32 0 1024 (\<lambda>i. store (pt_entry t i) 0) s) (t' + 4 * k) = mem s (t' + 4 * k)"
proof -
  show "mem (for_u32 0 1024 (\<lambda>i. store (pt_entry t i) 0) s) (pt_entry t k) = 0" if "k < 1024"
    unfolding for_u32_store using that word_zero_le by auto
  assume t': "aligned t'" "t' \<noteq> t" "k < 1024"
  have "\<not> (\<exists>i. 0 \<le> i \<and> i < 1024 \<and> t' + 4 * k = pt_entry t i)"
    using slot_eq_iff [OF t'(1) assms t'(3)] t'(2) by (auto simp: slot_defs)
  then show "mem (for_u32 0 1024 (\<lambda>i. store (pt_entry t i) 0) s) (t' + 4 * k) = mem s (t' + 4 * k)"
    unfolding for_u32_store by (simp only: if_False)
qed

text \<open>A fresh table: an available frame becomes allocated, cleared and linked; no entry changes.\<close>

lemma new_table:
  assumes wf: "dir_wf d s" and i: "i < 1024" and none: "table d i s = 0"
    and t: "t \<in> pmm_avail (pmm_state s)" and ok: "pmm_ok p"
    and av: "pmm_avail p = pmm_avail (pmm_state s) - {t}" and fr: "pmm_frames p = pmm_frames (pmm_state s)"
  defines "s' \<equiv> store (dir_entry d i) ((t AND 0xFFFFF000) OR 1 OR 2 OR 4)
    (store (dir_table d i) t (for_u32 0 1024 (\<lambda>i. store (pt_entry t i) 0) (s\<lparr>pmm_state := p\<rparr>)))"
  shows "dir_wf d s'" and "pte_of d w s' = pte_of d w s" and "table d i s' = t" and "t \<noteq> 0"
    and "j < 1024 \<Longrightarrow> j \<noteq> i \<Longrightarrow> table d j s' = table d j s"
proof -
  have okp: "pmm_ok (pmm_state s)" by (rule dir_wfD(1) [OF wf])
  have tf: "t \<in> pmm_frames (pmm_state s)" using t pmm_alloc.avail_frames [OF okp] by auto
  then have ta: "aligned t" and tz: "t \<noteq> 0" using frame_aligned [OF okp] by auto
  have td: "t \<noteq> d" "t \<noteq> d + 4096" using wf t by (auto simp: dir_wf_def)
  note clr = for_u32_clear_table [OF ta]
  have cd: "mem (for_u32 0 1024 (\<lambda>i. store (pt_entry t i) 0) s1) (dir_table d j) = mem s1 (dir_table d j)"
    "mem (for_u32 0 1024 (\<lambda>i. store (pt_entry t i) 0) s1) (dir_entry d j) = mem s1 (dir_entry d j)"
    if "j < 1024" for j s1
    using clr(2) [OF dir_wfD(4) [OF wf] td(2) [symmetric] that] clr(2) [OF dir_wfD(2) [OF wf] td(1) [symmetric] that]
    by (simp_all add: dir_table_def dir_entry_def)
  have tab: "table d j s' = (if j = i then t else table d j s)"
    and ent: "mem s' (dir_entry d j) = (if j = i then (t AND 0xFFFFF000) OR 1 OR 2 OR 4 else mem s (dir_entry d j))"
    if j: "j < 1024" for j
    using dir_slots_distinct [OF wf j i] dir_slots_distinct [OF wf i j]
    by (auto simp: s'_def cd [OF j])
  show "table d i s' = t" using tab [OF i] by simp
  show "t \<noteq> 0" by (rule tz)
  show "j < 1024 \<Longrightarrow> j \<noteq> i \<Longrightarrow> table d j s' = table d j s" using tab by simp
  have st: "pmm_state s' = p" by (simp add: s'_def)
  have old: "table d j s \<noteq> t" if "j < 1024" for j
    using dir_wf_table(4) [OF wf that] t tz by auto
  have all: "allocated s' a" if "allocated s a \<or> a = t" for a
    using that tf av fr t st by auto
  show wf': "dir_wf d s'"
    unfolding dir_wf_def
  proof (intro conjI allI impI)
    show "pmm_ok (pmm_state s')" using ok st by simp
  next
    fix j k assume jk: "j < 1024" "k < 1024" "table d j s' \<noteq> 0" "table d j s' = table d k s'"
    then show "j = k" using tab old dir_wf_table(5) [OF wf]
      by (metis (no_types, lifting))
  next
    fix j :: u32 assume j: "j < 1024"
    show "if table d j s' = 0 then mem s' (dir_entry d j) = 0
        else mem s' (dir_entry d j) = ((table d j s' AND 0xFFFFF000) OR 1 OR 2 OR 4) \<and>
             allocated s' (table d j s') \<and> table d j s' \<noteq> d \<and> table d j s' \<noteq> d + 4096"
    proof (cases "j = i")
      case True
      then show ?thesis using tab [OF j] ent [OF j] tz td all by auto
    next
      case False
      then show ?thesis using tab [OF j] ent [OF j] wf j all unfolding dir_wf_def by auto
    qed
  qed (use wf all in \<open>auto simp: dir_wf_def\<close>)
  show "pte_of d w s' = pte_of d w s"
  proof (cases "PD_INDEX w = i")
    case True
    have "pt_entry t (PT_INDEX w) \<noteq> dir_entry d i" "pt_entry t (PT_INDEX w) \<noteq> dir_table d i"
      using page_slots_distinct [OF wf ta td index_less(2) i] by auto
    then have "mem s' (pt_entry t (PT_INDEX w)) = 0" using clr(1) [OF index_less(2)] by (simp add: s'_def)
    with True none tab [OF i] show ?thesis by (simp add: pte_of_def)
  next
    case False
    let ?t = "table d (PD_INDEX w) s"
    have "mem s' (pt_entry ?t (PT_INDEX w)) = mem s (pt_entry ?t (PT_INDEX w))" if nz: "?t \<noteq> 0"
      using clr(2) [OF dir_wf_table(1) [OF wf index_less(1) nz] old [OF index_less(1)] index_less(2)]
        page_slots_distinct [OF wf dir_wf_table(1,2,3) [OF wf index_less(1) nz] index_less(2) i]
      by (simp add: s'_def pt_entry_def)
    with False tab [OF index_less(1)] show ?thesis by (simp add: pte_of_def)
  qed
qed

definition missing_tables :: "u32 \<Rightarrow> vmm \<Rightarrow> u32 set" where
  "missing_tables d s = {i. i < 1024 \<and> table d i s = 0}"

abbreviation enough_frames :: "u32 \<Rightarrow> vmm \<Rightarrow> bool" where
  "enough_frames d s \<equiv> card (missing_tables d s) \<le> card (pmm_avail (pmm_state s))"

lemma finite_avail [simp]: "finite (pmm_avail p)"
  by (simp add: pmm_avail_def)

lemma vmm_map_page_existing:
  assumes wf: "dir_wf d s" and t: "table d (PD_INDEX v) s \<noteq> 0"
  obtains s' where "vmm_map_page d v ph fl s = (1, s')" and "dir_wf d s'"
    and "\<And>w. pte_of d w s' = (if w div 4096 = v div 4096 then (ph AND 0xFFFFF000) OR (fl AND 0xFFF) else pte_of d w s)"
    and "tlb_flushed s' = v # tlb_flushed s" and "missing_tables d s' = missing_tables d s"
    and "pmm_state s' = pmm_state s"
proof -
  let ?x = "(ph AND 0xFFFFF000) OR (fl AND 0xFFF)"
  let ?s = "store (pt_entry (table d (PD_INDEX v) s) (PT_INDEX v)) ?x s"
  note st = store_pte [OF wf index_less(1) index_less(2) [of v] t, where x = ?x]
  have "vmm_map_page d v ph fl s = (1, tlb_flush_page v ?s)"
    using t dir_wfD(3) [OF wf] by (simp add: vmm_map_page_def get_page_table_def Let_def)
  moreover have "missing_tables d ?s = missing_tables d s"
    unfolding missing_tables_def by (simp only: st(3) cong: conj_cong)
  ultimately show thesis
    using that [of "tlb_flush_page v ?s"] st(1,2) same_page_iff
    by (simp add: tlb_flush_page_def missing_tables_def)
qed

lemma get_page_table_new:
  assumes wf: "dir_wf d s" and t: "table d (PD_INDEX v) s = 0" and av: "pmm_avail (pmm_state s) \<noteq> {}"
  obtains s' where "get_page_table d v True s = (table d (PD_INDEX v) s', s')" and "dir_wf d s'"
    and "\<And>w. pte_of d w s' = pte_of d w s" and "table d (PD_INDEX v) s' \<noteq> 0"
    and "tlb_flushed s' = tlb_flushed s"
    and "missing_tables d s' = missing_tables d s - {PD_INDEX v}"
    and "card (pmm_avail (pmm_state s')) = card (pmm_avail (pmm_state s)) - 1"
proof -
  obtain a p where al: "pmm_alloc_page (pmm_state s) = (a, p)" by fastforce
  note ok = dir_wfD(1) [OF wf]
  have a: "a \<in> pmm_avail (pmm_state s)" "pmm_avail p = pmm_avail (pmm_state s) - {a}"
      "pmm_frames p = pmm_frames (pmm_state s)" "pmm_ok p"
    using pmm_alloc.alloc_some [OF ok av] al by auto
  define s' where "s' = store (dir_entry d (PD_INDEX v)) ((a AND 0xFFFFF000) OR 1 OR 2 OR 4)
    (store (dir_table d (PD_INDEX v)) a (for_u32 0 1024 (\<lambda>i. store (pt_entry a i) 0) (s\<lparr>pmm_state := p\<rparr>)))"
  note nt = new_table [OF wf index_less(1) t a(1,4,2,3), folded s'_def]
  have "get_page_table d v True s = (a, s')"
    using t al nt(4) by (simp add: get_page_table_def palloc_def Let_def s'_def)
  moreover have "missing_tables d s' = missing_tables d s - {PD_INDEX v}"
  proof (rule set_eqI)
    fix i
    show "i \<in> missing_tables d s' \<longleftrightarrow> i \<in> missing_tables d s - {PD_INDEX v}"
      using nt(3,4) nt(5) [of i] by (cases "i = PD_INDEX v") (auto simp: missing_tables_def)
  qed
  moreover have "card (pmm_avail (pmm_state s')) = card (pmm_avail (pmm_state s)) - 1"
    using a(1,2) by (simp add: s'_def)
  moreover have "tlb_flushed s' = tlb_flushed s" by (simp add: s'_def)
  ultimately show thesis using that [of s'] nt(1-4) by simp
qed

lemma vmm_map_page_cases:
  assumes wf: "dir_wf d s"
  obtains (Fail) "table d (PD_INDEX v) s = 0" "pmm_avail (pmm_state s) = {}" "vmm_map_page d v ph fl s = (0, s)"
    | (Ok) s' where "vmm_map_page d v ph fl s = (1, s')" "dir_wf d s'"
        "\<And>w. pte_of d w s' = (if w div 4096 = v div 4096 then (ph AND 0xFFFFF000) OR (fl AND 0xFFF) else pte_of d w s)"
        "tlb_flushed s' = v # tlb_flushed s" "enough_frames d s \<Longrightarrow> enough_frames d s'"
proof (cases "table d (PD_INDEX v) s = 0")
  case False
  from vmm_map_page_existing [OF wf False] Ok show thesis by metis
next
  case True
  note ok = dir_wfD(1) [OF wf] and dz = dir_wfD(3) [OF wf]
  show thesis
  proof (cases "pmm_avail (pmm_state s) = {}")
    case av: True
    then have "palloc s = (0, s)" using pmm_alloc.alloc_none [OF ok] by (simp add: palloc_def)
    with True dz have "vmm_map_page d v ph fl s = (0, s)"
      by (simp add: vmm_map_page_def get_page_table_def Let_def)
    with True av Fail show thesis by blast
  next
    case av: False
    then obtain s1 where s1: "get_page_table d v True s = (table d (PD_INDEX v) s1, s1)" "dir_wf d s1"
      "\<And>w. pte_of d w s1 = pte_of d w s" "table d (PD_INDEX v) s1 \<noteq> 0" "tlb_flushed s1 = tlb_flushed s"
      "missing_tables d s1 = missing_tables d s - {PD_INDEX v}"
      "card (pmm_avail (pmm_state s1)) = card (pmm_avail (pmm_state s)) - 1"
      using get_page_table_new [OF wf True] by blast
    have red: "vmm_map_page d v ph fl s = vmm_map_page d v ph fl s1"
      using s1(1,4) dz by (simp add: vmm_map_page_def get_page_table_def Let_def)
    have "PD_INDEX v \<in> missing_tables d s" using True index_less by (simp add: missing_tables_def)
    then have "enough_frames d s1" if "enough_frames d s"
      using that s1(6,7) by (simp add: card_Diff_singleton missing_tables_def)
    with vmm_map_page_existing [OF s1(2,4)] s1(3,5) red Ok show thesis by metis
  qed
qed

lemma vmm_unmap_page_effect:
  assumes wf: "dir_wf d s"
  shows "dir_wf d (vmm_unmap_page d v s)"
    and "pte_of d w (vmm_unmap_page d v s) = (if w div 4096 = v div 4096 then 0 else pte_of d w s)"
proof -
  let ?t = "table d (PD_INDEX v) s"
  note dz = dir_wfD(3) [OF wf]
  have "dir_wf d (vmm_unmap_page d v s) \<and>
      pte_of d w (vmm_unmap_page d v s) = (if w div 4096 = v div 4096 then 0 else pte_of d w s)"
  proof (cases "?t = 0")
    case True
    then have "vmm_unmap_page d v s = s" using dz by (simp add: vmm_unmap_page_def get_page_table_def Let_def)
    moreover have "pte_of d w s = 0" if "w div 4096 = v div 4096"
      using that True same_page_iff [of w v] by (simp add: pte_of_def)
    ultimately show ?thesis using wf by simp
  next
    case False
    then have "vmm_unmap_page d v s = tlb_flush_page v (store (pt_entry ?t (PT_INDEX v)) 0 s)"
      using dz by (simp add: vmm_unmap_page_def get_page_table_def Let_def)
    with store_pte(1,2) [OF wf index_less(1) index_less(2) [of v] False, where x = 0] same_page_iff [of w v]
    show ?thesis by (simp add: tlb_flush_page_def)
  qed
  then show "dir_wf d (vmm_unmap_page d v s)"
    and "pte_of d w (vmm_unmap_page d v s) = (if w div 4096 = v div 4096 then 0 else pte_of d w s)" by auto
qed

section \<open>Regions\<close>

lemma unat_PAGE_ALIGN: "unat (PAGE_ALIGN w) = unat w div 4096 * 4096"
proof -
  have "PAGE_ALIGN w = push_bit 12 (drop_bit 12 w)"
    unfolding PAGE_ALIGN_def by (rule bit_word_eqI) (auto simp: page_masks bit_simps not_less)
  also have "\<dots> = (w div 4096) * 4096" by (simp add: push_bit_eq_mult drop_bit_eq_div)
  finally have eq: "PAGE_ALIGN w = w div 4096 * 4096" .
  have "unat w div 4096 < 0x100000" using unat_u32_less [of w] by simp
  then show ?thesis unfolding eq by (simp add: unat_word_ariths unat_div)
qed

lemma PAGE_ALIGN_aligned [simp]: "aligned (PAGE_ALIGN w)"
  by (simp add: unat_aligned unat_PAGE_ALIGN)

lemma same_page_align: "aligned a \<Longrightarrow> w div 4096 = a div 4096 \<longleftrightarrow> PAGE_ALIGN w = a"
  by (auto simp: unat_aligned word_unat_eq_iff unat_PAGE_ALIGN unat_div)

lemma next_page:
  assumes "aligned v" and "aligned p" and "aligned e" and "v < e"
  shows "unat (v + 4096) = unat v + 4096" and "aligned (v + 4096)"
    and "v \<le> p \<and> p < e \<longleftrightarrow> p = v \<or> (v + 4096 \<le> p \<and> p < e)"
proof -
  obtain a b c where abc: "unat v = 4096 * a" "unat p = 4096 * b" "unat e = 4096 * c"
    using assms(1-3) unfolding unat_aligned by (elim dvdE) auto
  have "a < c" using assms(4) abc by (simp add: word_less_nat_alt)
  moreover have "c < 0x100000" using unat_u32_less [of e] abc by simp
  ultimately show u: "unat (v + 4096) = unat v + 4096" using abc by (simp add: unat_word_ariths)
  show "aligned (v + 4096)" using abc u by (simp add: unat_aligned)
  show "v \<le> p \<and> p < e \<longleftrightarrow> p = v \<or> (v + 4096 \<le> p \<and> p < e)"
    using \<open>a < c\<close> by (auto simp: word_le_nat_alt word_less_nat_alt word_unat_eq_iff u abc)
qed

lemma map_region_loop_effect:
  assumes "dir_wf d s" and "enough_frames d s" and "aligned v" and "aligned e" and "e \<le> 0xFFFFF000"
  shows "dir_wf d (map_region_loop d v ph e fl s) \<and>
    pte_of d w (map_region_loop d v ph e fl s) =
      (if v \<le> PAGE_ALIGN w \<and> PAGE_ALIGN w < e
       then ((ph + (PAGE_ALIGN w - v)) AND 0xFFFFF000) OR (fl AND 0xFFF) else pte_of d w s)"
  using assms
proof (induction d v ph e fl s rule: map_region_loop.induct)
  case (1 d v ph e fl s)
  show ?case
  proof (cases "v < e")
    case False
    then have "\<not> (v \<le> PAGE_ALIGN w \<and> PAGE_ALIGN w < e)" by auto
    with False "1.prems" show ?thesis by (auto simp: map_region_loop.simps)
  next
    case True
    note np = next_page [OF "1.prems"(3) PAGE_ALIGN_aligned "1.prems"(4) True]
    obtain s1 where s1: "vmm_map_page d v ph fl s = (1, s1)" "dir_wf d s1" "enough_frames d s1"
      "\<And>w. pte_of d w s1 = (if w div 4096 = v div 4096 then (ph AND 0xFFFFF000) OR (fl AND 0xFFF) else pte_of d w s)"
    proof (cases rule: vmm_map_page_cases [OF "1.prems"(1), of v ph fl])
      case 1
      then have "PD_INDEX v \<in> missing_tables d s" by (simp add: missing_tables_def index_less)
      then have "0 < card (missing_tables d s)" by (auto simp: card_gt_0_iff)
      with 1 \<open>enough_frames d s\<close> show thesis by simp
    next
      case (2 s')
      with \<open>enough_frames d s\<close> that show thesis by blast
    qed
    have step: "map_region_loop d v ph e fl s = map_region_loop d (v + 4096) (ph + 4096) e fl s1"
      using True "1.prems"(5) s1(1) by (simp add: map_region_loop.simps [of d v])
    have ih: "dir_wf d (map_region_loop d (v + 4096) (ph + 4096) e fl s1) \<and>
      pte_of d w (map_region_loop d (v + 4096) (ph + 4096) e fl s1) =
      (if v + 4096 \<le> PAGE_ALIGN w \<and> PAGE_ALIGN w < e
       then ((ph + 4096 + (PAGE_ALIGN w - (v + 4096))) AND 0xFFFFF000) OR (fl AND 0xFFF) else pte_of d w s1)"
      using "1.IH" [OF conjI [OF True "1.prems"(5)]] s1 "1.prems" np(2) by simp
    have "\<not> v + 4096 \<le> v" using np(1) by (simp add: word_le_nat_alt)
    then show ?thesis
      unfolding step using ih s1(4) [of w] np(3) same_page_align [OF "1.prems"(3), of w]
      by (auto simp: algebra_simps)
  qed
qed

section \<open>Fresh directories\<close>

lemma clear_directory_mem:
  "mem (clear_directory d s) x = (if \<exists>i<1024. x = dir_entry d i \<or> x = dir_table d i then 0 else mem s x)"
proof -
  have "mem (clear_directory d s) x =
      (if \<exists>i. 0 \<le> i \<and> i < 1024 \<and> x \<in> {dir_entry d i, dir_table d i} then 0 else mem s x)"
    unfolding clear_directory_def by (rule for_u32_store_general) (auto simp: fun_upd_def)
  then show ?thesis by simp
qed

lemma clear_directory_fields [simp]:
  "pmm_state (clear_directory d s) = pmm_state s" "cr3 (clear_directory d s) = cr3 s"
  "current_directory (clear_directory d s) = current_directory s"
  "kernel_directory (clear_directory d s) = kernel_directory s"
  unfolding clear_directory_def by (rule for_u32_preserves, simp)+

lemma clear_directory_wf:
  assumes "pmm_ok (pmm_state s)" and "allocated s d" and "allocated s (d + 4096)"
  shows "dir_wf d (clear_directory d s)" and "pte_of d w (clear_directory d s) = 0"
    and "missing_tables d (clear_directory d s) = {i. i < 1024}"
proof -
  have z: "mem (clear_directory d s) (dir_entry d i) = 0" "mem (clear_directory d s) (dir_table d i) = 0"
    if "i < 1024" for i
    using that by (auto simp: clear_directory_mem)
  show "dir_wf d (clear_directory d s)" using assms z by (simp add: dir_wf_def)
  show "pte_of d w (clear_directory d s) = 0" using z index_less by (simp add: pte_of_def)
  show "missing_tables d (clear_directory d s) = {i. i < 1024}" using z by (auto simp: missing_tables_def)
qed

lemma palloc_some:
  assumes "pmm_ok (pmm_state s)" and "palloc s = (a, s')" and "a \<noteq> 0"
  shows "a \<in> pmm_avail (pmm_state s)" and "pmm_avail (pmm_state s') = pmm_avail (pmm_state s) - {a}"
    and "pmm_frames (pmm_state s') = pmm_frames (pmm_state s)" and "pmm_ok (pmm_state s')"
    and "s' = s\<lparr>pmm_state := pmm_state s'\<rparr>"
proof -
  obtain p where p: "pmm_alloc_page (pmm_state s) = (a, p)" "s' = s\<lparr>pmm_state := p\<rparr>"
    using assms(2) by (auto simp: palloc_def split: prod.splits)
  have "pmm_avail (pmm_state s) \<noteq> {}" using pmm_alloc.alloc_none [OF assms(1)] p assms(3) by auto
  from pmm_alloc.alloc_some [OF assms(1) this] p
  show "a \<in> pmm_avail (pmm_state s)" and "pmm_avail (pmm_state s') = pmm_avail (pmm_state s) - {a}"
    and "pmm_frames (pmm_state s') = pmm_frames (pmm_state s)" and "pmm_ok (pmm_state s')"
    and "s' = s\<lparr>pmm_state := pmm_state s'\<rparr>" by simp_all
qed

text \<open>The allocation of the two directory pages, common to both callers.\<close>

lemma claim_two_pages:
  assumes "pmm_ok (pmm_state s)" and "total_pages (pmm_state s) < 0x100000" and "palloc s = (d, s1)" and "d \<noteq> 0"
    and "claim_run (dir_pages - 1) (d + 4096) s1 = (True, s2)"
  shows "allocated s2 d" and "allocated s2 (d + 4096)" and "pmm_ok (pmm_state s2)"
    and "pmm_avail (pmm_state s2) = pmm_avail (pmm_state s) - {d, d + 4096}"
    and "d \<in> pmm_avail (pmm_state s)" and "d + 4096 \<in> pmm_avail (pmm_state s)" and "d + 4096 \<noteq> d"
    and "s2 = s\<lparr>pmm_state := pmm_state s2\<rparr>" and "pmm_frames (pmm_state s2) = pmm_frames (pmm_state s)"
proof -
  note a1 = palloc_some [OF assms(1,3,4)]
  have "claim_run 1 (d + 4096) s1 = (True, s2)" using assms(5) by (simp add: dir_pages_def)
  then have p2: "palloc s1 = (d + 4096, s2)" by (auto split: prod.splits if_splits)
  have df: "d \<in> pmm_frames (pmm_state s)" using a1(1) pmm_alloc.avail_frames [OF assms(1)] by auto
  have "d + 4096 \<noteq> 0"
  proof
    assume "d + 4096 = 0"
    then have "d = 0xFFFFF000" by (simp add: eq_neg_iff_add_eq_0 [symmetric])
    then have "0xFFFFF < total_pages (pmm_state s)"
      using pmm_avail_div(1) [OF assms(1) df] by (simp add: pages_of_def)
    with assms(2) show False by (simp add: word_less_nat_alt)
  qed
  note a2 = palloc_some [OF a1(4) p2 this]
  show "pmm_ok (pmm_state s2)" by (rule a2(4))
  show "d \<in> pmm_avail (pmm_state s)" by (rule a1(1))
  show "d + 4096 \<in> pmm_avail (pmm_state s)" "d + 4096 \<noteq> d" using a2(1) a1(2) by auto
  show "pmm_avail (pmm_state s2) = pmm_avail (pmm_state s) - {d, d + 4096}" using a1(2) a2(2) by auto
  then show "allocated s2 d" "allocated s2 (d + 4096)"
    using df a1(3) a2(1,3) pmm_alloc.avail_frames [OF a1(4)] by auto
  show "s2 = s\<lparr>pmm_state := pmm_state s2\<rparr>" using a1(5) a2(5) by (metis vmm.update_convs(2) vmm.surjective)
  show "pmm_frames (pmm_state s2) = pmm_frames (pmm_state s)" using a1(3) a2(3) by simp
qed

lemma pmm_alloc_lowest:
  assumes "pmm_ok p" and "q \<in> free_set p" and "\<And>r. r < q \<Longrightarrow> r \<notin> free_set p"
  shows "fst (pmm_alloc_page p) = q * 4096" and "free_set (snd (pmm_alloc_page p)) = free_set p - {q}"
    and "pmm_ok (snd (pmm_alloc_page p))"
proof -
  have wf: "pmm_wf p" using assms(1) by (simp add: pmm_ok_def)
  then have "fst (pmm_alloc_page p) = q * 4096 \<and> free_set (snd (pmm_alloc_page p)) = free_set p - {q}"
  proof (cases rule: pmm_alloc_page_cases)
    case (Page r p')
    have "r = q" using Page(2,3) assms(2,3) by (meson linorder_neqE)
    with Page show ?thesis by simp
  qed (use assms in auto)
  then show "fst (pmm_alloc_page p) = q * 4096" "free_set (snd (pmm_alloc_page p)) = free_set p - {q}" by auto
  show "pmm_ok (snd (pmm_alloc_page p))" by (rule pmm_alloc.alloc_invar [OF assms(1)])
qed

text \<open>The two lowest free pages are adjacent: then the directory is placed there.\<close>

definition adjacent_free :: "u32 \<Rightarrow> pmm \<Rightarrow> bool" where
  "adjacent_free q p \<longleftrightarrow> q \<in> free_set p \<and> q + 1 \<in> free_set p \<and> (\<forall>r<q. r \<notin> free_set p)"

lemma claim_adjacent:
  assumes "pmm_ok (pmm_state s)" and "adjacent_free q (pmm_state s)"
  obtains s1 s2 where "palloc s = (q * 4096, s1)" and "q * 4096 \<noteq> 0"
    and "claim_run (dir_pages - 1) (q * 4096 + 4096) s1 = (True, s2)"
proof -
  let ?p = "pmm_state s"
  have q: "q \<in> free_set ?p" "q + 1 \<in> free_set ?p" "\<And>r. r < q \<Longrightarrow> r \<notin> free_set ?p"
    using assms(2) by (auto simp: adjacent_free_def)
  note a1 = pmm_alloc_lowest [OF assms(1) q(1,3)]
  have qt: "q < total_pages ?p" using q(1) by (simp add: free_set_def)
  have suc: "r < q + 1 \<longleftrightarrow> r < q \<or> r = q" for r
    using unat_Suc_less [OF qt] by (auto simp: word_less_nat_alt word_unat_eq_iff)
  have "q + 1 \<noteq> q" using unat_Suc_less [OF qt] by auto
  then have q1: "q + 1 \<in> free_set (snd (pmm_alloc_page ?p))" "\<And>r. r < q + 1 \<Longrightarrow> r \<notin> free_set (snd (pmm_alloc_page ?p))"
    using q a1(2) suc by auto
  note a2 = pmm_alloc_lowest [OF a1(3) q1]
  have ne: "q * 4096 \<noteq> 0"
    using frame_aligned [OF assms(1)] pmm_alloc.avail_frames [OF assms(1)] q(1) by (auto simp: pmm_avail_def)
  have eq: "(q + 1) * 4096 = q * 4096 + 4096" by (simp add: algebra_simps)
  show thesis
    by (rule that [of "s\<lparr>pmm_state := snd (pmm_alloc_page ?p)\<rparr>"
          "s\<lparr>pmm_state := snd (pmm_alloc_page (snd (pmm_alloc_page ?p)))\<rparr>"])
      (use a1(1) a2(1) ne eq in \<open>simp_all add: palloc_def split_beta dir_pages_def\<close>)
qed

lemma card_u32_below: "card {i :: u32. i < n} = unat n"
  using card_pages_of [of "pmm_example\<lparr>total_pages := n\<rparr>"] by (simp add: pages_of_def)

lemma PAGE_ALIGN_le: "PAGE_ALIGN w \<le> 0xFFFFF000"
proof -
  have "unat w div 4096 * 4096 \<le> 0xFFFFF000" using unat_u32_less [of w] by simp
  then show ?thesis by (simp add: word_le_nat_alt unat_PAGE_ALIGN)
qed

lemma identity_address: "((PAGE_ALIGN w AND 0xFFFFF000) OR (w AND 0xFFF)) = w"
  by (rule bit_word_eqI) (auto simp: PAGE_ALIGN_def page_masks bit_simps)

lemma identity_region_effect:
  assumes "dir_wf d s" and "enough_frames d s" and "unat st + unat sz + 4095 < 2 ^ 32" and "fl AND 1 \<noteq> 0"
  defines "s' \<equiv> vmm_identity_map_region d st sz fl s"
  shows "dir_wf d s'" and "st \<le> w \<Longrightarrow> w < st + sz \<Longrightarrow> mmu_translate (mem s') d w = Some w"
proof -
  define e where "e = PAGE_ALIGN (st + sz + 4096 - 1)"
  have s': "s' = map_region_loop d (PAGE_ALIGN st) (PAGE_ALIGN st) e fl s"
    using dir_wfD(3) [OF assms(1)] by (simp add: s'_def vmm_identity_map_region_def Let_def e_def PAGE_ALIGN_def)
  note eff = map_region_loop_effect [OF assms(1,2) PAGE_ALIGN_aligned PAGE_ALIGN_aligned PAGE_ALIGN_le,
      of st "PAGE_ALIGN st" "st + sz + 4096 - 1" fl, folded e_def s']
  show wf: "dir_wf d s'" using eff by blast
  assume w: "st \<le> w" "w < st + sz"
  have sum: "unat (st + sz) = unat st + unat sz" "unat (st + sz + 4096 - 1) = unat st + unat sz + 4095"
    using assms(3) by (simp_all add: unat_word_ariths)
  have "unat st \<le> unat w" "unat w < unat st + unat sz" using w sum by (simp_all add: word_le_nat_alt word_less_nat_alt)
  then have "unat st div 4096 \<le> unat w div 4096" "unat w div 4096 < (unat st + unat sz + 4095) div 4096"
    by (auto intro: div_le_mono)
  then have "PAGE_ALIGN st \<le> PAGE_ALIGN w \<and> PAGE_ALIGN w < e"
    unfolding word_le_nat_alt word_less_nat_alt unat_PAGE_ALIGN e_def sum by simp
  then have pte: "pte_of d w s' = (PAGE_ALIGN w AND 0xFFFFF000) OR (fl AND 0xFFF)"
    using eff [of w] by simp
  then show "mmu_translate (mem s') d w = Some w"
    unfolding mmu_translate_eq [OF wf] pte pte_parts using assms(4) identity_address by simp
qed

section \<open>The contract of the manager\<close>

text \<open>A machine of 16 MiB in which only page 0 is reserved.\<close>

definition vmm_example :: vmm where
  "vmm_example =
     \<lparr>mem = (\<lambda>_. 0),
      pmm_state = \<lparr>pmm_bitmap = (\<lambda>b. if b = 0 then 1 else 0), total_pages = 0x1000, used_pages = 1,
        max_physical_address = 0x1000000\<rparr>,
      current_directory = 0, kernel_directory = 0, cr3 = 0, tlb_flushed = []\<rparr>"

lemma vmm_example_pmm:
  "used_set (pmm_state vmm_example) = {0}" "free_set (pmm_state vmm_example) = {p. p < 0x1000 \<and> p \<noteq> 0}"
  "pmm_ok (pmm_state vmm_example)" "adjacent_free 1 (pmm_state vmm_example)"
  "card (pmm_avail (pmm_state vmm_example)) = 0xFFF"
proof -
  let ?p = "pmm_state vmm_example"
  have tot: "total_pages ?p = 0x1000" "used_pages ?p = 1" by (simp_all add: vmm_example_def)
  have test: "bitmap_test p ?p \<longleftrightarrow> p = 0" if "p < 0x1000" for p
  proof -
    have "tracked p" using that unfolding tracked_iff by (auto intro: order_less_trans)
    then have "bitmap_test p ?p \<longleftrightarrow> bit (if p div 8 = 0 then 1 else 0 :: u8) (unat (p mod 8))"
      by (simp add: bitmap_test_iff vmm_example_def)
    also have "\<dots> \<longleftrightarrow> p div 8 = 0 div 8 \<and> unat (p mod 8) = unat (0 mod 8 :: u32)" by (auto simp: bit_1_iff)
    finally show ?thesis using page_eq_iff [of p 0] by simp
  qed
  show used: "used_set ?p = {0}" using test tot by (auto simp: used_set_def)
  show free: "free_set ?p = {p. p < 0x1000 \<and> p \<noteq> 0}" using test tot by (auto simp: free_set_def)
  show ok: "pmm_ok ?p" using used tot by (simp add: pmm_ok_def pmm_wf_def)
  show "adjacent_free 1 ?p"
    using free by (auto simp: adjacent_free_def word_less_nat_alt word_unat_eq_iff)
  have "card (free_set ?p) = 0xFFF" using card_used_free [of ?p] used tot by simp
  moreover have "inj_on (\<lambda>p. p * 4096) (free_set ?p)"
    using inj_on_subset [OF pmm_ok_inj [OF ok]] free_pages_of by blast
  ultimately show "card (pmm_avail ?p) = 0xFFF" by (simp add: pmm_avail_def card_image)
qed

lemma vmm_create_fresh:
  assumes "pmm_ok (pmm_state s)" and "total_pages (pmm_state s) < 0x100000"
    and "vmm_create_directory s = (d, s')" and "d \<noteq> 0"
  shows "dir_wf d s'" and "pte_of d w s' = 0" and "missing_tables d s' = {i. i < 1024}"
    and "pmm_avail (pmm_state s') = pmm_avail (pmm_state s) - {d, d + 4096}"
    and "{d, d + 4096} \<subseteq> pmm_avail (pmm_state s)" and "d + 4096 \<noteq> d"
proof -
  obtain s1 s2 where s: "palloc s = (d, s1)" "claim_run (dir_pages - 1) (d + 4096) s1 = (True, s2)"
      "s' = clear_directory d s2"
    using assms(3,4) by (auto simp: vmm_create_directory_def Let_def split: prod.splits if_splits)
  note c = claim_two_pages [OF assms(1,2) s(1) assms(4) s(2)]
  show "dir_wf d s'" "pte_of d w s' = 0" "missing_tables d s' = {i. i < 1024}"
    unfolding s(3) by (rule clear_directory_wf [OF c(3,1,2)])+
  show "pmm_avail (pmm_state s') = pmm_avail (pmm_state s) - {d, d + 4096}"
    "{d, d + 4096} \<subseteq> pmm_avail (pmm_state s)" "d + 4096 \<noteq> d"
    using c(4-7) s(3) by auto
qed

lemma vmm_create_adjacent:
  assumes "pmm_ok (pmm_state s)" and "adjacent_free q (pmm_state s)"
  shows "fst (vmm_create_directory s) = q * 4096" and "fst (vmm_create_directory s) \<noteq> 0"
proof -
  obtain s1 s2 where "palloc s = (q * 4096, s1)" "q * 4096 \<noteq> 0"
      "claim_run (dir_pages - 1) (q * 4096 + 4096) s1 = (True, s2)"
    using claim_adjacent [OF assms] by metis
  then show "fst (vmm_create_directory s) = q * 4096" "fst (vmm_create_directory s) \<noteq> 0"
    by (simp_all add: vmm_create_directory_def)
qed

lemma vmm_example_dir: "\<exists>d s. dir_wf d s \<and> enough_frames d s \<and> (\<forall>w. pte_of d w s = 0)"
proof -
  obtain d s where s: "vmm_create_directory vmm_example = (d, s)" by fastforce
  have d: "d \<noteq> 0" using vmm_create_adjacent [OF vmm_example_pmm(3,4)] s by simp
  have t: "total_pages (pmm_state vmm_example) < 0x100000" by (simp add: vmm_example_def)
  note f = vmm_create_fresh [OF vmm_example_pmm(3) t s d]
  have "card (pmm_avail (pmm_state s)) = card (pmm_avail (pmm_state vmm_example)) - card {d, d + 4096}"
    using f(4,5) by (simp add: card_Diff_subset)
  then have "enough_frames d s" using f(3,6) by (simp add: vmm_example_pmm(5) card_u32_below)
  with f(1,2) show ?thesis by blast
qed

text \<open>
  C25. Mapping a page: on a well-formed directory the call either fails, exactly because the address has
  no page table and no frame is left for one, and then changes nothing; or it succeeds, keeps
  the directory well formed, and afterwards the processor translates every address of the
  page to the given frame and every other address as before, with the page flushed from the
  TLB.
\<close>

theorem vmm_map_page_translation:
  assumes "dir_wf d s" and "fl AND PTE_PRESENT \<noteq> 0"
  shows "case vmm_map_page d v ph fl s of (r, s') \<Rightarrow>
    if table d (PD_INDEX v) s = 0 \<and> pmm_avail (pmm_state s) = {} then r = 0 \<and> s' = s
    else r = 1 \<and> dir_wf d s' \<and> hd (tlb_flushed s') = v \<and>
      (\<forall>w. mmu_translate (mem s') d w =
        (if w div 4096 = v div 4096 then Some ((ph AND 0xFFFFF000) OR (w AND 0xFFF)) else mmu_translate (mem s) d w))"
proof (cases rule: vmm_map_page_cases [OF assms(1), of v ph fl])
  case 1
  then show ?thesis by simp
next
  case (2 s')
  have "\<not> (table d (PD_INDEX v) s = 0 \<and> pmm_avail (pmm_state s) = {})"
  proof
    assume a: "table d (PD_INDEX v) s = 0 \<and> pmm_avail (pmm_state s) = {}"
    then have "palloc s = (0, s)"
      using pmm_alloc.alloc_none [OF dir_wfD(1) [OF assms(1)]] by (simp add: palloc_def)
    with a dir_wfD(3) [OF assms(1)] have "fst (vmm_map_page d v ph fl s) = 0"
      by (simp add: vmm_map_page_def get_page_table_def Let_def)
    with 2(1) show False by simp
  qed
  with 2 assms(2) show ?thesis
    by (simp add: mmu_translate_eq [OF 2(2)] mmu_translate_eq [OF assms(1)] pte_parts)
qed

theorem vmm_map_page_translation_witness:
  "\<exists>d s r s'. dir_wf d s \<and> vmm_map_page d 0x8000123 0x5000 3 s = (r, s') \<and> r = 1 \<and>
    mmu_translate (mem s') d 0x8000FFF = Some 0x5FFF"
proof -
  obtain d s where s: "dir_wf d s" "enough_frames d s" "\<forall>w. pte_of d w s = 0" using vmm_example_dir by blast
  obtain r s' where m: "vmm_map_page d 0x8000123 0x5000 3 s = (r, s')" by fastforce
  have "\<not> (table d (PD_INDEX 0x8000123) s = 0 \<and> pmm_avail (pmm_state s) = {})"
  proof
    assume a: "table d (PD_INDEX 0x8000123) s = 0 \<and> pmm_avail (pmm_state s) = {}"
    then have "PD_INDEX 0x8000123 \<in> missing_tables d s" by (simp add: missing_tables_def index_less)
    then have "0 < card (missing_tables d s)" by (auto simp: card_gt_0_iff)
    with a s(2) show False by simp
  qed
  then have "r = 1 \<and> mmu_translate (mem s') d 0x8000FFF = Some 0x5FFF"
    using vmm_map_page_translation [OF s(1), of 3 "0x8000123" "0x5000"] m by simp
  with s(1) m show ?thesis by blast
qed

text \<open>
  C26. The software lookup agrees with the processor: on a well-formed directory the physical address
  that the manager reports is the one that the memory management unit computes from the
  hardware entries, and 0 when the processor would fault.
\<close>

theorem vmm_get_physical_mmu:
  assumes "dir_wf d s"
  shows "vmm_get_physical d v s = (case mmu_translate (mem s) d v of None \<Rightarrow> 0 | Some p \<Rightarrow> p)"
  using mmu_translate_eq [OF assms] dir_wfD(3) [OF assms] by (simp add: vmm_get_physical_eq)

theorem vmm_get_physical_mmu_witness:
  "\<exists>d s. dir_wf d s \<and> vmm_get_physical d 0x1234 s = 0 \<and> mmu_translate (mem s) d 0x1234 = None"
proof -
  obtain d s where s: "dir_wf d s" "\<forall>w. pte_of d w s = 0" using vmm_example_dir by blast
  then have "mmu_translate (mem s) d 0x1234 = None" by (simp add: mmu_translate_eq)
  with s(1) vmm_get_physical_mmu [OF s(1), of "0x1234"] show ?thesis by auto
qed

text \<open>
  C27. Unmapping a page makes the processor fault on every address of the page and leaves the
  translation of all other addresses unchanged.
\<close>

theorem vmm_unmap_page_translation:
  assumes "dir_wf d s"
  shows "dir_wf d (vmm_unmap_page d v s) \<and>
    mmu_translate (mem (vmm_unmap_page d v s)) d w =
      (if w div 4096 = v div 4096 then None else mmu_translate (mem s) d w)"
  using vmm_unmap_page_effect(1) [OF assms] vmm_unmap_page_effect(2) [OF assms, where v = v and w = w]
  by (simp add: mmu_translate_eq [OF vmm_unmap_page_effect(1) [OF assms]] mmu_translate_eq [OF assms])

theorem vmm_unmap_page_translation_witness:
  "\<exists>d s. dir_wf d s \<and> mmu_translate (mem (vmm_unmap_page d 0x3000 s)) d 0x3004 = None"
proof -
  obtain d s where "dir_wf d s" using vmm_example_dir by blast
  with vmm_unmap_page_translation [OF this, of "0x3000" "0x3004"] show ?thesis by auto
qed

lemma palloc_keeps:
  "pmm_get_max_address (pmm_state (snd (palloc s))) = pmm_get_max_address (pmm_state s)"
  "kernel_directory (snd (palloc s)) = kernel_directory s"
  by (cases "find_free_page 0 (pmm_state s)",
      simp_all add: palloc_def split_beta pmm_alloc_page_def pmm_get_max_address_def Let_def)

lemma claim_run_keeps:
  "pmm_get_max_address (pmm_state (snd (claim_run n e s))) = pmm_get_max_address (pmm_state s)"
  by (induction n arbitrary: e s) (auto simp: split_beta palloc_keeps Let_def)

lemma map_page_kernel_directory: "kernel_directory (snd (vmm_map_page d v ph fl s)) = kernel_directory s"
  by (simp add: vmm_map_page_def get_page_table_def Let_def split_beta palloc_keeps tlb_flush_page_def)

lemma map_region_kernel_directory: "kernel_directory (map_region_loop d v ph e fl s) = kernel_directory s"
proof (induction d v ph e fl s rule: map_region_loop.induct)
  case (1 d v ph e fl s)
  then show ?case by (subst map_region_loop.simps) (simp add: map_page_kernel_directory)
qed

lemma vmm_init_eq:
  assumes "palloc s = (d, s1)" and "d \<noteq> 0" and "claim_run (dir_pages - 1) (d + 4096) s1 = (True, s2)"
  shows "vmm_init s =
    (let s4 = vmm_identity_map_region d 0 (max 0x400000 (min 0x4000000 (pmm_get_max_address (pmm_state s)))) 7
         (clear_directory d (s2\<lparr>kernel_directory := d\<rparr>))
     in s4\<lparr>current_directory := d, cr3 := d\<rparr>)"
proof -
  have m: "pmm_get_max_address (pmm_state s2) = pmm_get_max_address (pmm_state s)"
    using palloc_keeps(1) [of s] claim_run_keeps [of "dir_pages - 1" "d + 4096" s1] assms by simp
  let ?r = "pmm_get_max_address (pmm_state s)"
  have c: "(if 0x4000000 < (if ?r < 0x400000 then 0x400000 else ?r) then 0x4000000 else if ?r < 0x400000 then 0x400000 else ?r)
      = max 0x400000 (min 0x4000000 ?r)"
    by (auto simp: max_def min_def word_le_nat_alt word_less_nat_alt word_unat_eq_iff)
  show ?thesis
    using assms by (simp add: vmm_init_def Let_def m c vmm_switch_directory_def split del: if_split cong: if_cong)
qed

text \<open>
  C28. Initialisation enables an identity map: if more than a thousand frames are free and the two lowest
  are adjacent, the manager installs a well-formed directory in CR3, and the processor then
  translates every address below the end of memory, but at least the first 4 MiB and at most
  the first 64 MiB, to itself.
\<close>

theorem vmm_init_identity:
  assumes "pmm_ok (pmm_state s)" and "total_pages (pmm_state s) < 0x100000"
    and "adjacent_free q (pmm_state s)" and "1026 \<le> card (pmm_avail (pmm_state s))"
    and "w < max 0x400000 (min 0x4000000 (pmm_get_max_address (pmm_state s)))"
  shows "let s' = vmm_init s in dir_wf (cr3 s') s' \<and> current_directory s' = cr3 s' \<and> kernel_directory s' = cr3 s' \<and>
    mmu_translate (mem s') (cr3 s') w = Some w"
proof -
  let ?d = "q * 4096" and ?r = "max 0x400000 (min 0x4000000 (pmm_get_max_address (pmm_state s)))"
  obtain s1 s2 where s: "palloc s = (?d, s1)" "?d \<noteq> 0" "claim_run (dir_pages - 1) (?d + 4096) s1 = (True, s2)"
    using claim_adjacent [OF assms(1,3)] by metis
  note c = claim_two_pages [OF assms(1,2) s]
  define s3 where "s3 = clear_directory ?d (s2\<lparr>kernel_directory := ?d\<rparr>)"
  have al: "pmm_ok (pmm_state (s2\<lparr>kernel_directory := ?d\<rparr>))" "allocated (s2\<lparr>kernel_directory := ?d\<rparr>) ?d"
      "allocated (s2\<lparr>kernel_directory := ?d\<rparr>) (?d + 4096)"
    using c(1-3) by simp_all
  note cl = clear_directory_wf [OF al, folded s3_def]
  have "card (pmm_avail (pmm_state s3)) = card (pmm_avail (pmm_state s)) - card {?d, ?d + 4096}"
    using c(4-6) by (simp add: s3_def card_Diff_subset)
  then have enough: "enough_frames ?d s3" using cl(3) c(7) assms(4) by (simp add: card_u32_below)
  have "?r \<le> 0x4000000" by simp
  then have "unat ?r \<le> 0x4000000" by (simp add: word_le_nat_alt)
  then have bound: "unat (0 :: u32) + unat ?r + 4095 < 2 ^ 32" by simp
  have seven: "(7 :: u32) AND 1 \<noteq> 0" by simp
  define s4 where "s4 = vmm_identity_map_region ?d 0 ?r 7 s3"
  note id = identity_region_effect [OF cl(1) enough bound seven, folded s4_def]
  have "mmu_translate (mem s4) ?d w = Some w" using id(2) [of w] assms(5) by simp
  moreover have "kernel_directory s4 = ?d"
    by (simp add: s4_def vmm_identity_map_region_def Let_def map_region_kernel_directory s3_def)
  moreover have "vmm_init s = s4\<lparr>current_directory := ?d, cr3 := ?d\<rparr>"
    unfolding vmm_init_eq [OF s] s4_def s3_def Let_def ..
  ultimately show ?thesis using id(1) by (simp add: Let_def)
qed

theorem vmm_init_identity_witness:
  "let s' = vmm_init vmm_example in dir_wf (cr3 s') s' \<and> mmu_translate (mem s') (cr3 s') 0xB8000 = Some 0xB8000"
proof -
  have t: "total_pages (pmm_state vmm_example) < 0x100000" by (simp add: vmm_example_def)
  have c: "1026 \<le> card (pmm_avail (pmm_state vmm_example))" by (simp add: vmm_example_pmm(5))
  have "(0xB8000 :: u32) < 0x400000" by simp
  then have w: "0xB8000 < max 0x400000 (min 0x4000000 (pmm_get_max_address (pmm_state vmm_example)))"
    by (rule less_max_iff_disj [THEN iffD2, OF disjI1])
  show ?thesis
    using vmm_init_identity [OF vmm_example_pmm(3) t vmm_example_pmm(4) c w] by (simp add: Let_def)
qed

lemma claim_run_mem: "mem (snd (claim_run n a s)) = mem s"
  by (induction n arbitrary: a s) (auto simp: palloc_def Let_def split: prod.splits if_splits)

lemma vmm_create_mem:
  assumes "pmm_ok (pmm_state s)" and "total_pages (pmm_state s) < 0x100000" and "vmm_create_directory s = (d, s')"
  shows "d = 0 \<Longrightarrow> mem s' = mem s"
    and "d \<noteq> 0 \<Longrightarrow> mem s' x = (if \<exists>i<1024. x = d + 4 * i \<or> x = d + 4096 + 4 * i then 0 else mem s x)"
    and "d \<noteq> 0 \<Longrightarrow> pmm_frames (pmm_state s') = pmm_frames (pmm_state s)"
proof -
  obtain d1 s1 where p: "palloc s = (d1, s1)" by fastforce
  then have m1: "mem s1 = mem s" by (auto simp: palloc_def split: prod.splits)
  obtain ok s2 where c: "claim_run (dir_pages - 1) (d1 + 4096) s1 = (ok, s2)" by fastforce
  then have m2: "mem s2 = mem s" using claim_run_mem [of "dir_pages - 1" "d1 + 4096" s1] m1 by simp
  show "d = 0 \<Longrightarrow> mem s' = mem s" using assms(3) p c m1 m2 by (auto simp: vmm_create_directory_def split: if_splits)
  assume "d \<noteq> 0"
  then have d: "d1 = d" "ok" "s' = clear_directory d s2" using assms(3) p c by (auto simp: vmm_create_directory_def split: if_splits)
  then show "mem s' x = (if \<exists>i<1024. x = d + 4 * i \<or> x = d + 4096 + 4 * i then 0 else mem s x)"
    using m2 by (cases "\<exists>i<1024. x = d + 4 * i \<or> x = d + 4096 + 4 * i") (auto simp: clear_directory_mem slot_defs)
  show "pmm_frames (pmm_state s') = pmm_frames (pmm_state s)"
    using claim_two_pages(9) [OF assms(1,2)] p c d \<open>d \<noteq> 0\<close> by simp
qed

text \<open>Directories on other pages do not notice.\<close>

lemma dir_wf_other:
  assumes wf: "dir_wf e s" and ok: "pmm_ok (pmm_state s')" and fr: "pmm_frames (pmm_state s') = pmm_frames (pmm_state s)"
    and av: "pmm_avail (pmm_state s') \<subseteq> pmm_avail (pmm_state s)"
    and m: "\<And>a i. allocated s a \<Longrightarrow> i < 1024 \<Longrightarrow> mem s' (a + 4 * i) = mem s (a + 4 * i)"
  shows "dir_wf e s'" and "mmu_translate (mem s') e w = mmu_translate (mem s) e w"
proof -
  have al: "allocated s e" "allocated s (e + 4096)" using wf by (simp_all add: dir_wf_def)
  have same: "mem s' (dir_entry e i) = mem s (dir_entry e i)" "mem s' (dir_table e i) = mem s (dir_table e i)" if "i < 1024" for i
    using m [OF al(1) that] m [OF al(2) that] by (simp_all add: slot_defs)
  have "allocated s' a" if "allocated s a" for a using that fr av by auto
  then show wf': "dir_wf e s'" using wf same ok unfolding dir_wf_def by simp
  have "pte_of e w s' = pte_of e w s"
    using same [OF index_less(1)] m [of "table e (PD_INDEX w) s", OF _ index_less(2)] dir_wf_table(4) [OF wf index_less(1)]
    by (simp add: pte_of_def pt_entry_def)
  then show "mmu_translate (mem s') e w = mmu_translate (mem s) e w" using mmu_translate_eq [OF wf] mmu_translate_eq [OF wf'] by simp
qed

text \<open>
  C29. A new directory is an empty address space of its own, in physical memory below 4 GiB: when creation succeeds, the directory is
  well formed on two frames that were available, no address is translated, no other frame
  changes hands, the words of these two frames are cleared and no other word of memory changes, so that every other
  directory stays well formed and translates every address as before. When it fails, no memory
  changes; it succeeds whenever the two lowest free pages are adjacent.
\<close>

theorem vmm_create_directory_empty:
  assumes "pmm_ok (pmm_state s)" and "total_pages (pmm_state s) < 0x100000"
  shows "case vmm_create_directory s of (d, s') \<Rightarrow>
    (\<forall>q. adjacent_free q (pmm_state s) \<longrightarrow> d = q * 4096 \<and> d \<noteq> 0) \<and>
    (d = 0 \<longrightarrow> mem s' = mem s) \<and>
    (d \<noteq> 0 \<longrightarrow> dir_wf d s' \<and> (\<forall>w. mmu_translate (mem s') d w = None) \<and>
      {d, d + 4096} \<subseteq> pmm_avail (pmm_state s) \<and>
      pmm_avail (pmm_state s') = pmm_avail (pmm_state s) - {d, d + 4096} \<and>
      (\<forall>x. mem s' x = (if \<exists>i<1024. x = d + 4 * i \<or> x = d + 4096 + 4 * i then 0 else mem s x)) \<and>
      (\<forall>e w. dir_wf e s \<longrightarrow> dir_wf e s' \<and> mmu_translate (mem s') e w = mmu_translate (mem s) e w))"
proof -
  obtain d s' where c: "vmm_create_directory s = (d, s')" by fastforce
  note M = vmm_create_mem [OF assms c]
  have low: "\<forall>q. adjacent_free q (pmm_state s) \<longrightarrow> d = q * 4096 \<and> d \<noteq> 0"
    using vmm_create_adjacent [OF assms(1)] c by simp
  have fresh: "dir_wf d s' \<and> (\<forall>w. mmu_translate (mem s') d w = None) \<and>
      {d, d + 4096} \<subseteq> pmm_avail (pmm_state s) \<and>
      pmm_avail (pmm_state s') = pmm_avail (pmm_state s) - {d, d + 4096}" if "d \<noteq> 0"
    using vmm_create_fresh [OF assms c that] by (auto simp: mmu_translate_eq)
  have other: "dir_wf e s' \<and> mmu_translate (mem s') e w = mmu_translate (mem s) e w" if d: "d \<noteq> 0" and e: "dir_wf e s" for e w
  proof -
    note F = vmm_create_fresh [OF assms c d]
    have mm: "mem s' (a + 4 * i) = mem s (a + 4 * i)" if a: "allocated s a" "i < 1024" for a i
    proof -
      have "aligned a" "aligned d" "aligned (d + 4096)" using frame_aligned [OF assms(1)] a(1) dir_wfD(2,4) [OF F(1)] by blast+
      moreover have "a \<noteq> d" "a \<noteq> d + 4096" using F(5) a(1) by auto
      ultimately have "\<not> (\<exists>j<1024. a + 4 * i = d + 4 * j \<or> a + 4 * i = d + 4096 + 4 * j)"
        using slot_eq_iff a(2) by blast
      then show ?thesis by (simp only: M(2) [OF d] if_False)
    qed
    have "pmm_avail (pmm_state s') \<subseteq> pmm_avail (pmm_state s)" using F(4) by auto
    from dir_wf_other [OF e dir_wfD(1) [OF F(1)] M(3) [OF d] this mm] show ?thesis by blast
  qed
  show ?thesis unfolding c split_conv using M(1) fresh M(2) other by (intro conjI [OF low]) simp
qed

theorem vmm_create_directory_empty_witness:
  "\<exists>s'. vmm_create_directory vmm_example = (0x1000, s') \<and> dir_wf 0x1000 s' \<and> mmu_translate (mem s') 0x1000 0x2000 = None"
proof -
  obtain d s' where c: "vmm_create_directory vmm_example = (d, s')" by fastforce
  have t: "total_pages (pmm_state vmm_example) < 0x100000" by (simp add: vmm_example_def)
  note e = vmm_create_directory_empty [OF vmm_example_pmm(3) t, unfolded c split_conv]
  have d: "d = 1 * 4096 \<and> d \<noteq> 0" by (rule conjunct1 [OF e, THEN spec, THEN mp, OF vmm_example_pmm(4)])
  note f = e [THEN conjunct2, THEN conjunct2, THEN mp, OF conjunct2 [OF d]]
  have "d = 0x1000" using d by simp
  then show ?thesis using c conjunct1 [OF f] f [THEN conjunct2, THEN conjunct1, THEN spec, of "0x2000"]
    by (intro exI [of _ s']) (simp only: simp_thms)
qed

section \<open>Destroying a directory\<close>

lemma for_u32_skip: "(\<And>i. i < b \<Longrightarrow> f i s = s) \<Longrightarrow> for_u32 a b f s = s"
proof (induction a b f s rule: for_u32.induct)
  case (1 a b f s)
  show ?case
  proof (cases "a < b")
    case True
    have "f a s = s" using "1.prems" True .
    then show ?thesis using for_u32_step [OF True, of f s] "1.IH" [OF True] "1.prems" by metis
  qed simp
qed

text \<open>
  Destruction frees the tables and the first page of the directory. The second page, which
  holds the table pointers, stays marked used.
\<close>

lemma vmm_destroy_leaks:
  assumes "pmm_ok (pmm_state s)" and "total_pages (pmm_state s) < 0x100000"
    and "vmm_create_directory s = (d, s')" and "d \<noteq> 0"
  shows "pmm_avail (pmm_state (vmm_destroy_directory d s')) = pmm_avail (pmm_state s) - {d + 4096}"
proof -
  note f = vmm_create_fresh [OF assms]
  have z: "table d i s' = 0" if "i < 1024" for i
    using f(3) that by (auto simp: missing_tables_def)
  have "for_u32 0 1024 (\<lambda>i s. if mem s (dir_table d i) \<noteq> 0
      then s\<lparr>pmm_state := pmm_free_page (mem s (dir_table d i)) (pmm_state s)\<rparr> else s) s' = s'"
    by (rule for_u32_skip) (simp add: z)
  then have "pmm_state (vmm_destroy_directory d s') = pmm_free_page d (pmm_state s')"
    using assms(4) by (simp add: vmm_destroy_directory_def)
  moreover have "pmm_avail (pmm_free_page d (pmm_state s')) = insert d (pmm_avail (pmm_state s'))"
    using pmm_alloc.release_frame [of "pmm_state s'" d] f(1) by (auto simp: dir_wf_def)
  ultimately show ?thesis using f(4-6) by auto
qed

end
