(* ===== verification/Heap.thy ===== *)
theory Heap
  imports Prelude "HOL-Library.Monad_Syntax"
begin

text \<open>
  The kernel heap, \<^verbatim>\<open>src/memory/heap.c\<close>. Block headers live in the arena: the state maps an address to the
  header stored there. Sizes and addresses are 32-bit words, NULL is 0. A walk along the
  \<^verbatim>\<open>next\<close> links is a partial function, since nothing in the code rules out a cycle; that
  it ends on every well-formed heap is proved. The address of the static default arena is an
  argument.
\<close>

section \<open>State\<close>

record block_header =
  bh_size :: u32
  bh_free :: u32
  bh_next :: u32
  bh_prev :: u32

abbreviation (input) HEADER_SIZE :: u32 where "HEADER_SIZE \<equiv> 16"
abbreviation (input) MIN_PAYLOAD :: u32 where "MIN_PAYLOAD \<equiv> 16"

record heap =
  hdr :: "u32 \<Rightarrow> block_header"
  heap_base :: u32
  heap_size :: u32
  heap_head :: u32

definition HEAP_ALIGN :: "u32 \<Rightarrow> u32 \<Rightarrow> u32" where
  "HEAP_ALIGN n a = (n + a - 1) AND NOT (a - 1)"

text \<open>\<^verbatim>\<open>p->field = ...\<close> on the header at address \<open>p\<close>.\<close>

definition set_hdr :: "u32 \<Rightarrow> (block_header \<Rightarrow> block_header) \<Rightarrow> heap \<Rightarrow> heap" where
  "set_hdr p f s = s\<lparr>hdr := (hdr s)(p := f (hdr s p))\<rparr>"

section \<open>Operations\<close>

definition heap_build_freelist :: "heap \<Rightarrow> heap" where
  "heap_build_freelist s =
     set_hdr (heap_base s)
       (\<lambda>_. \<lparr>bh_size = heap_size s - HEADER_SIZE, bh_free = 1, bh_next = 0, bh_prev = 0\<rparr>)
       (s\<lparr>heap_head := heap_base s\<rparr>)"

definition heap_init :: "u32 \<Rightarrow> u32 \<Rightarrow> u32 \<Rightarrow> heap \<Rightarrow> heap" where
  "heap_init default_heap start size' s =
     (if start = 0 \<or> size' \<le> HEADER_SIZE + MIN_PAYLOAD
      then heap_build_freelist (s\<lparr>heap_base := default_heap, heap_size := 65536\<rparr>)
      else heap_build_freelist (s\<lparr>heap_base := start, heap_size := size'\<rparr>))"

definition block_split :: "u32 \<Rightarrow> u32 \<Rightarrow> heap \<Rightarrow> heap" where
  "block_split blk want s =
     (if bh_size (hdr s blk) < want + HEADER_SIZE + MIN_PAYLOAD then s
      else let rest = blk + HEADER_SIZE + want;
               s1 = set_hdr rest
                 (\<lambda>_. \<lparr>bh_size = bh_size (hdr s blk) - want - HEADER_SIZE, bh_free = 1,
                       bh_next = bh_next (hdr s blk), bh_prev = blk\<rparr>) s;
               s2 = (if bh_next (hdr s1 rest) \<noteq> 0
                     then set_hdr (bh_next (hdr s1 rest)) (\<lambda>b. b\<lparr>bh_prev := rest\<rparr>) s1 else s1)
           in set_hdr blk (\<lambda>b. b\<lparr>bh_size := want, bh_next := rest\<rparr>) s2)"

text \<open>The first-fit walk: the block found, or NULL.\<close>

partial_function (option) find_fit :: "(u32 \<Rightarrow> block_header) \<Rightarrow> u32 \<Rightarrow> u32 \<Rightarrow> u32 option" where
  "find_fit h want blk =
     (if blk = 0 then Some 0
      else if bh_free (h blk) \<noteq> 0 \<and> want \<le> bh_size (h blk) then Some blk
      else find_fit h want (bh_next (h blk)))"

definition kmalloc_aligned :: "u32 \<Rightarrow> u32 \<Rightarrow> heap \<Rightarrow> (u32 \<times> heap) option" where
  "kmalloc_aligned size' alignment s =
     (let s0 = (if heap_head s = 0 then heap_build_freelist s else s)
      in if size' = 0 then Some (0, s0)
         else let alignment' = (if alignment < 8 then 8 else alignment);
                  want = HEAP_ALIGN size' alignment'
              in do {
                   blk \<leftarrow> find_fit (hdr s0) want (heap_head s0);
                   if blk = 0 then Some (0, s0)
                   else Some (blk + HEADER_SIZE, set_hdr blk (\<lambda>b. b\<lparr>bh_free := 0\<rparr>) (block_split blk want s0))
                 })"

definition kmalloc :: "u32 \<Rightarrow> heap \<Rightarrow> (u32 \<times> heap) option" where
  "kmalloc size' s = kmalloc_aligned size' 8 s"

definition block_coalesce :: "u32 \<Rightarrow> heap \<Rightarrow> heap" where
  "block_coalesce blk s =
     (let nxt = bh_next (hdr s blk)
      in if nxt \<noteq> 0 \<and> bh_free (hdr s nxt) \<noteq> 0
         then let s1 = set_hdr blk
                    (\<lambda>b. b\<lparr>bh_size := bh_size b + (HEADER_SIZE + bh_size (hdr s nxt)),
                           bh_next := bh_next (hdr s nxt)\<rparr>) s
              in if bh_next (hdr s nxt) \<noteq> 0
                 then set_hdr (bh_next (hdr s nxt)) (\<lambda>b. b\<lparr>bh_prev := blk\<rparr>) s1 else s1
         else s)"

definition kfree :: "u32 \<Rightarrow> heap \<Rightarrow> heap" where
  "kfree ptr s =
     (if ptr = 0 then s
      else let blk = ptr - HEADER_SIZE;
               s1 = set_hdr blk (\<lambda>b. b\<lparr>bh_free := 1\<rparr>) s;
               s2 = block_coalesce blk s1
           in if bh_prev (hdr s2 blk) \<noteq> 0 \<and> bh_free (hdr s2 (bh_prev (hdr s2 blk))) \<noteq> 0
              then block_coalesce (bh_prev (hdr s2 blk)) s2 else s2)"

text \<open>Total, used and free payload, and the number of blocks.\<close>

partial_function (option) stats_walk ::
    "(u32 \<Rightarrow> block_header) \<Rightarrow> u32 \<Rightarrow> u32 \<times> u32 \<times> u32 \<times> u32 \<Rightarrow> (u32 \<times> u32 \<times> u32 \<times> u32) option" where
  "stats_walk h b acc =
     (if b = 0 then Some acc
      else case acc of (totalb, used, freeb, blocks) \<Rightarrow>
        stats_walk h (bh_next (h b))
          (totalb + bh_size (h b),
           (if bh_free (h b) \<noteq> 0 then used else used + bh_size (h b)),
           (if bh_free (h b) \<noteq> 0 then freeb + bh_size (h b) else freeb),
           blocks + 1))"

definition heap_get_stats :: "heap \<Rightarrow> (u32 \<times> u32 \<times> u32 \<times> u32) option" where
  "heap_get_stats s = stats_walk (hdr s) (heap_head s) (0, 0, 0, 0)"

section \<open>The arena as a list of blocks\<close>

text \<open>A block of the specification: payload size and whether it is free.\<close>

type_synonym blk = "nat \<times> bool"

definition extent :: "blk list \<Rightarrow> nat" where
  "extent bs = sum_list (map (\<lambda>(n, f). 16 + n) bs)"

lemma extent_simps [simp]:
  "extent [] = 0" "extent ((n, f) # bs) = 16 + n + extent bs" "extent (xs @ ys) = extent xs + extent ys"
  by (simp_all add: extent_def)

text \<open>
  The headers from address \<open>a\<close> on are those of the blocks \<open>bs\<close>, one directly behind the
  other; \<open>pv\<close> is the predecessor of the first and \<open>nx\<close> the successor of the last.
\<close>

fun seg :: "(u32 \<Rightarrow> block_header) \<Rightarrow> u32 \<Rightarrow> nat \<Rightarrow> blk list \<Rightarrow> u32 \<Rightarrow> bool" where
  "seg h pv a [] nx = True"
| "seg h pv a ((n, f) # bs) nx \<longleftrightarrow>
     unat (bh_size (h (of_nat a))) = n \<and> (bh_free (h (of_nat a)) \<noteq> 0) = f \<and> bh_prev (h (of_nat a)) = pv \<and>
     bh_next (h (of_nat a)) = (if bs = [] then nx else of_nat (a + 16 + n)) \<and>
     seg h (of_nat a) (a + 16 + n) bs nx"

definition heap_wf :: "heap \<Rightarrow> blk list \<Rightarrow> bool" where
  "heap_wf s bs \<longleftrightarrow> bs \<noteq> [] \<and> heap_head s = heap_base s \<and> 32 \<le> unat (heap_base s) \<and>
     extent bs = unat (heap_size s) \<and> unat (heap_base s) + unat (heap_size s) < 2 ^ 32 \<and>
     seg (hdr s) 0 (unat (heap_base s)) bs 0"

section \<open>Segments\<close>

text \<open>The addresses of the headers, and the last of them.\<close>

fun starts :: "nat \<Rightarrow> blk list \<Rightarrow> nat list" where
  "starts a [] = []"
| "starts a ((n, f) # bs) = a # starts (a + 16 + n) bs"

definition last_start :: "u32 \<Rightarrow> nat \<Rightarrow> blk list \<Rightarrow> u32" where
  "last_start pv a bs = (if bs = [] then pv else of_nat (last (starts a bs)))"

lemma starts_Nil_iff [simp]: "starts a bs = [] \<longleftrightarrow> bs = []"
  by (cases bs) auto

lemma starts_append: "starts a (xs @ ys) = starts a xs @ starts (a + extent xs) ys"
  by (induction a xs rule: starts.induct) (auto simp: add.assoc)

lemma starts_range: "x \<in> set (starts a bs) \<Longrightarrow> a \<le> x \<and> x + 16 \<le> a + extent bs"
  by (induction a bs rule: starts.induct) auto

lemma seg_append:
  "seg h pv a (xs @ ys) nx \<longleftrightarrow>
     seg h pv a xs (if ys = [] then nx else of_nat (a + extent xs)) \<and>
     seg h (last_start pv a xs) (a + extent xs) ys nx"
  by (induction h pv a xs nx rule: seg.induct) (auto simp: last_start_def add.assoc)

lemma seg_frame:
  "(\<And>x. x \<in> set (starts a bs) \<Longrightarrow> h' (of_nat x) = h (of_nat x)) \<Longrightarrow> seg h' pv a bs nx = seg h pv a bs nx"
  by (induction h pv a bs nx rule: seg.induct) auto

lemma seg_free_cong:
  assumes "seg h pv a bs nx" and "\<And>x. x \<in> set (starts a bs) \<Longrightarrow>
    bh_size (h' (of_nat x)) = bh_size (h (of_nat x)) \<and> bh_free (h' (of_nat x)) = bh_free (h (of_nat x)) \<and>
    bh_next (h' (of_nat x)) = bh_next (h (of_nat x)) \<and> bh_prev (h' (of_nat x)) = bh_prev (h (of_nat x))"
  shows "seg h' pv a bs nx"
  using assms by (induction h pv a bs nx rule: seg.induct) auto

text \<open>Addresses inside the arena are faithful as words.\<close>

lemma of_nat_addr: "n < 2 ^ 32 \<Longrightarrow> unat (of_nat n :: u32) = n"
  by (simp add: unat_of_nat)

lemma of_nat_addr_eq: "m < 2 ^ 32 \<Longrightarrow> n < 2 ^ 32 \<Longrightarrow> (of_nat m :: u32) = of_nat n \<longleftrightarrow> m = n"
  by (metis of_nat_addr)

lemma seg_set_prev:
  assumes "seg h pv a ys nx" and "ys \<noteq> []" and "a + extent ys \<le> 2 ^ 32"
    and "h' = h(of_nat a := (h (of_nat a))\<lparr>bh_prev := pv'\<rparr>)"
  shows "seg h' pv' a ys nx"
proof -
  obtain n f bs where ys: "ys = (n, f) # bs" using assms(2) by (cases ys) auto
  have "seg h' (of_nat a) (a + 16 + n) bs nx = seg h (of_nat a) (a + 16 + n) bs nx"
  proof (rule seg_frame)
    fix x assume x: "x \<in> set (starts (a + 16 + n) bs)"
    from starts_range [OF this] assms(3) ys have "a < x" "x < 2 ^ 32" by auto
    then show "h' (of_nat x) = h (of_nat x)" using assms(4) of_nat_addr_eq [of x a] by auto
  qed
  with assms ys show ?thesis by auto
qed

section \<open>Changing one block\<close>

text \<open>The header of the block behind \<open>xs\<close>, and the list around it.\<close>

lemma seg_focus:
  "seg h 0 a (xs @ (n, f) # ys) 0 \<longleftrightarrow>
     seg h 0 a xs (of_nat (a + extent xs)) \<and>
     unat (bh_size (h (of_nat (a + extent xs)))) = n \<and> (bh_free (h (of_nat (a + extent xs))) \<noteq> 0) = f \<and>
     bh_prev (h (of_nat (a + extent xs))) = last_start 0 a xs \<and>
     bh_next (h (of_nat (a + extent xs))) = (if ys = [] then 0 else of_nat (a + extent xs + 16 + n)) \<and>
     seg h (of_nat (a + extent xs)) (a + extent xs + 16 + n) ys 0"
  by (simp add: seg_append)

lemma seg_prefix:
  assumes "seg h pv a xs nx" and "\<And>x. x + 16 \<le> a + extent xs \<Longrightarrow> h' (of_nat x) = h (of_nat x)"
  shows "seg h' pv a xs nx"
  using assms seg_frame [of a xs h' h pv nx] starts_range [of _ a xs] by blast

lemma seg_suffix:
  assumes sg: "seg h pv y ys 0" and y: "y + extent ys \<le> 2 ^ 32"
    and suc: "\<And>x. y < x \<Longrightarrow> x < 2 ^ 32 \<Longrightarrow> h' (of_nat x) = h (of_nat x)"
    and nxt: "ys \<noteq> [] \<Longrightarrow> h' (of_nat y) = (h (of_nat y))\<lparr>bh_prev := pv'\<rparr>"
  shows "seg h' pv' y ys 0"
proof (cases "ys = []")
  case False
  define h2 where "h2 = h(of_nat y := (h (of_nat y))\<lparr>bh_prev := pv'\<rparr>)"
  have "seg h2 pv' y ys 0" by (rule seg_set_prev [OF sg False y h2_def])
  moreover have "seg h' pv' y ys 0 = seg h2 pv' y ys 0"
  proof (rule seg_frame)
    fix x assume "x \<in> set (starts y ys)"
    then have x: "y \<le> x" "x < 2 ^ 32" using starts_range [of x y ys] y by auto
    show "h' (of_nat x) = h2 (of_nat x)"
    proof (cases "x = y")
      case True
      then show ?thesis using nxt [OF False] by (simp add: h2_def)
    next
      case neq: False
      then have "(of_nat x :: u32) \<noteq> of_nat y" using x of_nat_addr_eq [of x y] by simp
      then show ?thesis using suc [of x] x neq by (simp add: h2_def)
    qed
  qed
  ultimately show ?thesis by simp
qed simp

lemma heap_addr:
  assumes "heap_wf s (xs @ (n, f) # ys)"
  defines "ab \<equiv> unat (heap_base s) + extent xs"
  shows "32 \<le> ab" and "ab + 16 + n \<le> 2 ^ 32" and "ab < 2 ^ 32" and "(of_nat ab :: u32) \<noteq> 0"
    and "ys \<noteq> [] \<Longrightarrow> ab + 16 + n + 16 \<le> 2 ^ 32" and "ys \<noteq> [] \<Longrightarrow> (of_nat (ab + 16 + n) :: u32) \<noteq> 0"
    and "ab + 16 + n + extent ys \<le> 2 ^ 32" and "ab + 16 < 2 ^ 32"
proof -
  have e: "unat (heap_base s) + (extent xs + (16 + n + extent ys)) < 2 ^ 32"
    and b: "32 \<le> unat (heap_base s)"
    using assms by (auto simp: heap_wf_def)
  show 1: "32 \<le> ab" "ab + 16 + n \<le> 2 ^ 32" "ab < 2 ^ 32" "ab + 16 + n + extent ys \<le> 2 ^ 32"
      "ab + 16 < 2 ^ 32"
    using e b by (auto simp: ab_def)
  show "(of_nat ab :: u32) \<noteq> 0" using of_nat_addr_eq [of ab 0] 1 by auto
  assume "ys \<noteq> []"
  then obtain m g zs where "ys = (m, g) # zs" by (cases ys) auto
  then show 2: "ab + 16 + n + 16 \<le> 2 ^ 32" using e by (simp add: ab_def)
  then show "(of_nat (ab + 16 + n) :: u32) \<noteq> 0" using of_nat_addr_eq [of "ab + 16 + n" 0] by simp
qed

lemma unat_u32_add: "unat a + unat b < 2 ^ 32 \<Longrightarrow> unat (a + b) = unat a + unat b" for a b :: u32
  by (simp add: unat_word_ariths)

lemma block_split_wf:
  assumes wf: "heap_wf s (xs @ (n, f) # ys)" and w: "unat w + 32 \<le> n"
  defines "blk \<equiv> of_nat (unat (heap_base s) + extent xs)"
  shows "heap_wf (block_split blk w s) (xs @ (unat w, f) # (n - unat w - 16, True) # ys)"
proof -
  let ?a = "unat (heap_base s)" and ?h = "hdr s"
  define ab where "ab = ?a + extent xs"
  note ad = heap_addr [OF wf, folded ab_def]
  have seg: "seg ?h 0 ?a (xs @ (n, f) # ys) 0" using wf by (simp add: heap_wf_def)
  note fo = seg [unfolded seg_focus, folded ab_def]
  have blk: "blk = of_nat ab" by (simp add: blk_def ab_def)
  define rest :: u32 where "rest = blk + 16 + w"
  have rest: "rest = of_nat (ab + 16 + unat w)" by (simp add: rest_def blk)
  define nx where "nx = bh_next (?h blk)"
  have nx: "nx = (if ys = [] then 0 else of_nat (ab + 16 + n))" using fo by (simp add: nx_def blk)
  define R where "R = \<lparr>bh_size = bh_size (?h blk) - w - 16, bh_free = 1, bh_next = nx, bh_prev = blk\<rparr>"
  define h' where "h' = (let h1 = ?h(rest := R); h2 = (if nx \<noteq> 0 then h1(nx := (h1 nx)\<lparr>bh_prev := rest\<rparr>) else h1)
    in h2(blk := (h2 blk)\<lparr>bh_size := w, bh_next := rest\<rparr>))"
  have "unat (w + 16 + 16) = unat w + 32" using w ad by (simp add: unat_word_ariths)
  then have "\<not> bh_size (?h blk) < w + 16 + 16"
    unfolding word_less_nat_alt using w fo by (simp add: blk)
  then have split: "block_split blk w s = s\<lparr>hdr := h'\<rparr>"
    by (simp add: block_split_def Let_def set_hdr_def h'_def rest_def [symmetric] R_def nx_def)
  have br: "blk \<noteq> rest" "nx \<noteq> 0 \<Longrightarrow> nx \<noteq> blk \<and> nx \<noteq> rest"
    using w ad of_nat_addr_eq [of ab "ab + 16 + unat w"] of_nat_addr_eq [of "ab + 16 + n" ab]
      of_nat_addr_eq [of "ab + 16 + n" "ab + 16 + unat w"]
    by (auto simp: blk rest nx split: if_splits)
  have hb: "h' blk = (?h blk)\<lparr>bh_size := w, bh_next := rest\<rparr>" and hr: "h' rest = R"
    and hn: "nx \<noteq> 0 \<Longrightarrow> h' nx = (?h nx)\<lparr>bh_prev := rest\<rparr>"
    and ho: "x \<noteq> blk \<Longrightarrow> x \<noteq> rest \<Longrightarrow> x \<noteq> nx \<Longrightarrow> h' x = ?h x" for x
    using br by (auto simp: h'_def Let_def)
  have far: "h' (of_nat x) = ?h (of_nat x)" if "x < 2 ^ 32" "x \<noteq> ab" "x \<noteq> ab + 16 + unat w" "x \<noteq> ab + 16 + n" for x
  proof (cases "nx = 0")
    case True
    then show ?thesis using that w ad of_nat_addr_eq [of x ab] of_nat_addr_eq [of x "ab + 16 + unat w"]
      by (simp add: h'_def Let_def blk rest)
  next
    case False
    then have "nx = of_nat (ab + 16 + n)" "ab + 16 + n < 2 ^ 32" using nx ad by (auto split: if_splits)
    then show ?thesis using that w ad
        of_nat_addr_eq [of x ab] of_nat_addr_eq [of x "ab + 16 + unat w"] of_nat_addr_eq [of x "ab + 16 + n"]
      by (intro ho) (auto simp: blk rest)
  qed
  have nxt: "h' (of_nat (ab + 16 + n)) = (?h (of_nat (ab + 16 + n)))\<lparr>bh_prev := rest\<rparr>" if "ys \<noteq> []"
    using hn nx ad(6) that by metis
  have pre: "h' (of_nat x) = ?h (of_nat x)" if "x + 16 \<le> ab" for x using far [of x] that ad(3) by simp
  have suc: "h' (of_nat x) = ?h (of_nat x)" if "ab + 16 + n < x" "x < 2 ^ 32" for x using far [of x] that w by simp
  have sg: "seg ?h (of_nat ab) (ab + 16 + n) ys 0" using fo by blast
  have parts: "seg h' 0 ?a xs (of_nat ab)" "seg h' rest (ab + 16 + n) ys 0"
    using seg_prefix [of ?h 0 ?a xs "of_nat ab" h'] seg_suffix [OF sg ad(7) suc nxt] fo pre
    by (auto simp: ab_def)
  have sz: "unat (bh_size (?h blk) - w - 16) = n - unat w - 16"
  proof -
    have n: "unat (bh_size (?h blk)) = n" using fo by (simp add: blk)
    have "unat (bh_size (?h blk) - w) = n - unat w" using n w by (subst unat_sub) (simp_all add: word_le_nat_alt)
    then show ?thesis using w by (subst unat_sub) (simp_all add: word_le_nat_alt)
  qed
  have idx: "ab + 16 + unat w + 16 + (n - unat w - 16) = ab + 16 + n" using w by simp
  have "seg h' (of_nat ab) (ab + 16 + unat w) ((n - unat w - 16, True) # ys) 0"
    unfolding seg.simps rest [symmetric] idx hr using parts(2) sz nx by (simp add: R_def blk del: of_nat_add)
  then have "seg h' 0 ?a (xs @ (unat w, f) # (n - unat w - 16, True) # ys) 0"
    unfolding seg_focus ab_def [symmetric] rest [symmetric]
    using parts(1) hb fo by (simp add: blk del: of_nat_add)
  then show ?thesis using wf w by (simp add: heap_wf_def split)
qed

section \<open>Allocation\<close>

definition fits :: "nat \<Rightarrow> blk \<Rightarrow> bool" where
  "fits w b \<longleftrightarrow> snd b \<and> w \<le> fst b"

lemma find_fit_seg:
  assumes "seg h pv a bs 0" and "0 < a" and "a + extent bs \<le> 2 ^ 32"
  shows "find_fit h w (if bs = [] then 0 else of_nat a) =
      (case first_index (fits (unat w)) bs of None \<Rightarrow> Some 0 | Some i \<Rightarrow> Some (of_nat (a + extent (take i bs))))"
  using assms
proof (induction h pv a bs "0 :: u32" rule: seg.induct)
  case (1 h pv a)
  show ?case by (subst find_fit.simps) simp
next
  case (2 h pv a n f bs)
  have nz: "(of_nat a :: u32) \<noteq> 0" using of_nat_addr_eq [of a 0] 2 by auto
  have f: "bh_free (h (of_nat a)) \<noteq> 0 \<and> w \<le> bh_size (h (of_nat a)) \<longleftrightarrow> fits (unat w) (n, f)"
    using 2 by (auto simp: fits_def word_le_nat_alt)
  show ?case
  proof (cases "fits (unat w) (n, f)")
    case True
    with f nz show ?thesis by (subst find_fit.simps) simp
  next
    case False
    have next': "bh_next (h (of_nat a)) = (if bs = [] then 0 else of_nat (a + 16 + n))" using 2 by simp
    have "find_fit h w (of_nat a) = find_fit h w (bh_next (h (of_nat a)))"
      using False f nz by (subst find_fit.simps) auto
    also have "\<dots> = (case first_index (fits (unat w)) bs of None \<Rightarrow> Some 0
        | Some i \<Rightarrow> Some (of_nat (a + 16 + n + extent (take i bs))))"
      unfolding next' using 2 by simp
    finally show ?thesis using False by (auto split: option.splits simp: add.assoc)
  qed
qed

lemma set_hdr_free_wf:
  assumes wf: "heap_wf s (xs @ (n, f) # ys)"
  defines "blk \<equiv> of_nat (unat (heap_base s) + extent xs)"
  shows "heap_wf (set_hdr blk (\<lambda>b. b\<lparr>bh_free := v\<rparr>) s) (xs @ (n, v \<noteq> 0) # ys)"
proof -
  let ?a = "unat (heap_base s)"
  define ab where "ab = ?a + extent xs"
  note ad = heap_addr [OF wf, folded ab_def]
  have seg: "seg (hdr s) 0 ?a (xs @ (n, f) # ys) 0" using wf by (simp add: heap_wf_def)
  define h' where "h' = (hdr s)(blk := (hdr s blk)\<lparr>bh_free := v\<rparr>)"
  have blk: "blk = of_nat ab" by (simp add: blk_def ab_def)
  have far: "h' (of_nat x) = hdr s (of_nat x)" if "x < 2 ^ 32" "x \<noteq> ab" for x
    using that ad of_nat_addr_eq [of x ab] by (auto simp: h'_def blk)
  note fo = seg [unfolded seg_focus, folded ab_def]
  have "seg h' 0 ?a xs (of_nat ab) = seg (hdr s) 0 ?a xs (of_nat ab)"
  proof (rule seg_frame)
    fix x assume "x \<in> set (starts ?a xs)"
    then have "x + 16 \<le> ab" using starts_range [of x ?a xs] by (simp add: ab_def)
    then show "h' (of_nat x) = hdr s (of_nat x)" using far [of x] ad(3) by simp
  qed
  moreover have "seg h' (of_nat ab) (ab + 16 + n) ys 0 = seg (hdr s) (of_nat ab) (ab + 16 + n) ys 0"
    by (rule seg_frame) (use far ad starts_range [of _ "ab + 16 + n" ys] in fastforce)
  moreover have "h' (of_nat ab) = (hdr s (of_nat ab))\<lparr>bh_free := v\<rparr>" by (simp add: h'_def blk)
  ultimately have "seg h' 0 ?a (xs @ (n, v \<noteq> 0) # ys) 0"
    unfolding seg_focus ab_def [symmetric] using fo by simp
  then show ?thesis using wf by (simp add: heap_wf_def set_hdr_def h'_def)
qed

text \<open>What an allocation of \<open>w\<close> bytes does to the block it takes.\<close>

definition carve :: "nat \<Rightarrow> nat \<Rightarrow> blk list" where
  "carve w n = (if n < w + 32 then [(n, False)] else [(w, False), (n - w - 16, True)])"

lemma kmalloc_take:
  assumes wf: "heap_wf s (xs @ (n, True) # ys)" and w: "unat w \<le> n"
  defines "blk \<equiv> of_nat (unat (heap_base s) + extent xs)"
  shows "heap_wf (set_hdr blk (\<lambda>b. b\<lparr>bh_free := 0\<rparr>) (block_split blk w s)) (xs @ carve (unat w) n @ ys)"
proof (cases "n < unat w + 32")
  case True
  note ad = heap_addr [OF wf]
  have "unat (bh_size (hdr s blk)) = n" using wf by (simp add: heap_wf_def seg_focus blk_def)
  moreover have "unat (w + 16 + 16) = unat w + 32" using w ad by (simp add: unat_word_ariths)
  ultimately have "block_split blk w s = s"
    using True by (simp add: block_split_def word_less_nat_alt)
  with set_hdr_free_wf [OF wf, of 0] True show ?thesis by (simp add: carve_def blk_def)
next
  case False
  then have "heap_wf (block_split blk w s) (xs @ (unat w, True) # (n - unat w - 16, True) # ys)"
    using block_split_wf [OF wf, of w] by (simp add: blk_def)
  moreover have "heap_base (block_split blk w s) = heap_base s"
    by (simp add: block_split_def set_hdr_def Let_def)
  ultimately show ?thesis
    using set_hdr_free_wf [of "block_split blk w s" xs "unat w" True _ 0] False
    by (simp add: carve_def blk_def)
qed

section \<open>Release\<close>

lemma block_coalesce_wf:
  assumes wf: "heap_wf s (xs @ (n, f) # (m, True) # ys)"
  defines "blk \<equiv> of_nat (unat (heap_base s) + extent xs)"
  shows "heap_wf (block_coalesce blk s) (xs @ (n + 16 + m, f) # ys)"
proof -
  let ?a = "unat (heap_base s)" and ?h = "hdr s"
  define ab where "ab = ?a + extent xs"
  define ay where "ay = ab + 16 + n"
  define az where "az = ay + 16 + m"
  have blk: "blk = of_nat ab" by (simp only: blk_def ab_def)
  note ad = heap_addr [OF wf, folded ab_def, folded ay_def]
  have wf2: "heap_wf s ((xs @ [(n, f)]) @ (m, True) # ys)" using wf by simp
  have ay2: "?a + extent (xs @ [(n, f)]) = ay" by (simp add: ay_def ab_def)
  note ad2 = heap_addr [OF wf2, unfolded ay2, folded az_def]
  have seg: "seg ?h 0 ?a (xs @ (n, f) # (m, True) # ys) 0" using wf by (simp add: heap_wf_def)
  note fo = seg [unfolded seg_focus, folded ab_def, folded ay_def]
  have fy: "unat (bh_size (?h (of_nat ay))) = m" "bh_free (?h (of_nat ay)) \<noteq> 0"
      "bh_next (?h (of_nat ay)) = (if ys = [] then 0 else of_nat az)" "seg ?h (of_nat ay) az ys 0"
    using fo by (auto simp: az_def)
  have nb: "bh_next (?h blk) = of_nat ay" "(of_nat ay :: u32) \<noteq> 0" using fo ad by (auto simp: blk)
  define H where "H = (?h blk)\<lparr>bh_size := bh_size (?h blk) + (16 + bh_size (?h (of_nat ay))),
    bh_next := bh_next (?h (of_nat ay))\<rparr>"
  define h' where "h' = (if ys = [] then ?h(blk := H)
    else ?h(blk := H, of_nat az := (?h (of_nat az))\<lparr>bh_prev := blk\<rparr>))"
  have bz: "(of_nat az :: u32) \<noteq> blk" "(of_nat az :: u32) \<noteq> 0" if "ys \<noteq> []"
    using that ad(3) ad2(5,6) of_nat_addr_eq [of az ab] by (auto simp: blk az_def ay_def)
  have co: "block_coalesce blk s = s\<lparr>hdr := h'\<rparr>"
    using nb fy(2,3) bz by (auto simp: block_coalesce_def Let_def set_hdr_def h'_def H_def)
  have far: "h' (of_nat x) = ?h (of_nat x)" if "x < 2 ^ 32" "x \<noteq> ab" "x \<noteq> az" for x
    using that ad(3) ad2(5) of_nat_addr_eq [of x ab] of_nat_addr_eq [of x az]
    by (auto simp: h'_def blk az_def)
  have pre: "h' (of_nat x) = ?h (of_nat x)" if "x + 16 \<le> ab" for x using far [of x] that ad(3) by (simp add: az_def ay_def)
  have suc: "h' (of_nat x) = ?h (of_nat x)" if "az < x" "x < 2 ^ 32" for x
    using far [of x] that by (simp add: az_def ay_def)
  have nxt: "h' (of_nat az) = (?h (of_nat az))\<lparr>bh_prev := blk\<rparr>" if "ys \<noteq> []" using that by (simp add: h'_def)
  have hb: "h' (of_nat ab) = H" using bz by (auto simp: h'_def blk)
  have parts: "seg h' 0 ?a xs (of_nat ab)" "seg h' blk az ys 0"
    using seg_prefix [of ?h 0 ?a xs "of_nat ab" h'] seg_suffix [OF fy(4) ad2(7) suc nxt] fo pre
    by (auto simp: ab_def)
  have sz: "unat (bh_size (?h blk) + (16 + bh_size (?h (of_nat ay)))) = n + 16 + m"
  proof -
    have n: "unat (bh_size (?h blk)) = n" using fo by (simp add: blk)
    have "n + 16 + m < 2 ^ 32" using ad(1) ad2(2) by (simp add: az_def ay_def)
    then show ?thesis using n fy(1) by (simp add: unat_word_ariths)
  qed
  have idx: "ab + 16 + (n + 16 + m) = az" by (simp add: az_def ay_def)
  have "seg h' 0 ?a (xs @ (n + 16 + m, f) # ys) 0"
    unfolding seg_focus ab_def [symmetric] idx hb
    using parts fo sz fy(3) by (simp add: H_def blk del: of_nat_add)
  then show ?thesis using wf by (simp add: heap_wf_def co)
qed

lemma block_coalesce_skip:
  assumes wf: "heap_wf s (xs @ (n, f) # ys)" and "ys = [] \<or> \<not> snd (hd ys)"
  shows "block_coalesce (of_nat (unat (heap_base s) + extent xs)) s = s"
proof (cases ys)
  case Nil
  then show ?thesis using wf by (simp add: heap_wf_def seg_focus block_coalesce_def Let_def del: of_nat_add)
next
  case (Cons y zs)
  with assms(2) obtain m where "y = (m, False)" by (cases y) auto
  with Cons wf show ?thesis by (simp add: heap_wf_def seg_focus block_coalesce_def Let_def del: of_nat_add)
qed

text \<open>Joining a freed block with its free neighbours.\<close>

definition join_next :: "nat \<Rightarrow> blk list \<Rightarrow> nat \<times> blk list" where
  "join_next n ys = (case ys of (m, True) # zs \<Rightarrow> (n + 16 + m, zs) | _ \<Rightarrow> (n, ys))"

definition join_prev :: "blk list \<Rightarrow> nat \<Rightarrow> blk list \<times> nat" where
  "join_prev xs n = (if xs \<noteq> [] \<and> snd (last xs) then (butlast xs, fst (last xs) + 16 + n) else (xs, n))"

definition release :: "blk list \<Rightarrow> nat \<Rightarrow> blk list \<Rightarrow> blk list" where
  "release xs n ys =
     (let (n1, ys1) = join_next n ys; (xs1, n2) = join_prev xs n1 in xs1 @ (n2, True) # ys1)"

lemma block_coalesce_next:
  assumes "heap_wf s (xs @ (n, f) # ys)"
  shows "heap_wf (block_coalesce (of_nat (unat (heap_base s) + extent xs)) s)
    (xs @ (fst (join_next n ys), f) # snd (join_next n ys))"
proof (cases "ys = [] \<or> \<not> snd (hd ys)")
  case True
  then have "join_next n ys = (n, ys)" by (auto simp: join_next_def split: list.splits prod.splits bool.splits)
  then show ?thesis using block_coalesce_skip [OF assms True] assms by simp
next
  case False
  then obtain m zs where ys: "ys = (m, True) # zs" by (cases ys) auto
  then show ?thesis using block_coalesce_wf [of s xs n f m zs] assms by (simp add: join_next_def)
qed

lemma heap_base_simps [simp]:
  "heap_base (set_hdr p u s) = heap_base s" "heap_base (block_coalesce p s) = heap_base s"
  by (simp_all add: set_hdr_def block_coalesce_def Let_def)

lemma kfree_wf:
  assumes wf: "heap_wf s (xs @ (n, f) # ys)"
  shows "heap_wf (kfree (of_nat (unat (heap_base s) + extent xs + 16)) s) (release xs n ys)"
proof -
  let ?a = "unat (heap_base s)"
  define blk :: u32 where "blk = of_nat (?a + extent xs)"
  note ad = heap_addr [OF wf]
  have ptr: "of_nat (?a + extent xs + 16) - 16 = blk" "(of_nat (?a + extent xs + 16) :: u32) \<noteq> 0"
    using of_nat_addr_eq [of "?a + extent xs + 16" 0] ad(8) by (simp_all add: blk_def)
  define s1 where "s1 = set_hdr blk (\<lambda>b. b\<lparr>bh_free := 1\<rparr>) s"
  define s2 where "s2 = block_coalesce blk s1"
  obtain n1 ys1 where j: "join_next n ys = (n1, ys1)" by fastforce
  have w1: "heap_wf s1 (xs @ (n, True) # ys)" using set_hdr_free_wf [OF wf, of 1] by (simp add: s1_def blk_def)
  have w2: "heap_wf s2 (xs @ (n1, True) # ys1)"
    using block_coalesce_next [OF w1] j by (simp add: s2_def s1_def blk_def)
  have base: "heap_base s1 = heap_base s" "heap_base s2 = heap_base s" by (simp_all add: s1_def s2_def)
  have kf: "kfree (of_nat (?a + extent xs + 16)) s =
      (if bh_prev (hdr s2 blk) \<noteq> 0 \<and> bh_free (hdr s2 (bh_prev (hdr s2 blk))) \<noteq> 0
       then block_coalesce (bh_prev (hdr s2 blk)) s2 else s2)"
    using ptr by (simp only: kfree_def Let_def if_False s1_def s2_def)
  have pv: "bh_prev (hdr s2 blk) = last_start 0 ?a xs"
    using w2 by (simp add: heap_wf_def seg_focus base blk_def del: of_nat_add)
  show ?thesis
  proof (cases "xs = []")
    case True
    then show ?thesis using kf pv w2 j by (simp add: last_start_def release_def join_prev_def)
  next
    case False
    then obtain zs k g where xs: "xs = zs @ [(k, g)]" by (metis rev_exhaust surj_pair)
    have w2': "heap_wf s2 (zs @ (k, g) # (n1, True) # ys1)" using w2 xs by simp
    have pv': "bh_prev (hdr s2 blk) = of_nat (?a + extent zs)"
      using pv by (simp add: xs last_start_def starts_append del: of_nat_add)
    have g: "(bh_free (hdr s2 (of_nat (?a + extent zs))) \<noteq> 0) = g"
      using w2' by (simp add: heap_wf_def seg_focus base del: of_nat_add)
    have nz: "(of_nat (?a + extent zs) :: u32) \<noteq> 0" using heap_addr(4) [OF w2'] base by simp
    have "heap_wf (block_coalesce (of_nat (?a + extent zs)) s2) (zs @ (k + 16 + n1, g) # ys1)"
      using block_coalesce_wf [OF w2'] base by simp
    then show ?thesis
      using kf pv' g nz w2 j by (cases g) (simp_all add: release_def join_prev_def xs del: of_nat_add)
  qed
qed

section \<open>The payloads in use\<close>

text \<open>Start and length of every payload that is handed out.\<close>

fun used_spans :: "nat \<Rightarrow> blk list \<Rightarrow> (nat \<times> nat) set" where
  "used_spans a [] = {}"
| "used_spans a ((n, f) # bs) = (if f then {} else {(a + 16, n)}) \<union> used_spans (a + 16 + n) bs"

abbreviation heap_used :: "heap \<Rightarrow> blk list \<Rightarrow> (nat \<times> nat) set" where
  "heap_used s bs \<equiv> used_spans (unat (heap_base s)) bs"

lemma used_spans_append: "used_spans a (xs @ ys) = used_spans a xs \<union> used_spans (a + extent xs) ys"
  by (induction a xs rule: used_spans.induct) (auto simp: add.assoc)

lemma used_spans_range: "(q, m) \<in> used_spans a bs \<Longrightarrow> a + 16 \<le> q \<and> q + m \<le> a + extent bs"
  by (induction a bs rule: used_spans.induct) (fastforce split: if_splits)+

lemma used_spans_split:
  "(q, m) \<in> used_spans a bs \<Longrightarrow> \<exists>xs ys. bs = xs @ (m, False) # ys \<and> q = a + extent xs + 16"
proof (induction a bs rule: used_spans.induct)
  case (2 a n f bs)
  show ?case
  proof (cases "(q, m) \<in> used_spans (a + 16 + n) bs")
    case True
    with 2 obtain xs ys where "bs = xs @ (m, False) # ys" "q = a + 16 + n + extent xs + 16" by blast
    then show ?thesis by (intro exI [of _ "(n, f) # xs"] exI [of _ ys]) simp
  next
    case False
    with "2.prems" have "\<not> f" "q = a + 16" "m = n" by (auto split: if_splits)
    then show ?thesis by (intro exI [of _ "[]"] exI [of _ bs]) simp
  qed
qed simp

lemma extent_carve: "w \<le> n \<Longrightarrow> extent (carve w n) = 16 + n"
  by (auto simp: carve_def)

lemma used_spans_carve:
  "w \<le> n \<Longrightarrow> used_spans a (carve w n) = {(a + 16, if n < w + 32 then n else w)}"
  by (auto simp: carve_def)

text \<open>No two free blocks lie next to each other.\<close>

fun coalesced :: "blk list \<Rightarrow> bool" where
  "coalesced [] = True"
| "coalesced (b # bs) \<longleftrightarrow> \<not> (bs \<noteq> [] \<and> snd b \<and> snd (hd bs)) \<and> coalesced bs"

lemma coalesced_append:
  "coalesced (xs @ ys) \<longleftrightarrow> coalesced xs \<and> coalesced ys \<and> \<not> (xs \<noteq> [] \<and> ys \<noteq> [] \<and> snd (last xs) \<and> snd (hd ys))"
  by (induction xs) (auto simp: hd_append)

lemma coalesced_carve: "coalesced (xs @ (n, True) # ys) \<Longrightarrow> coalesced (xs @ carve w n @ ys)"
  by (auto simp: carve_def coalesced_append)

lemma coalesced_release:
  assumes "coalesced (xs @ (n, f) # ys)"
  shows "coalesced (release xs n ys)"
proof -
  obtain n1 ys1 where j: "join_next n ys = (n1, ys1)" by fastforce
  have ys: "coalesced ys" and xs: "coalesced xs" using assms by (auto simp: coalesced_append)
  have n: "coalesced ((m, True) # ys1)" for m
  proof (cases "ys \<noteq> [] \<and> snd (hd ys)")
    case True
    then obtain k zs where "ys = (k, True) # zs" by (cases ys) auto
    with j ys show ?thesis by (auto simp: join_next_def)
  next
    case False
    then have "ys1 = ys" using j by (auto simp: join_next_def split: list.splits prod.splits bool.splits)
    with False ys show ?thesis by auto
  qed
  show ?thesis
  proof (cases "xs \<noteq> [] \<and> snd (last xs)")
    case True
    then obtain zs k where x: "xs = zs @ [(k, True)]" by (metis append_butlast_last_id prod.collapse)
    with xs have "coalesced zs" "zs \<noteq> [] \<Longrightarrow> \<not> snd (last zs)" by (auto simp: coalesced_append)
    with n [of "k + 16 + n1"] x j show ?thesis by (auto simp: release_def join_prev_def coalesced_append)
  next
    case False
    with n [of n1] xs j show ?thesis by (auto simp: release_def join_prev_def coalesced_append)
  qed
qed

lemma extent_release: "extent (release xs n ys) = extent (xs @ (n, f) # ys)"
proof -
  obtain n1 ys1 where j: "join_next n ys = (n1, ys1)" by fastforce
  then have e: "n1 + extent ys1 = n + extent ys"
    by (auto simp: join_next_def split: list.splits prod.splits bool.splits)
  show ?thesis
  proof (cases "xs \<noteq> [] \<and> snd (last xs)")
    case True
    then obtain zs k where x: "xs = zs @ [(k, True)]" by (metis append_butlast_last_id prod.collapse)
    with j e show ?thesis by (simp add: release_def join_prev_def)
  next
    case False
    with j e show ?thesis by (auto simp: release_def join_prev_def)
  qed
qed

lemma used_spans_release:
  "used_spans a (release xs n ys) = used_spans a xs \<union> used_spans (a + extent xs + 16 + n) ys"
proof -
  obtain n1 ys1 where j: "join_next n ys = (n1, ys1)" by fastforce
  then have y: "used_spans (b + 16 + n1) ys1 = used_spans (b + 16 + n) ys" for b
    by (auto simp: join_next_def add.assoc split: list.splits prod.splits bool.splits)
  show ?thesis
  proof (cases "xs \<noteq> [] \<and> snd (last xs)")
    case True
    then obtain zs k where x: "xs = zs @ [(k, True)]" by (metis append_butlast_last_id prod.collapse)
    with j y [of "a + extent zs + 16 + k"] show ?thesis
      by (simp add: release_def join_prev_def used_spans_append add.assoc)
  next
    case False
    with j y [of "a + extent xs"] show ?thesis
      by (auto simp: release_def join_prev_def used_spans_append)
  qed
qed

lemma used_spans_empty: "used_spans a bs = {} \<Longrightarrow> b \<in> set bs \<Longrightarrow> snd b"
  by (induction a bs rule: used_spans.induct) (auto split: if_splits)

lemma all_free_single:
  assumes "used_spans a bs = {}" and "coalesced bs" and "bs \<noteq> []"
  shows "bs = [(extent bs - 16, True)]"
proof -
  obtain n f rest where bs: "bs = (n, f) # rest" using assms(3) by (cases bs) auto
  have all: "snd b" if "b \<in> set bs" for b using used_spans_empty [OF assms(1) that] .
  have f: f using all [of "(n, f)"] bs by simp
  have "rest = []"
  proof (rule ccontr)
    assume ne: "rest \<noteq> []"
    then have "snd (hd rest)" using all [of "hd rest"] bs by simp
    with ne f bs assms(2) show False by simp
  qed
  with bs f show ?thesis by simp
qed

section \<open>The contract of the heap\<close>

lemma unat_align8:
  assumes "unat n + 7 < 2 ^ 32"
  shows "unat (HEAP_ALIGN n 8) = (unat n + 7) div 8 * 8"
proof -
  define x where "x = n + 8 - 1"
  have x: "unat x = unat n + 7" using assms by (simp add: x_def unat_word_ariths)
  have "HEAP_ALIGN n 8 = x AND NOT (mask 3)" by (simp add: HEAP_ALIGN_def x_def mask_eq_exp_minus_1)
  also have "\<dots> = push_bit 3 (drop_bit 3 x)" by (rule bit_word_eqI) (auto simp: bit_simps not_less)
  also have "\<dots> = x div 8 * 8" by (simp add: push_bit_eq_mult drop_bit_eq_div)
  finally have e: "HEAP_ALIGN n 8 = x div 8 * 8" .
  have "(unat n + 7) div 8 * 8 < 2 ^ 32" using assms by simp
  then show ?thesis by (simp add: e unat_word_ariths unat_div x)
qed

abbreviation round8 :: "u32 \<Rightarrow> nat" where
  "round8 n \<equiv> (unat n + 7) div 8 * 8"

lemma kmalloc_cases:
  assumes wf: "heap_wf s bs" and sz: "n \<noteq> 0" "unat n + 7 < 2 ^ 32"
  obtains (Full) "\<And>b. b \<in> set bs \<Longrightarrow> \<not> fits (round8 n) b" "kmalloc n s = Some (0, s)"
    | (Block) xs m ys s' where "bs = xs @ (m, True) # ys" "round8 n \<le> m" "\<And>b. b \<in> set xs \<Longrightarrow> \<not> fits (round8 n) b"
        "kmalloc n s = Some (of_nat (unat (heap_base s) + extent xs + 16), s')"
        "heap_wf s' (xs @ carve (round8 n) m @ ys)" "heap_base s' = heap_base s"
proof -
  let ?a = "unat (heap_base s)" and ?w = "HEAP_ALIGN n 8"
  have w: "unat ?w = round8 n" by (rule unat_align8 [OF sz(2)])
  have seg: "seg (hdr s) 0 ?a bs 0" and a: "32 \<le> ?a" "?a + extent bs \<le> 2 ^ 32" and ne: "bs \<noteq> []"
      and head: "heap_head s = heap_base s"
    using wf by (auto simp: heap_wf_def)
  have hz: "heap_base s \<noteq> 0" using a(1) by auto
  have find: "find_fit (hdr s) ?w (heap_head s) =
      (case first_index (fits (round8 n)) bs of None \<Rightarrow> Some 0 | Some i \<Rightarrow> Some (of_nat (?a + extent (take i bs))))"
    using find_fit_seg [OF seg _ a(2), of ?w] a(1) ne head w by simp
  have km: "kmalloc n s = do {
      blk \<leftarrow> find_fit (hdr s) ?w (heap_head s);
      if blk = 0 then Some (0, s)
      else Some (blk + 16, set_hdr blk (\<lambda>b. b\<lparr>bh_free := 0\<rparr>) (block_split blk ?w s)) }"
    using head hz sz(1) by (simp add: kmalloc_def kmalloc_aligned_def Let_def)
  show thesis
  proof (cases "first_index (fits (round8 n)) bs")
    case None
    then have "\<not> fits (round8 n) b" if "b \<in> set bs" for b
      using that by (metis first_index_None_iff in_set_conv_nth)
    then show thesis by (rule Full) (simp_all add: km find None)
  next
    case (Some i)
    then have i: "i < length bs" "fits (round8 n) (bs ! i)" "\<And>j. j < i \<Longrightarrow> \<not> fits (round8 n) (bs ! j)"
      by (auto simp: first_index_Some_iff)
    obtain m where m: "bs ! i = (m, True)" "round8 n \<le> m" using i(2) by (cases "bs ! i") (auto simp: fits_def)
    define xs ys where "xs = take i bs" and "ys = drop (Suc i) bs"
    have bs: "bs = xs @ (m, True) # ys" using i(1) m(1) by (metis xs_def ys_def id_take_nth_drop)
    have xs: "\<not> fits (round8 n) b" if "b \<in> set xs" for b
      using that i(1,3) by (auto simp: xs_def in_set_conv_nth)
    let ?blk = "of_nat (?a + extent xs) :: u32"
    let ?s = "set_hdr ?blk (\<lambda>b. b\<lparr>bh_free := 0\<rparr>) (block_split ?blk ?w s)"
    have wf': "heap_wf s (xs @ (m, True) # ys)" using wf bs by simp
    have "heap_wf ?s (xs @ carve (round8 n) m @ ys)"
      using kmalloc_take [OF wf', of ?w] m(2) w by simp
    moreover have "heap_base ?s = heap_base s" by (simp add: block_split_def Let_def)
    moreover have "kmalloc n s = Some (of_nat (?a + extent xs + 16), ?s)"
      using km find Some heap_addr(4) [OF wf'] by (simp add: xs_def)
    ultimately show thesis using Block [OF bs m(2) xs] by blast
  qed
qed

lemma kmalloc_effect:
  assumes wf0: "heap_wf s bs" and sz: "n \<noteq> 0" "unat n + 7 < 2 ^ 32"
  obtains (null) "kmalloc n s = Some (0, s)" "\<And>b. b \<in> set bs \<Longrightarrow> \<not> fits (round8 n) b"
    | (block) p s' bs' m where "kmalloc n s = Some (p, s')" "p \<noteq> 0" "heap_wf s' bs'" "heap_base s' = heap_base s"
        "coalesced bs \<Longrightarrow> coalesced bs'" "unat n \<le> m" "heap_used s' bs' = insert (unat p, m) (heap_used s bs)"
        "unat (heap_base s) + 16 \<le> unat p" "unat p + m \<le> unat (heap_base s) + unat (heap_size s)"
        "\<And>q k. (q, k) \<in> heap_used s bs \<Longrightarrow> q + k \<le> unat p - 16 \<or> unat p + m \<le> q - 16"
  using assms
proof (cases rule: kmalloc_cases)
  case Full
  then show ?thesis by (intro null)
next
  case (Block xs m ys s')
  let ?a = "unat (heap_base s)" and ?n' = "if m < round8 n + 32 then m else round8 n"
  have wf: "heap_wf s (xs @ (m, True) # ys)" using wf0 Block(1) by simp
  define p :: u32 where "p = of_nat (?a + extent xs + 16)"
  have p: "unat p = ?a + extent xs + 16" using heap_addr(8) [OF wf] by (simp only: p_def of_nat_addr)
  have ext: "extent bs = unat (heap_size s)" using wf0 by (simp add: heap_wf_def)
  have le: "unat n \<le> ?n'" "?n' \<le> m" using Block(2) by auto
  have used: "heap_used s bs = used_spans ?a xs \<union> used_spans (?a + extent xs + 16 + m) ys"
    by (simp add: Block(1) used_spans_append)
  have us: "heap_used s' (xs @ carve (round8 n) m @ ys) = insert (unat p, ?n') (heap_used s bs)"
    using Block(2) by (simp add: used_spans_append used_spans_carve extent_carve Block(6) used p add.assoc)
  have ap: "q + k \<le> unat p - 16 \<or> unat p + ?n' \<le> q - 16" if "(q, k) \<in> heap_used s bs" for q k
    using used_spans_range [of _ _ ?a xs] used_spans_range [of _ _ "?a + extent xs + 16 + m" ys] le(2)
      that unfolding used p by fastforce
  have nz: "p \<noteq> 0" using p by auto
  have hi: "unat p + ?n' \<le> ?a + unat (heap_size s)"
    using le(2) ext p by (simp add: Block(1))
  have co: "coalesced (xs @ carve (round8 n) m @ ys)" if "coalesced bs"
    using coalesced_carve that Block(1) by blast
  have lo: "?a + 16 \<le> unat p" by (simp add: p)
  show ?thesis
    using block [OF Block(4) [folded p_def] nz Block(5,6) co le(1) us lo hi ap] by blast
qed

text \<open>
  C3. Allocation is safe: for every request that does not overflow the rounding, the walk terminates, and
  a pointer that is not NULL is the start of a payload of at least the requested size that
  lies inside the arena and overlaps neither the payload nor the header of any block in use; every
  block in use stays in use, with its place and size, and the heap stays well formed and coalesced. NULL
  is returned exactly when no free block is large enough, and changes nothing.
\<close>

theorem kmalloc_safe:
  assumes "heap_wf s bs" and "n \<noteq> 0" and "unat n + 7 < 2 ^ 32"
  shows "\<exists>p s'. kmalloc n s = Some (p, s') \<and>
    (if p = 0 then s' = s \<and> (\<forall>b\<in>set bs. \<not> fits (round8 n) b)
     else \<exists>bs' m. heap_wf s' bs' \<and> heap_base s' = heap_base s \<and> (coalesced bs \<longrightarrow> coalesced bs') \<and> unat n \<le> m \<and>
       heap_used s' bs' = insert (unat p, m) (heap_used s bs) \<and>
       unat (heap_base s) + 16 \<le> unat p \<and> unat p + m \<le> unat (heap_base s) + unat (heap_size s) \<and>
       (\<forall>(q, k)\<in>heap_used s bs. q + k \<le> unat p - 16 \<or> unat p + m \<le> q - 16))"
  using assms
proof (cases rule: kmalloc_effect)
  case null
  then show ?thesis by auto
next
  case (block p s' bs' m)
  then show ?thesis
    by (intro exI [of _ p] exI [of _ s'] conjI) (simp_all, intro exI [of _ bs'] exI [of _ m], auto)
qed

text \<open>A fresh arena of 4 KiB.\<close>

lemma heap_init_wf:
  assumes "32 \<le> unat start" and "32 < unat n" and "unat start + unat n < 2 ^ 32"
  shows "heap_wf (heap_init dflt start n s) [(unat n - 16, True)]" and "heap_base (heap_init dflt start n s) = start"
proof -
  have "start \<noteq> 0" "\<not> n \<le> 16 + 16" using assms by (auto simp: word_le_nat_alt)
  then have i: "heap_init dflt start n s = heap_build_freelist (s\<lparr>heap_base := start, heap_size := n\<rparr>)"
    by (simp add: heap_init_def)
  have "unat (n - 16) = unat n - 16" using assms by (subst unat_sub) (simp_all add: word_le_nat_alt)
  with assms show "heap_wf (heap_init dflt start n s) [(unat n - 16, True)]"
    by (simp add: i heap_build_freelist_def set_hdr_def heap_wf_def)
  show "heap_base (heap_init dflt start n s) = start" by (simp add: i heap_build_freelist_def)
qed

definition heap_example :: heap where
  "heap_example = heap_init 0x200000 0x300000 0x1000
     \<lparr>hdr = (\<lambda>_. \<lparr>bh_size = 0, bh_free = 0, bh_next = 0, bh_prev = 0\<rparr>), heap_base = 0x200000, heap_size = 65536, heap_head = 0\<rparr>"

lemma heap_example_wf: "heap_wf heap_example [(0xFF0, True)]" "heap_base heap_example = 0x300000"
  using heap_init_wf [of "0x300000" "0x1000"] by (simp_all add: heap_example_def)

theorem kmalloc_safe_witness:
  "heap_wf heap_example [(0xFF0, True)] \<and> fits (round8 100) (0xFF0, True) \<and>
   (\<exists>p s'. kmalloc 100 heap_example = Some (p, s') \<and> p \<noteq> 0 \<and>
     (\<exists>bs' m. heap_wf s' bs' \<and> 100 \<le> m \<and> heap_used s' bs' = {(unat p, m)}))"
proof -
  have f: "fits (round8 100) (0xFF0, True)" by (simp add: fits_def)
  obtain p s' where k: "kmalloc 100 heap_example = Some (p, s')" and
    r: "if p = 0 then s' = heap_example \<and> (\<forall>b\<in>set [(0xFF0, True)]. \<not> fits (round8 100) b)
        else \<exists>bs' m. heap_wf s' bs' \<and> heap_base s' = heap_base heap_example \<and>
          (coalesced [(0xFF0, True)] \<longrightarrow> coalesced bs') \<and> unat (100 :: u32) \<le> m \<and>
          heap_used s' bs' = insert (unat p, m) (heap_used heap_example [(0xFF0, True)]) \<and>
          unat (heap_base heap_example) + 16 \<le> unat p \<and>
          unat p + m \<le> unat (heap_base heap_example) + unat (heap_size heap_example) \<and>
          (\<forall>(q, l)\<in>heap_used heap_example [(0xFF0, True)]. q + l \<le> unat p - 16 \<or> unat p + m \<le> q - 16)"
    using kmalloc_safe [OF heap_example_wf(1), of 100] by simp blast
  have p: "p \<noteq> 0" using r f by (auto split: if_splits)
  obtain bs' m where "heap_wf s' bs'" "unat (100 :: u32) \<le> m"
      "heap_used s' bs' = insert (unat p, m) (heap_used heap_example [(0xFF0, True)])"
    using r p by (simp only: if_False) blast
  then have "heap_wf s' bs' \<and> 100 \<le> m \<and> heap_used s' bs' = {(unat p, m)}" by simp
  then show ?thesis using k p f heap_example_wf(1) by blast
qed

section \<open>Releasing\<close>

lemma used_spans_remove:
  "used_spans a (xs @ (m, False) # ys) - {(a + extent xs + 16, m)} = used_spans a xs \<union> used_spans (a + extent xs + 16 + m) ys"
proof -
  have "(a + extent xs + 16, m) \<notin> used_spans a xs" using used_spans_range [of _ _ a xs] by fastforce
  moreover have "(a + extent xs + 16, m) \<notin> used_spans (a + extent xs + 16 + m) ys"
    using used_spans_range [of _ _ "a + extent xs + 16 + m" ys] by fastforce
  ultimately show ?thesis by (auto simp: used_spans_append)
qed

lemma heap_base_kfree [simp]: "heap_base (kfree p s) = heap_base s"
  unfolding kfree_def Let_def by (simp split: if_split)

lemma kfree_effect:
  assumes "heap_wf s bs" and "(unat p, m) \<in> heap_used s bs"
  obtains bs' where "heap_wf (kfree p s) bs'" and "heap_used s bs' = heap_used s bs - {(unat p, m)}"
    and "coalesced bs \<Longrightarrow> coalesced bs'" and "extent bs' = extent bs" and "bs' \<noteq> []"
proof -
  let ?a = "unat (heap_base s)"
  obtain xs ys where bs: "bs = xs @ (m, False) # ys" and p: "unat p = ?a + extent xs + 16"
    using used_spans_split [OF assms(2)] by blast
  have pw: "p = of_nat (?a + extent xs + 16)" unfolding p [symmetric] by simp
  have wf: "heap_wf s (xs @ (m, False) # ys)" using assms(1) bs by simp
  have "heap_wf (kfree p s) (release xs m ys)" unfolding pw by (rule kfree_wf [OF wf])
  moreover have "heap_used s (release xs m ys) = heap_used s bs - {(unat p, m)}"
    unfolding p bs used_spans_remove by (rule used_spans_release)
  moreover have "coalesced bs \<Longrightarrow> coalesced (release xs m ys)" using coalesced_release bs by blast
  moreover have "extent (release xs m ys) = extent bs" by (simp only: bs extent_release [of xs m ys False])
  moreover have "release xs m ys \<noteq> []" by (simp add: release_def split_beta)
  ultimately show thesis by (rule that)
qed

text \<open>
  C4. Releasing a block in use removes exactly that block from the blocks in use, leaves every other
  one where it is, and keeps the heap well formed and free of adjacent free blocks; when it was the
  last one, the arena is a single free block again.
\<close>

theorem kfree_restores:
  assumes "heap_wf s bs" and "coalesced bs" and "(unat p, m) \<in> heap_used s bs"
  shows "\<exists>bs'. heap_wf (kfree p s) bs' \<and> coalesced bs' \<and> heap_used (kfree p s) bs' = heap_used s bs - {(unat p, m)} \<and>
    (heap_used s bs = {(unat p, m)} \<longrightarrow> bs' = [(unat (heap_size s) - 16, True)])"
proof -
  obtain bs' where wf: "heap_wf (kfree p s) bs'" and u: "heap_used s bs' = heap_used s bs - {(unat p, m)}"
      and c: "coalesced bs'" and e: "extent bs' = extent bs" and ne: "bs' \<noteq> []"
    using kfree_effect [OF assms(1,3)] assms(2) by blast
  have "extent bs = unat (heap_size s)" using assms(1) by (simp add: heap_wf_def)
  then have "heap_used s bs = {(unat p, m)} \<longrightarrow> bs' = [(unat (heap_size s) - 16, True)]"
    using all_free_single [of "unat (heap_base s)" bs'] u c e ne by auto
  with wf u c show ?thesis by auto
qed

definition heap_busy :: heap where
  "heap_busy = snd (the (kmalloc 100 heap_example))"

lemma kmalloc_example:
  "kmalloc 100 heap_example =
     Some (0x300010, set_hdr 0x300000 (\<lambda>b. b\<lparr>bh_free := 0\<rparr>) (block_split 0x300000 104 heap_example))"
proof -
  have a: "HEAP_ALIGN 100 8 = 104" by (simp add: HEAP_ALIGN_def)
  show ?thesis
    by (simp add: kmalloc_def kmalloc_aligned_def heap_example_def heap_init_def heap_build_freelist_def
        find_fit.simps a set_hdr_def Let_def)
qed

lemma heap_busy_wf: "heap_wf heap_busy [(104, False), (3960, True)]" "heap_base heap_busy = 0x300000" "heap_size heap_busy = 0x1000"
  unfolding heap_busy_def kmalloc_example
  by (simp_all add: heap_wf_def set_hdr_def block_split_def heap_example_def heap_init_def heap_build_freelist_def Let_def)

theorem kfree_restores_witness:
  "heap_wf heap_busy [(104, False), (3960, True)] \<and> heap_wf (kfree 0x300010 heap_busy) [(0xFF0, True)]"
  using kfree_restores [OF heap_busy_wf(1), of "0x300010" 104] heap_busy_wf by auto

lemma release_carve:
  assumes "coalesced (xs @ (m, True) # ys)" and "w \<le> m"
  obtains n zs where "carve w m @ ys = (n, False) # zs" and "release xs n zs = xs @ (m, True) # ys"
proof -
  have xs: "\<not> (xs \<noteq> [] \<and> snd (last xs))" and ys: "\<not> (ys \<noteq> [] \<and> snd (hd ys))"
    using assms(1) by (auto simp: coalesced_append)
  show thesis
  proof (cases "m < w + 32")
    case True
    have "join_next m ys = (m, ys)" using ys by (auto simp: join_next_def split: list.splits prod.splits bool.splits)
    with True xs show thesis by (intro that [of m ys]) (auto simp: carve_def release_def join_prev_def)
  next
    case False
    with xs assms(2) show thesis
      by (intro that [of w "(m - w - 16, True) # ys"]) (auto simp: carve_def release_def join_prev_def join_next_def)
  qed
qed

text \<open>
  C5. Allocating and releasing are inverse: on a heap without adjacent free blocks, releasing the
  block \<^verbatim>\<open>kmalloc\<close> has just returned gives back exactly the block structure there was
  before.
\<close>

theorem kmalloc_kfree_roundtrip:
  assumes "heap_wf s bs" and "coalesced bs" and "n \<noteq> 0" and "unat n + 7 < 2 ^ 32" and "kmalloc n s = Some (p, s')"
  shows "heap_wf (kfree p s') bs"
  using assms(1,3,4)
proof (cases rule: kmalloc_cases)
  case Full
  then show ?thesis using assms(1,5) by (simp add: kfree_def)
next
  case (Block xs m ys t)
  have t: "t = s'" and p: "p = of_nat (unat (heap_base s) + extent xs + 16)" using Block(4) assms(5) by simp_all
  obtain k zs where c: "carve (round8 n) m @ ys = (k, False) # zs" and r: "release xs k zs = bs"
    using release_carve [of xs m ys "round8 n"] assms(2) Block(1,2) by auto
  have "heap_wf s' (xs @ (k, False) # zs)" using Block(5) c t by simp
  from kfree_wf [OF this] show ?thesis using r Block(6) t p by simp
qed

theorem kmalloc_kfree_roundtrip_witness:
  "heap_wf heap_example [(0xFF0, True)] \<and> heap_wf (kfree 0x300010 heap_busy) [(0xFF0, True)]"
  using kmalloc_kfree_roundtrip [OF heap_example_wf(1) _ _ _ kmalloc_example] heap_example_wf(1)
  by (simp add: heap_busy_def kmalloc_example)

section \<open>Statistics\<close>

definition payload_sum :: "(bool \<Rightarrow> bool) \<Rightarrow> blk list \<Rightarrow> nat" where
  "payload_sum P bs = sum_list (map fst (filter (\<lambda>b. P (snd b)) bs))"

lemma payload_simps [simp]:
  "payload_sum P [] = 0" "payload_sum P ((n, f) # bs) = (if P f then n else 0) + payload_sum P bs"
  by (simp_all add: payload_sum_def)

lemma payload_total: "payload_sum (\<lambda>f. \<not> f) bs + payload_sum (\<lambda>f. f) bs = payload_sum (\<lambda>_. True) bs"
  by (induction bs) auto

lemma extent_payload: "extent bs = 16 * length bs + payload_sum (\<lambda>_. True) bs"
  by (induction bs) auto

lemma stats_walk_seg:
  assumes "seg h pv a bs 0" and "32 \<le> a" and "a + extent bs < 2 ^ 32"
  shows "stats_walk h (if bs = [] then 0 else of_nat a) (t, u, f, k) =
    Some (t + of_nat (payload_sum (\<lambda>_. True) bs), u + of_nat (payload_sum (\<lambda>x. \<not> x) bs), f + of_nat (payload_sum (\<lambda>x. x) bs),
      k + of_nat (length bs))"
  using assms
proof (induction bs arbitrary: pv a t u f k)
  case Nil
  then show ?case by (simp add: stats_walk.simps)
next
  case (Cons b bs)
  obtain n g where b: "b = (n, g)" by fastforce
  let ?b = "of_nat a :: u32"
  have nz: "?b \<noteq> 0" using of_nat_addr_eq [of a 0] Cons.prems(2,3) by auto
  have h: "bh_size (h ?b) = of_nat n" "(bh_free (h ?b) \<noteq> 0) = g"
      "bh_next (h ?b) = (if bs = [] then 0 else of_nat (a + 16 + n))"
      and s: "seg h ?b (a + 16 + n) bs 0"
    using Cons.prems(1) by (auto simp: b)
  show ?case
    using Cons.IH [OF s] Cons.prems(2,3) nz h by (subst stats_walk.simps) (simp add: b algebra_simps)
qed

text \<open>
  C6. The figures of \<^verbatim>\<open>heap_get_stats\<close> are exact: the walk over the block list ends and
  reports, without any wrap-around, the number of blocks and their total, used and free payload, so
  that used and free add up to the total, and the total and one header per block add up to the arena.
\<close>

theorem heap_stats_exact:
  assumes "heap_wf s bs"
  shows "\<exists>t u f k. heap_get_stats s = Some (t, u, f, k) \<and> unat k = length bs \<and>
    unat u = payload_sum (\<lambda>free. \<not> free) bs \<and> unat f = payload_sum (\<lambda>free. free) bs \<and>
    unat t = unat u + unat f \<and> unat t + 16 * unat k = unat (heap_size s)"
proof -
  have wf: "seg (hdr s) 0 (unat (heap_base s)) bs 0" "bs \<noteq> []" "heap_head s = heap_base s" "32 \<le> unat (heap_base s)"
      "extent bs = unat (heap_size s)" "unat (heap_base s) + extent bs < 2 ^ 32"
    using assms by (auto simp: heap_wf_def)
  note e = extent_payload [of bs] payload_total [of bs]
  have "heap_get_stats s = Some (of_nat (payload_sum (\<lambda>_. True) bs), of_nat (payload_sum (\<lambda>x. \<not> x) bs), of_nat (payload_sum (\<lambda>x. x) bs),
      of_nat (length bs))"
    using stats_walk_seg [OF wf(1,4,6), of 0 0 0 0] wf(2,3) by (simp add: heap_get_stats_def)
  moreover have "payload_sum (\<lambda>_. True) bs < 2 ^ 32" "payload_sum (\<lambda>x. \<not> x) bs < 2 ^ 32" "payload_sum (\<lambda>x. x) bs < 2 ^ 32" "length bs < 2 ^ 32"
    using wf(6) e by linarith+
  ultimately show ?thesis using wf(5) e by (auto simp: of_nat_addr)
qed

theorem heap_stats_exact_witness:
  "heap_wf heap_busy [(104, False), (3960, True)] \<and> heap_get_stats heap_busy = Some (4064, 104, 3960, 2)"
proof -
  obtain t u f k where g: "heap_get_stats heap_busy = Some (t, u, f, k)" and
    "unat k = 2" "unat u = 104" "unat f = 3960" "unat t = 4064"
    using heap_stats_exact [OF heap_busy_wf(1)] by auto
  then have "k = of_nat 2" "u = of_nat 104" "f = of_nat 3960" "t = of_nat 4064" by (metis of_nat_unat ucast_id)+
  with g heap_busy_wf(1) show ?thesis by simp
qed

section \<open>Limits of the allocator\<close>

text \<open>
  The size is rounded up before it is compared, so that a request close to 4 GiB wraps to 0 and is
  served by the first free block, whatever its size.
\<close>

lemma kmalloc_huge_succeeds:
  "\<exists>p s'. kmalloc 0xFFFFFFFF heap_example = Some (p, s') \<and> p \<noteq> 0"
proof -
  have a: "HEAP_ALIGN 0xFFFFFFFF 8 = 0" by (simp add: HEAP_ALIGN_def)
  show ?thesis
    by (simp add: kmalloc_def kmalloc_aligned_def heap_example_def heap_init_def heap_build_freelist_def
        find_fit.simps a set_hdr_def Let_def)
qed

text \<open>The alignment argument only rounds the size: the address returned need not be a multiple of it.\<close>

lemma kmalloc_aligned_unaligned:
  "map_option fst (kmalloc_aligned 100 4096 (heap_init 0x200000 0x300000 0x10000 heap_example)) = Some 0x300010"
proof -
  have a: "HEAP_ALIGN 100 4096 = 4096" by (simp add: HEAP_ALIGN_def)
  show ?thesis
    by (simp add: kmalloc_aligned_def heap_init_def heap_build_freelist_def find_fit.simps a set_hdr_def Let_def)
qed

section \<open>The heap as its clients see it\<close>

text \<open>
  What the rest of the kernel relies on. \<open>live s U\<close>: the state is sound and \<open>U\<close> holds the
  address and length of every block handed out and not yet released.
\<close>

definition apart :: "nat \<times> nat \<Rightarrow> nat \<times> nat \<Rightarrow> bool" where
  "apart a b \<longleftrightarrow> fst a + snd a \<le> fst b \<or> fst b + snd b \<le> fst a"

locale kernel_heap =
  fixes live :: "'s \<Rightarrow> (nat \<times> nat) set \<Rightarrow> bool"
    and alloc :: "u32 \<Rightarrow> 's \<Rightarrow> (u32 \<times> 's) option"
    and dealloc :: "u32 \<Rightarrow> 's \<Rightarrow> 's"
  assumes alloc_live: "live s U \<Longrightarrow> n \<noteq> 0 \<Longrightarrow> unat n + 7 < 2 ^ 32 \<Longrightarrow>
      \<exists>p s'. alloc n s = Some (p, s') \<and> (p = 0 \<and> s' = s \<or>
        p \<noteq> 0 \<and> (\<exists>m \<ge> unat n. live s' (insert (unat p, m) U) \<and> (\<forall>b\<in>U. apart b (unat p, m))))"
    and dealloc_live: "live s U \<Longrightarrow> (unat p, m) \<in> U \<Longrightarrow> live (dealloc p s) (U - {(unat p, m)})"
    and dealloc_null: "dealloc 0 s = s"
    and live_bound: "live s U \<Longrightarrow> (a, m) \<in> U \<Longrightarrow> 0 < a \<and> a + m < 2 ^ 32"
begin

lemma alloc_cases:
  assumes "live s U" and "n \<noteq> 0" and "unat n + 7 < 2 ^ 32"
  obtains (null) "alloc n s = Some (0, s)"
    | (block) p s' m where "alloc n s = Some (p, s')" "p \<noteq> 0" "unat n \<le> m" "live s' (insert (unat p, m) U)"
        "\<And>b. b \<in> U \<Longrightarrow> apart b (unat p, m)"
  using alloc_live [OF assms] by blast

lemma alloc_dealloc:
  assumes "live s U" and "n \<noteq> 0" and "unat n + 7 < 2 ^ 32" and "alloc n s = Some (p, s')"
  shows "live (dealloc p s') U"
  using assms(1-3)
proof (cases rule: alloc_cases)
  case null
  then show ?thesis using assms(1,4) by (simp add: dealloc_null)
next
  case (block q t m)
  then have q: "q = p" "t = s'" using assms(4) by simp_all
  have "(unat p, m) \<notin> U" using block(2,3,5) q assms(2) by (force simp: apart_def unat_eq_zero)
  then show ?thesis using dealloc_live [OF block(4), of q m] q by simp
qed

lemma alloc_distinct:
  assumes "live s U" and "n \<noteq> 0" and "unat n + 7 < 2 ^ 32" and "alloc n s = Some (p, s')" and "p \<noteq> 0" and "(unat q, k) \<in> U" and "0 < k"
  shows "p \<noteq> q"
  using assms(1-3)
proof (cases rule: alloc_cases)
  case (block r t m)
  then show ?thesis using assms by (force simp: apart_def unat_eq_zero)
qed (use assms in simp)

end

definition heap_live :: "heap \<Rightarrow> (nat \<times> nat) set \<Rightarrow> bool" where
  "heap_live s U \<longleftrightarrow> (\<exists>bs. heap_wf s bs \<and> coalesced bs \<and> heap_used s bs = U)"

lemma kmalloc_live:
  assumes "heap_live s U" and "n \<noteq> 0" and "unat n + 7 < 2 ^ 32"
  shows "\<exists>p s'. kmalloc n s = Some (p, s') \<and> (p = 0 \<and> s' = s \<or>
    p \<noteq> 0 \<and> (\<exists>m \<ge> unat n. heap_live s' (insert (unat p, m) U) \<and> (\<forall>b\<in>U. apart b (unat p, m))))"
proof -
  obtain bs where bs: "heap_wf s bs" "coalesced bs" "heap_used s bs = U" using assms(1) by (auto simp: heap_live_def)
  from bs(1) assms(2,3) show ?thesis
  proof (cases rule: kmalloc_effect)
    case null
    then show ?thesis by simp
  next
    case (block p s' bs' m)
    have "heap_live s' (insert (unat p, m) U)"
      unfolding heap_live_def using block(3) block(5) [OF bs(2)] block(7) unfolding bs(3) by (intro exI conjI)
    moreover have "apart b (unat p, m)" if "b \<in> U" for b
      using block(10) [of "fst b" "snd b"] that bs(3) by (auto simp: apart_def)
    ultimately show ?thesis using block(1,2,6) by blast
  qed
qed

lemma kfree_live:
  assumes "heap_live s U" and "(unat p, m) \<in> U"
  shows "heap_live (kfree p s) (U - {(unat p, m)})"
proof -
  obtain bs where bs: "heap_wf s bs" "coalesced bs" "heap_used s bs = U" using assms(1) by (auto simp: heap_live_def)
  have m: "(unat p, m) \<in> heap_used s bs" using assms(2) bs(3) by simp
  show ?thesis
  proof (rule kfree_effect [OF bs(1) m])
    fix bs'
    assume "heap_wf (kfree p s) bs'" "heap_used s bs' = heap_used s bs - {(unat p, m)}" "coalesced bs \<Longrightarrow> coalesced bs'"
    then show ?thesis unfolding heap_live_def using bs(2,3) by (intro exI [of _ bs']) simp
  qed
qed

lemma heap_live_bound: "heap_live s U \<Longrightarrow> (a, m) \<in> U \<Longrightarrow> 0 < a \<and> a + m < 2 ^ 32"
  using used_spans_range by (fastforce simp: heap_live_def heap_wf_def)

lemma used_spans_apart: "x \<in> used_spans a bs \<Longrightarrow> y \<in> used_spans a bs \<Longrightarrow> x \<noteq> y \<Longrightarrow> apart x y"
proof (induction a bs rule: used_spans.induct)
  case (2 a n f bs)
  have r: "a + 16 + n \<le> fst z" if "z \<in> used_spans (a + 16 + n) bs" for z
    using used_spans_range [of "fst z" "snd z" "a + 16 + n" bs] that by simp
  consider "x \<in> used_spans (a + 16 + n) bs" "y \<in> used_spans (a + 16 + n) bs"
    | "x = (a + 16, n)" "y \<in> used_spans (a + 16 + n) bs" | "x \<in> used_spans (a + 16 + n) bs" "y = (a + 16, n)"
    using 2 by (auto split: if_splits)
  then show ?case
  proof cases
    case 1
    then show ?thesis using 2 by blast
  next
    case 2
    then show ?thesis using r by (simp add: apart_def)
  next
    case 3
    then show ?thesis using r by (simp add: apart_def)
  qed
qed simp

lemma heap_live_apart: "heap_live s U \<Longrightarrow> x \<in> U \<Longrightarrow> y \<in> U \<Longrightarrow> x \<noteq> y \<Longrightarrow> apart x y"
  unfolding heap_live_def using used_spans_apart by blast

interpretation kheap: kernel_heap heap_live kmalloc kfree
  by unfold_locales (erule (2) kmalloc_live, erule (1) kfree_live, simp add: kfree_def, erule (1) heap_live_bound)

end
