(* ===== verification/Slab.thy ===== *)
theory Slab
  imports Heap
begin

text \<open>
  The object caches, \<^verbatim>\<open>src/memory/slab.c\<close>: a cache hands out objects of one size and
  keeps the released ones on a list threaded through their own first word. The state is the kernel
  heap and the words stored in its blocks; a cache at address \<open>s\<close> has its
  \<^verbatim>\<open>free_list\<close> at \<open>s\<close> and its \<^verbatim>\<open>obj_size\<close> at \<open>s + 4\<close>.
\<close>

section \<open>Operations\<close>

record slab_state =
  sl_heap :: heap
  sl_mem :: "u32 \<Rightarrow> u32"

abbreviation free_list :: "slab_state \<Rightarrow> u32 \<Rightarrow> u32" where "free_list st s \<equiv> sl_mem st s"
abbreviation obj_size :: "slab_state \<Rightarrow> u32 \<Rightarrow> u32" where "obj_size st s \<equiv> sl_mem st (s + 4)"

definition slab_create :: "u32 \<Rightarrow> slab_state \<Rightarrow> (u32 \<times> slab_state) option" where
  "slab_create size' st = do {
     (s, h) \<leftarrow> kmalloc 8 (sl_heap st);
     if s = 0 then Some (0, st\<lparr>sl_heap := h\<rparr>)
     else let size'' = (if size' < 4 then 4 else size')
          in Some (s, st\<lparr>sl_heap := h, sl_mem := (sl_mem st)(s + 4 := size'', s := 0)\<rparr>) }"

definition slab_alloc :: "u32 \<Rightarrow> slab_state \<Rightarrow> (u32 \<times> slab_state) option" where
  "slab_alloc s st =
     (if s = 0 then Some (0, st)
      else if free_list st s \<noteq> 0
      then let obj = free_list st s in Some (obj, st\<lparr>sl_mem := (sl_mem st)(s := sl_mem st obj)\<rparr>)
      else do { (p, h) \<leftarrow> kmalloc (obj_size st s) (sl_heap st); Some (p, st\<lparr>sl_heap := h\<rparr>) })"

definition slab_free :: "u32 \<Rightarrow> u32 \<Rightarrow> slab_state \<Rightarrow> slab_state" where
  "slab_free s ptr st =
     (if s = 0 \<or> ptr = 0 then st
      else st\<lparr>sl_mem := (sl_mem st)(ptr := free_list st s, s := ptr)\<rparr>)"

section \<open>Invariant\<close>

text \<open>The objects on the list that starts at \<open>x\<close>.\<close>

fun chain :: "(u32 \<Rightarrow> u32) \<Rightarrow> u32 \<Rightarrow> u32 list \<Rightarrow> bool" where
  "chain m x [] \<longleftrightarrow> x = 0"
| "chain m x (y # ys) \<longleftrightarrow> x \<noteq> 0 \<and> x = y \<and> chain m (m x) ys"

lemma chain_frame: "p \<notin> set xs \<Longrightarrow> chain (m(p := v)) x xs = chain m x xs"
  by (induction xs arbitrary: x) auto

definition spaced :: "(nat \<times> nat) set \<Rightarrow> bool" where
  "spaced U \<longleftrightarrow> (\<forall>a\<in>U. \<forall>b\<in>U. a \<noteq> b \<longrightarrow> apart a b)"

lemma spaced_insert: "spaced U \<Longrightarrow> (\<And>b. b \<in> U \<Longrightarrow> apart b c) \<Longrightarrow> spaced (insert c U)"
  by (auto simp: spaced_def apart_def)

text \<open>
  The cache at \<open>s\<close> with the free objects \<open>xs\<close> and the objects \<open>ys\<close> in use, when
  \<open>U\<close> are the blocks the heap has handed out.
\<close>

definition slab_inv :: "slab_state \<Rightarrow> u32 \<Rightarrow> (nat \<times> nat) set \<Rightarrow> u32 list \<Rightarrow> u32 list \<Rightarrow> bool" where
  "slab_inv st s U xs ys \<longleftrightarrow> heap_live (sl_heap st) U \<and> spaced U \<and>
     s \<noteq> 0 \<and> (\<exists>m\<ge>8. (unat s, m) \<in> U) \<and>
     4 \<le> unat (obj_size st s) \<and> unat (obj_size st s) + 7 < 2 ^ 32 \<and>
     chain (sl_mem st) (free_list st s) xs \<and> 0 \<notin> set ys \<and> distinct (s # xs @ ys) \<and>
     (\<forall>x\<in>set (xs @ ys). \<exists>m \<ge> unat (obj_size st s). (unat x, m) \<in> U)"

lemma slab_block:
  assumes "slab_inv st s U xs ys" and "x \<in> set (s # xs @ ys)"
  obtains k where "4 \<le> k" and "(unat x, k) \<in> U"
proof (cases "x = s")
  case True
  obtain k where "8 \<le> k" "(unat s, k) \<in> U" using assms(1) by (auto simp: slab_inv_def)
  then show thesis using that [of k] True by simp
next
  case False
  then have "x \<in> set (xs @ ys)" using assms(2) by auto
  then obtain k where "unat (obj_size st s) \<le> k" "(unat x, k) \<in> U" "4 \<le> unat (obj_size st s)"
    using assms(1) unfolding slab_inv_def by blast
  then show thesis using that [of k] by simp
qed

text \<open>An object of the cache never overlaps the cache's own descriptor.\<close>

lemma slab_object_apart:
  assumes "slab_inv st s U xs ys" and "x \<in> set (xs @ ys)"
  shows "x \<noteq> s" "x \<noteq> s + 4"
proof -
  obtain m k where m: "8 \<le> m" "unat s + m < 2 ^ 32" "(unat s, m) \<in> U" and k: "4 \<le> k" "(unat x, k) \<in> U"
    using assms kheap.live_bound unfolding slab_inv_def by (meson le_trans)
  show ne: "x \<noteq> s" using assms by (auto simp: slab_inv_def)
  then have "(unat s, m) \<noteq> (unat x, k)" by (simp add: word_unat_eq_iff)
  then have "apart (unat s, m) (unat x, k)" using assms(1) m k by (auto simp: slab_inv_def spaced_def)
  moreover have "unat (s + 4) = unat s + 4" using unat_u32_add [of s 4] m by simp
  ultimately show "x \<noteq> s + 4" using m k by (auto simp: apart_def)
qed
lemma slab_alloc_list:
  assumes "slab_inv st s U (x # xs) ys"
  shows "\<exists>st'. slab_alloc s st = Some (x, st') \<and> sl_heap st' = sl_heap st \<and> slab_inv st' s U xs (x # ys)"
proof -
  have x: "free_list st s = x" "x \<noteq> 0" "s \<noteq> 0" "chain (sl_mem st) (sl_mem st x) xs" "s \<notin> set xs"
    using assms by (auto simp: slab_inv_def)
  let ?st' = "st\<lparr>sl_mem := (sl_mem st)(s := sl_mem st x)\<rparr>"
  have "slab_alloc s st = Some (x, ?st')" using x by (simp add: slab_alloc_def)
  moreover have "slab_inv ?st' s U xs (x # ys)"
    using assms x by (auto simp: slab_inv_def chain_frame)
  ultimately show ?thesis by (intro exI [of _ ?st']) simp
qed

lemma slab_alloc_heap:
  assumes "slab_inv st s U [] ys"
  obtains (null) "slab_alloc s st = Some (0, st)"
    | (fresh) p m st' where "slab_alloc s st = Some (p, st')" "slab_inv st' s (insert (unat p, m) U) [] (p # ys)"
        "unat (obj_size st s) \<le> m" "\<And>b. b \<in> U \<Longrightarrow> apart b (unat p, m)"
proof -
  let ?n = "obj_size st s"
  have inv: "heap_live (sl_heap st) U" "spaced U" "s \<noteq> 0" "4 \<le> unat ?n" "unat ?n + 7 < 2 ^ 32" "free_list st s = 0"
      "0 \<notin> set ys" "distinct (s # ys)" and sU: "\<exists>m\<ge>8. (unat s, m) \<in> U"
      and yU: "\<And>y. y \<in> set ys \<Longrightarrow> \<exists>m \<ge> unat ?n. (unat y, m) \<in> U"
    using assms by (auto simp: slab_inv_def)
  have n: "?n \<noteq> 0" using inv(4) by auto
  from inv(1) n inv(5) show thesis
  proof (cases rule: kheap.alloc_cases)
    case null
    then show thesis using inv that(1) by (simp add: slab_alloc_def)
  next
    case (block p h m)
    have "p \<notin> set (s # [] @ ys)"
    proof
      assume "p \<in> set (s # [] @ ys)"
      then obtain k where "4 \<le> k" "(unat p, k) \<in> U" by (rule slab_block [OF assms])
      then show False using block(3,5) inv(4) by (force simp: apart_def)
    qed
    moreover have "\<exists>k \<ge> unat ?n. (unat y, k) \<in> insert (unat p, m) U" if "y \<in> set (p # ys)" for y
      using that block(3) yU by (cases "y = p") auto
    moreover have "\<exists>k\<ge>8. (unat s, k) \<in> insert (unat p, m) U" using sU by blast
    ultimately have "slab_inv (st\<lparr>sl_heap := h\<rparr>) s (insert (unat p, m) U) [] (p # ys)"
      using inv block(2,4) spaced_insert [OF inv(2) block(5)] by (simp add: slab_inv_def) blast
    moreover have "slab_alloc s st = Some (p, st\<lparr>sl_heap := h\<rparr>)" using inv block(1) by (simp add: slab_alloc_def)
    ultimately show thesis using that(2) block(3,5) by blast
  qed
qed

lemma slab_free_inv:
  assumes "slab_inv st s U xs ys" and "p \<in> set ys"
  shows "slab_inv (slab_free s p st) s U (p # xs) (remove1 p ys)"
proof -
  have p: "p \<noteq> s" "p \<noteq> s + 4" "s + 4 \<noteq> s" using slab_object_apart [OF assms(1), of p] assms(2) by auto
  have q: "p \<noteq> 0" "s \<noteq> 0" "p \<notin> set xs" "s \<notin> set xs" "distinct ys" using assms by (auto simp: slab_inv_def)
  have m: "sl_mem (slab_free s p st) = (sl_mem st)(p := free_list st s, s := p)" "sl_heap (slab_free s p st) = sl_heap st"
    using q by (simp_all add: slab_free_def)
  have o: "obj_size (slab_free s p st) s = obj_size st s" using p by (simp add: m)
  have c: "chain (sl_mem (slab_free s p st)) (free_list (slab_free s p st) s) (p # xs)"
    using assms(1) p q by (simp add: m chain_frame slab_inv_def)
  have d: "distinct (s # (p # xs) @ remove1 p ys)" "set ((p # xs) @ remove1 p ys) = set (xs @ ys)"
    using assms p q by (auto simp: slab_inv_def)
  show ?thesis
    using assms(1) c d(1) unfolding slab_inv_def o m(2) d(2) by (auto dest: notin_set_remove1 [rotated])
qed

lemma slab_create_inv:
  assumes "heap_live (sl_heap st) U" and "spaced U" and "unat n + 7 < 2 ^ 32"
  obtains (null) "slab_create n st = Some (0, st)"
    | (cache) s m st' where "slab_create n st = Some (s, st')" "slab_inv st' s (insert (unat s, m) U) [] []"
        "unat n \<le> unat (obj_size st' s)"
proof -
  have "(8 :: u32) \<noteq> 0" "unat (8 :: u32) + 7 < 2 ^ 32" by simp_all
  from assms(1) this show thesis
  proof (cases rule: kheap.alloc_cases)
    case null
    then show thesis using that(1) by (simp add: slab_create_def)
  next
    case (block s h m)
    let ?n = "if n < 4 then 4 else n"
    let ?st' = "st\<lparr>sl_heap := h, sl_mem := (sl_mem st)(s + 4 := ?n, s := 0)\<rparr>"
    have "s + 4 \<noteq> s" by simp
    moreover have "unat n \<le> unat ?n" "4 \<le> unat ?n" "unat ?n + 7 < 2 ^ 32"
      using assms(3) by (auto simp: word_less_nat_alt)
    ultimately show thesis
      using that(2) [of s ?st' m] block spaced_insert [OF assms(2) block(5)] by (auto simp: slab_create_def slab_inv_def)
  qed
qed

text \<open>
  C20. An object cache is sound: an allocation returns NULL and changes nothing, or returns an object
  that is not in use and does not overlap any object in use, at least as large as the cache's object
  size; a released object is the one the next allocation returns, and no heap call is made for it.
\<close>

theorem slab_sound:
  assumes "slab_inv st s U xs ys"
  shows "(\<exists>p st'. slab_alloc s st = Some (p, st') \<and>
      (p = 0 \<and> st' = st \<and> xs = [] \<or>
       p \<noteq> 0 \<and> p \<notin> set ys \<and> (xs \<noteq> [] \<longrightarrow> p = hd xs \<and> sl_heap st' = sl_heap st) \<and>
       (\<exists>U'. U \<subseteq> U' \<and> slab_inv st' s U' (tl xs) (p # ys)))) \<and>
    (\<forall>p\<in>set ys. slab_inv (slab_free s p st) s U (p # xs) (remove1 p ys) \<and>
      (\<exists>st'. slab_alloc s (slab_free s p st) = Some (p, st') \<and> sl_heap st' = sl_heap st))"
proof (intro conjI ballI)
  show "\<exists>p st'. slab_alloc s st = Some (p, st') \<and>
      (p = 0 \<and> st' = st \<and> xs = [] \<or>
       p \<noteq> 0 \<and> p \<notin> set ys \<and> (xs \<noteq> [] \<longrightarrow> p = hd xs \<and> sl_heap st' = sl_heap st) \<and>
       (\<exists>U'. U \<subseteq> U' \<and> slab_inv st' s U' (tl xs) (p # ys)))"
  proof (cases xs)
    case Nil
    then have "slab_inv st s U [] ys" using assms by simp
    then show ?thesis
    proof (cases rule: slab_alloc_heap)
      case null
      then show ?thesis using Nil by simp
    next
      case (fresh p m st')
      then have "p \<noteq> 0" "p \<notin> set ys" by (auto simp: slab_inv_def)
      then show ?thesis using Nil fresh(1,2) by auto
    qed
  next
    case (Cons x zs)
    then obtain st' where a: "slab_alloc s st = Some (x, st')" "sl_heap st' = sl_heap st" "slab_inv st' s U zs (x # ys)"
      using slab_alloc_list assms by blast
    then have "x \<noteq> 0" "x \<notin> set ys" by (auto simp: slab_inv_def)
    then show ?thesis using Cons a by auto
  qed
next
  fix p
  assume p: "p \<in> set ys"
  show f: "slab_inv (slab_free s p st) s U (p # xs) (remove1 p ys)" by (rule slab_free_inv [OF assms p])
  show "\<exists>st'. slab_alloc s (slab_free s p st) = Some (p, st') \<and> sl_heap st' = sl_heap st"
    using slab_alloc_list [OF f] by (auto simp: slab_free_def)
qed

definition slab_example :: slab_state where
  "slab_example = \<lparr>sl_heap = heap_example, sl_mem = (\<lambda>_. 0)\<rparr>"

lemma slab_example_inv: "\<exists>s st' U. s \<noteq> 0 \<and> slab_create 32 slab_example = Some (s, st') \<and> slab_inv st' s U [] []"
proof -
  have l: "heap_live (sl_heap slab_example) {}"
    using heap_example_wf by (auto simp: heap_live_def slab_example_def intro!: exI [of _ "[(0xFF0, True)]"])
  have k: "slab_create 32 slab_example \<noteq> Some (0, slab_example)"
    by (simp add: slab_create_def slab_example_def kmalloc_def kmalloc_aligned_def heap_example_def heap_init_def
        heap_build_freelist_def find_fit.simps HEAP_ALIGN_def set_hdr_def Let_def)
  have "spaced {}" "unat (32 :: u32) + 7 < 2 ^ 32" by (simp_all add: spaced_def)
  with l show ?thesis
    by (rule slab_create_inv) (use k in \<open>auto simp: slab_inv_def\<close>)
qed

theorem slab_sound_witness:
  "\<exists>s st U. slab_create 32 slab_example = Some (s, st) \<and> slab_inv st s U [] [] \<and> (\<exists>p st'. slab_alloc s st = Some (p, st'))"
proof -
  obtain s st U where c: "slab_create 32 slab_example = Some (s, st)" and i: "slab_inv st s U [] []"
    using slab_example_inv by blast
  then show ?thesis using slab_sound [OF i] by blast
qed

end
