(* ===== verification/Process.thy ===== *)
theory Process
  imports Heap
begin

text \<open>
  Process control blocks and the process table, \<^verbatim>\<open>src/process/process.h\<close> and the
  bookkeeping half of \<^verbatim>\<open>src/process/process.c\<close>, over one record for the kernel
  state that process management, the scheduler and the system calls share. A
  \<^verbatim>\<open>process_t *\<close> is the index of its slot, NULL is \<^const>\<open>None\<close>; the table is a
  function on indices of which the code uses the first 64. Operations that the code brackets with
  \<^verbatim>\<open>cli\<close> and \<^verbatim>\<open>sti\<close> are single steps.
\<close>

section \<open>State\<close>

abbreviation (input) PROCESS_MAX :: nat where "PROCESS_MAX \<equiv> 64"
abbreviation (input) PROCESS_NAME_LEN :: nat where "PROCESS_NAME_LEN \<equiv> 32"
abbreviation (input) PROCESS_KSTACK_SIZE :: u32 where "PROCESS_KSTACK_SIZE \<equiv> 16384"
abbreviation (input) PROCESS_USTACK_SIZE :: u32 where "PROCESS_USTACK_SIZE \<equiv> 16384"
abbreviation (input) PRIORITY_LEVELS :: nat where "PRIORITY_LEVELS \<equiv> 3"
abbreviation (input) SCHED_QUANTUM_TICKS :: u32 where "SCHED_QUANTUM_TICKS \<equiv> 5"

datatype process_state = UNUSED | READY | RUNNING | BLOCKED | SLEEPING | ZOMBIE

record process =
  pid :: u32
  ppid :: u32
  pname :: "char list"
  state :: process_state
  priority :: u8
  base_priority :: u8
  quantum_left :: u32
  wait_ticks :: u32
  cpu_ticks :: u64
  nxt :: "nat option"
  kstack :: u32
  kstack_top :: u32
  esp :: u32
  is_user :: bool
  ustack :: u32
  ustack_top :: u32
  user_entry :: u32
  sleep_until :: u64
  exit_code :: int
  parent_waiting :: bool

text \<open>The registers that a context switch saves and restores.\<close>

record cpu =
  r_esp :: u32
  r_ebp :: u32
  r_ebx :: u32
  r_esi :: u32
  r_edi :: u32
  r_eflags :: u32
  r_eip :: u32

record system =
  process_table :: "nat \<Rightarrow> process"
  next_pid :: u32
  current_process :: "nat option"
  queue_head :: "nat \<Rightarrow> nat option"
  queue_tail :: "nat \<Rightarrow> nat option"
  started :: bool
  context_switches :: u64
  system_ticks :: u64
  tss_esp0 :: u32
  kheap_st :: heap
  mem :: "u32 \<Rightarrow> u32"
  cpu_regs :: cpu

abbreviation proc :: "system \<Rightarrow> nat \<Rightarrow> process" where "proc s i \<equiv> process_table s i"

text \<open>The running process; the code reads it only once \<^verbatim>\<open>process_init\<close> has set it.\<close>

abbreviation cur :: "system \<Rightarrow> nat" where "cur s \<equiv> the (current_process s)"

text \<open>\<^verbatim>\<open>p->field = ...\<close>\<close>

definition upd :: "nat \<Rightarrow> (process \<Rightarrow> process) \<Rightarrow> system \<Rightarrow> system" where
  "upd i f s = s\<lparr>process_table := (process_table s)(i := f (process_table s i))\<rparr>"

lemma upd_simps [simp]:
  "process_table (upd i f s) = (process_table s)(i := f (process_table s i))"
  "next_pid (upd i f s) = next_pid s" "current_process (upd i f s) = current_process s"
  "queue_head (upd i f s) = queue_head s" "queue_tail (upd i f s) = queue_tail s"
  "started (upd i f s) = started s" "context_switches (upd i f s) = context_switches s"
  "system_ticks (upd i f s) = system_ticks s" "tss_esp0 (upd i f s) = tss_esp0 s"
  "kheap_st (upd i f s) = kheap_st s" "mem (upd i f s) = mem s" "cpu_regs (upd i f s) = cpu_regs s"
  by (simp_all add: upd_def)

section \<open>Table operations\<close>

definition NUL :: char where "NUL = CHR 0x00"

text \<open>The zeroed control block.\<close>

definition pcb_zero :: process where
  "pcb_zero = \<lparr>pid = 0, ppid = 0, pname = replicate PROCESS_NAME_LEN NUL, state = UNUSED, priority = 0,
     base_priority = 0, quantum_left = 0, wait_ticks = 0, cpu_ticks = 0, nxt = None, kstack = 0,
     kstack_top = 0, esp = 0, is_user = False, ustack = 0, ustack_top = 0, user_entry = 0,
     sleep_until = 0, exit_code = 0, parent_waiting = False\<rparr>"

text \<open>
  The name is a C string: the characters of \<open>name\<close>, followed by NUL. The loop copies at
  most 31 of them.
\<close>

function copy_name_loop :: "char list \<Rightarrow> nat \<Rightarrow> char list \<Rightarrow> char list" where
  "copy_name_loop name i buf =
     (if i < length name \<and> name ! i \<noteq> NUL \<and> i < PROCESS_NAME_LEN - 1
      then copy_name_loop name (i + 1) (buf[i := name ! i])
      else buf[i := NUL])"
  by pat_completeness auto
termination by (relation "measure (\<lambda>(name, i, buf). 32 - i)") auto

declare copy_name_loop.simps [simp del]

definition copy_name :: "char list option \<Rightarrow> process \<Rightarrow> process" where
  "copy_name name p =
     (case name of None \<Rightarrow> p\<lparr>pname := (pname p)[0 := NUL]\<rparr>
      | Some nm \<Rightarrow> p\<lparr>pname := copy_name_loop nm 0 (pname p)\<rparr>)"

definition alloc_pcb :: "system \<Rightarrow> nat option \<times> system" where
  "alloc_pcb s =
     (case find (\<lambda>i. state (proc s i) = UNUSED) [0..<PROCESS_MAX] of
        None \<Rightarrow> (None, s)
      | Some i \<Rightarrow> (Some i, (upd i (\<lambda>_. pcb_zero\<lparr>pid := next_pid s\<rparr>) s)\<lparr>next_pid := next_pid s + 1\<rparr>))"

definition process_init :: "system \<Rightarrow> system" where
  "process_init s =
     (let s1 = fold (\<lambda>i. upd i (\<lambda>p. p\<lparr>state := UNUSED\<rparr>)) [0..<PROCESS_MAX] s;
          s2 = upd 0 (\<lambda>_. copy_name (Some ''idle'')
                 (pcb_zero\<lparr>pid := 0, ppid := 0, state := RUNNING, priority := 2, base_priority := 2,
                           quantum_left := SCHED_QUANTUM_TICKS\<rparr>)) s1
      in s2\<lparr>current_process := Some 0\<rparr>)"

definition process_getpid :: "system \<Rightarrow> u32" where
  "process_getpid s = (case current_process s of None \<Rightarrow> 0 | Some c \<Rightarrow> pid (proc s c))"

definition process_getppid :: "system \<Rightarrow> u32" where
  "process_getppid s = (case current_process s of None \<Rightarrow> 0 | Some c \<Rightarrow> ppid (proc s c))"

definition process_by_pid :: "u32 \<Rightarrow> system \<Rightarrow> nat option" where
  "process_by_pid p s = find (\<lambda>i. state (proc s i) \<noteq> UNUSED \<and> pid (proc s i) = p) [0..<PROCESS_MAX]"

definition process_table_entry :: "int \<Rightarrow> nat option" where
  "process_table_entry index = (if index < 0 \<or> index \<ge> 64 then None else Some (nat index))"

definition process_state_name :: "process_state \<Rightarrow> string" where
  "process_state_name st =
     (case st of UNUSED \<Rightarrow> ''unused'' | READY \<Rightarrow> ''ready'' | RUNNING \<Rightarrow> ''running'' | BLOCKED \<Rightarrow> ''blocked''
      | SLEEPING \<Rightarrow> ''sleeping'' | ZOMBIE \<Rightarrow> ''zombie'')"

definition process_count :: "system \<Rightarrow> nat" where
  "process_count s = fold (\<lambda>i n. if state (proc s i) \<noteq> UNUSED then n + 1 else n) [0..<PROCESS_MAX] 0"

definition process_release :: "nat option \<Rightarrow> system \<Rightarrow> system" where
  "process_release p s =
     (case p of None \<Rightarrow> s
      | Some i \<Rightarrow>
          if current_process s = Some i then s
          else let s1 = (if kstack (proc s i) \<noteq> 0
                         then upd i (\<lambda>p. p\<lparr>kstack := 0\<rparr>) (s\<lparr>kheap_st := kfree (kstack (proc s i)) (kheap_st s)\<rparr>) else s);
                   s2 = (if ustack (proc s1 i) \<noteq> 0
                         then upd i (\<lambda>p. p\<lparr>ustack := 0\<rparr>) (s1\<lparr>kheap_st := kfree (ustack (proc s1 i)) (kheap_st s1)\<rparr>) else s1)
               in upd i (\<lambda>p. p\<lparr>state := UNUSED, pid := 0\<rparr>) s2)"

section \<open>Facts about the table\<close>

lemma process_by_pid_Some:
  "process_by_pid p s = Some i \<Longrightarrow> i < 64 \<and> state (proc s i) \<noteq> UNUSED \<and> pid (proc s i) = p"
  by (simp add: process_by_pid_def find_upt_Some_iff)

lemma alloc_pcb_cases:
  obtains (full) "alloc_pcb s = (None, s)" "\<And>i. i < 64 \<Longrightarrow> state (proc s i) \<noteq> UNUSED"
    | (slot) i where "i < 64" "state (proc s i) = UNUSED"
        "alloc_pcb s = (Some i, (upd i (\<lambda>_. pcb_zero\<lparr>pid := next_pid s\<rparr>) s)\<lparr>next_pid := next_pid s + 1\<rparr>)"
proof (cases "find (\<lambda>i. state (proc s i) = UNUSED) [0..<64]")
  case None
  then have "state (proc s i) \<noteq> UNUSED" if "i < 64" for i using that by (simp add: find_upt_None_iff)
  moreover have "alloc_pcb s = (None, s)" using None by (simp add: alloc_pcb_def)
  ultimately show thesis using full by blast
next
  case (Some i)
  then have "i < 64" "state (proc s i) = UNUSED" by (simp_all add: find_upt_Some_iff)
  then show thesis using slot [of i] Some by (simp add: alloc_pcb_def)
qed

lemma copy_name_simps [simp]:
  "pid (copy_name n p) = pid p" "ppid (copy_name n p) = ppid p" "state (copy_name n p) = state p"
  "priority (copy_name n p) = priority p" "base_priority (copy_name n p) = base_priority p"
  "quantum_left (copy_name n p) = quantum_left p" "wait_ticks (copy_name n p) = wait_ticks p"
  "cpu_ticks (copy_name n p) = cpu_ticks p" "nxt (copy_name n p) = nxt p" "kstack (copy_name n p) = kstack p"
  "kstack_top (copy_name n p) = kstack_top p" "esp (copy_name n p) = esp p" "is_user (copy_name n p) = is_user p"
  "ustack (copy_name n p) = ustack p" "ustack_top (copy_name n p) = ustack_top p"
  "user_entry (copy_name n p) = user_entry p" "sleep_until (copy_name n p) = sleep_until p"
  "exit_code (copy_name n p) = exit_code p" "parent_waiting (copy_name n p) = parent_waiting p"
  by (simp_all add: copy_name_def split: option.splits)

lemma length_copy_name_loop [simp]: "length (copy_name_loop nm i buf) = length buf"
  by (induction nm i buf rule: copy_name_loop.induct) (subst copy_name_loop.simps, simp)

text \<open>The copied name: at most 31 characters, then NUL.\<close>

lemma copy_name_loop_spec:
  assumes "length buf = 32" and "i \<le> 31"
  shows "take (length (takeWhile (\<lambda>c. c \<noteq> NUL) (take (31 - i) (drop i nm)))) (drop i (copy_name_loop nm i buf))
      = takeWhile (\<lambda>c. c \<noteq> NUL) (take (31 - i) (drop i nm)) \<and>
    copy_name_loop nm i buf ! (i + length (takeWhile (\<lambda>c. c \<noteq> NUL) (take (31 - i) (drop i nm)))) = NUL \<and>
    take i (copy_name_loop nm i buf) = take i buf"
  using assms
proof (induction nm i buf rule: copy_name_loop.induct)
  case (1 nm i buf)
  show ?case
  proof (cases "i < length nm \<and> nm ! i \<noteq> NUL \<and> i < 31")
    case True
    let ?b = "buf[i := nm ! i]" and ?w = "takeWhile (\<lambda>c. c \<noteq> NUL) (take (31 - Suc i) (drop (Suc i) nm))"
    have d: "take (31 - i) (drop i nm) = nm ! i # take (31 - Suc i) (drop (Suc i) nm)"
      using True by (metis Cons_nth_drop_Suc Suc_diff_Suc take_Suc_Cons)
    have u: "copy_name_loop nm i buf = copy_name_loop nm (Suc i) ?b" using True by (subst copy_name_loop.simps) simp
    have ih: "take (length ?w) (drop (Suc i) (copy_name_loop nm (Suc i) ?b)) = ?w"
        "copy_name_loop nm (Suc i) ?b ! (Suc i + length ?w) = NUL"
        "take (Suc i) (copy_name_loop nm (Suc i) ?b) = take (Suc i) ?b"
      using 1 True by auto
    have "i < length ?b" using 1(2) True by simp
    then have n: "copy_name_loop nm (Suc i) ?b ! i = nm ! i"
      using arg_cong [OF ih(3), of "\<lambda>l. l ! i"] by simp
    have "drop i (copy_name_loop nm (Suc i) ?b) = nm ! i # drop (Suc i) (copy_name_loop nm (Suc i) ?b)"
      using n 1(2) True by (metis Cons_nth_drop_Suc length_copy_name_loop length_list_update \<open>i < length ?b\<close>)
    moreover have "take i (copy_name_loop nm (Suc i) ?b) = take i buf"
      using arg_cong [OF ih(3), of "take i"] by simp
    ultimately show ?thesis using ih(1,2) True by (simp add: d u)
  next
    case False
    then have u: "copy_name_loop nm i buf = buf[i := NUL]" by (subst copy_name_loop.simps) auto
    have "takeWhile (\<lambda>c. c \<noteq> NUL) (take (31 - i) (drop i nm)) = []"
    proof (cases "i < length nm \<and> i < 31")
      case True
      then have "take (31 - i) (drop i nm) = nm ! i # take (31 - Suc i) (drop (Suc i) nm)"
        by (metis Cons_nth_drop_Suc Suc_diff_Suc take_Suc_Cons)
      then show ?thesis using False True by simp
    qed auto
    then show ?thesis using 1 u by simp
  qed
qed

lemma kfree_null [simp]: "kfree 0 h = h"
  by (simp add: kfree_def)

lemma process_release_eq:
  assumes "current_process s \<noteq> Some i"
  shows "process_release (Some i) s =
    (upd i (\<lambda>p. p\<lparr>kstack := 0, ustack := 0, state := UNUSED, pid := 0\<rparr>) s)
      \<lparr>kheap_st := kfree (ustack (proc s i)) (kfree (kstack (proc s i)) (kheap_st s))\<rparr>"
proof -
  have k: "p\<lparr>kstack := 0, ustack := 0, state := UNUSED, pid := 0\<rparr> = p\<lparr>ustack := 0, state := UNUSED, pid := 0\<rparr>"
    if "kstack p = 0" for p :: process using that by (cases p) simp
  have u: "p\<lparr>kstack := k, ustack := 0, state := UNUSED, pid := 0\<rparr> = p\<lparr>kstack := k, state := UNUSED, pid := 0\<rparr>"
    if "ustack p = 0" for p :: process and k using that by (cases p) simp
  have ku: "p\<lparr>ustack := 0, state := UNUSED, pid := 0\<rparr> = p\<lparr>state := UNUSED, pid := 0\<rparr>"
    if "ustack p = 0" for p :: process using that by (cases p) simp
  have kk: "p\<lparr>kstack := 0, state := UNUSED, pid := 0\<rparr> = p\<lparr>state := UNUSED, pid := 0\<rparr>"
    if "kstack p = 0" for p :: process using that by (cases p) simp
  show ?thesis
    using assms by (cases "kstack (proc s i) = 0"; cases "ustack (proc s i) = 0")
      (simp_all add: process_release_def Let_def upd_def k u ku kk)
qed

end
