(* ===== verification/Scheduler.thy ===== *)
theory Scheduler
  imports Process "HOL-Library.Monad_Syntax"
begin

text \<open>
  The scheduler, \<^verbatim>\<open>src/process/scheduler.c\<close>, with the context switch of
  \<^verbatim>\<open>src/arch/x86/context.S\<close>: three FIFO ready queues threaded through the
  \<^verbatim>\<open>next\<close> links of the control blocks, aging, timed wake-up and preemption. A walk along a
  queue is a partial function; on the queues that the code builds it always ends. The queues are
  refined to three lists of slots, and the theorems are stated on these lists.
\<close>

section \<open>Context switch\<close>

text \<open>
  \<open>context_switch p new\<close>: the registers are pushed on the running stack, whose pointer is
  stored in the control block \<open>p\<close>; then the registers are popped from \<open>new\<close>.
\<close>

definition push_word :: "u32 \<Rightarrow> system \<Rightarrow> system" where
  "push_word v s =
     (let sp = r_esp (cpu_regs s) - 4
      in s\<lparr>cpu_regs := (cpu_regs s)\<lparr>r_esp := sp\<rparr>, mem := (mem s)(sp := v)\<rparr>)"

definition context_switch :: "nat \<Rightarrow> u32 \<Rightarrow> system \<Rightarrow> system" where
  "context_switch p new s =
     (let r = cpu_regs s;
          s1 = push_word (r_edi r) (push_word (r_esi r) (push_word (r_ebx r) (push_word (r_ebp r)
                 (push_word (r_eflags r) s))));
          s2 = upd p (\<lambda>q. q\<lparr>esp := r_esp (cpu_regs s1)\<rparr>) s1
      in s2\<lparr>cpu_regs := \<lparr>r_esp = new + 24, r_ebp = mem s2 (new + 12), r_ebx = mem s2 (new + 8),
                        r_esi = mem s2 (new + 4), r_edi = mem s2 new,
                        r_eflags = mem s2 (new + 16), r_eip = mem s2 (new + 20)\<rparr>\<rparr>)"

section \<open>Ready queues\<close>

definition scheduler_enqueue :: "nat option \<Rightarrow> system \<Rightarrow> system" where
  "scheduler_enqueue p s =
     (case p of None \<Rightarrow> s
      | Some i \<Rightarrow>
          if pid (proc s i) = 0 then s
          else let s1 = upd i (\<lambda>p. p\<lparr>nxt := None, wait_ticks := 0\<rparr>) s;
                   q0 = unat (priority (proc s i));
                   q = (if q0 \<ge> PRIORITY_LEVELS then PRIORITY_LEVELS - 1 else q0)
               in case queue_tail s1 q of
                    Some t \<Rightarrow> (upd t (\<lambda>p. p\<lparr>nxt := Some i\<rparr>) s1)\<lparr>queue_tail := (queue_tail s1)(q := Some i)\<rparr>
                  | None \<Rightarrow> s1\<lparr>queue_head := (queue_head s1)(q := Some i), queue_tail := (queue_tail s1)(q := Some i)\<rparr>)"

text \<open>Unlinking the entry \<open>i\<close> of queue \<open>q\<close>, whose predecessor is \<open>prev\<close>.\<close>

definition unlink_entry :: "nat \<Rightarrow> nat option \<Rightarrow> nat \<Rightarrow> system \<Rightarrow> system" where
  "unlink_entry q prev i s =
     (let s1 = (case prev of
                  Some r \<Rightarrow> upd r (\<lambda>p. p\<lparr>nxt := nxt (proc s i)\<rparr>) s
                | None \<Rightarrow> s\<lparr>queue_head := (queue_head s)(q := nxt (proc s i))\<rparr>);
          s2 = (if queue_tail s1 q = Some i then s1\<lparr>queue_tail := (queue_tail s1)(q := prev)\<rparr> else s1)
      in upd i (\<lambda>p. p\<lparr>nxt := None\<rparr>) s2)"

text \<open>The walk over one queue: the state with \<open>p\<close> unlinked, or \<^const>\<open>None\<close> if it is not there.\<close>

partial_function (option) dequeue_walk :: "nat \<Rightarrow> nat \<Rightarrow> nat option \<Rightarrow> nat option \<Rightarrow> system \<Rightarrow> system option option" where
  "dequeue_walk q p prev it s =
     (case it of None \<Rightarrow> Some None
      | Some i \<Rightarrow> if i \<noteq> p then dequeue_walk q p (Some i) (nxt (proc s i)) s
                  else Some (Some (unlink_entry q prev i s)))"

fun dequeue_from :: "nat list \<Rightarrow> nat \<Rightarrow> system \<Rightarrow> system option" where
  "dequeue_from [] p s = Some s"
| "dequeue_from (q # qs) p s = do {
     r \<leftarrow> dequeue_walk q p None (queue_head s q) s;
     case r of Some s' \<Rightarrow> Some s' | None \<Rightarrow> dequeue_from qs p s }"

definition scheduler_dequeue :: "nat option \<Rightarrow> system \<Rightarrow> system option" where
  "scheduler_dequeue p s = (case p of None \<Rightarrow> Some s | Some i \<Rightarrow> dequeue_from [0..<PRIORITY_LEVELS] i s)"

fun pick_from :: "nat list \<Rightarrow> system \<Rightarrow> nat option \<times> system" where
  "pick_from [] s = (None, s)"
| "pick_from (q # qs) s =
     (case queue_head s q of
        Some p \<Rightarrow>
          let s1 = s\<lparr>queue_head := (queue_head s)(q := nxt (proc s p))\<rparr>;
              s2 = (if queue_head s1 q = None then s1\<lparr>queue_tail := (queue_tail s1)(q := None)\<rparr> else s1)
          in (Some p, upd p (\<lambda>r. r\<lparr>nxt := None\<rparr>) s2)
      | None \<Rightarrow> pick_from qs s)"

definition pick_next :: "system \<Rightarrow> nat option \<times> system" where
  "pick_next s = pick_from [0..<PRIORITY_LEVELS] s"

section \<open>Housekeeping\<close>

definition reap_entry :: "nat \<Rightarrow> system \<Rightarrow> system" where
  "reap_entry i s =
     (if state (proc s i) \<noteq> ZOMBIE \<or> current_process s = Some i then s
      else case process_by_pid (ppid (proc s i)) s of
             None \<Rightarrow> process_release (Some i) s
           | Some r \<Rightarrow> if state (proc s r) = UNUSED \<or> state (proc s r) = ZOMBIE \<or> pid (proc s r) = 0
                       then process_release (Some i) s else s)"

definition reap_orphans :: "system \<Rightarrow> system" where
  "reap_orphans s = fold reap_entry [0..<PROCESS_MAX] s"

abbreviation (input) AGING_THRESHOLD :: u32 where "AGING_THRESHOLD \<equiv> 200"

definition age_entry :: "nat \<Rightarrow> nat \<Rightarrow> system \<Rightarrow> system option" where
  "age_entry q i s =
     (let s1 = upd i (\<lambda>p. p\<lparr>wait_ticks := wait_ticks p + 1\<rparr>) s
      in if wait_ticks (proc s1 i) > AGING_THRESHOLD
         then do {
           s2 \<leftarrow> scheduler_dequeue (Some i) s1;
           Some (scheduler_enqueue (Some i) (upd i (\<lambda>p. p\<lparr>priority := of_nat (q - 1)\<rparr>) s2)) }
         else Some s1)"

partial_function (option) age_walk :: "nat \<Rightarrow> nat option \<Rightarrow> system \<Rightarrow> system option" where
  "age_walk q it s =
     (case it of None \<Rightarrow> Some s
      | Some i \<Rightarrow> do { s1 \<leftarrow> age_entry q i s; age_walk q (nxt (proc s i)) s1 })"

definition apply_aging :: "system \<Rightarrow> system option" where
  "apply_aging s = do { s1 \<leftarrow> age_walk 1 (queue_head s 1) s; age_walk 2 (queue_head s1 2) s1 }"

definition wake_entry :: "u64 \<Rightarrow> nat \<Rightarrow> system \<Rightarrow> system" where
  "wake_entry now i s =
     (if state (proc s i) \<noteq> SLEEPING then s
      else if now \<ge> sleep_until (proc s i)
      then scheduler_enqueue (Some i) (upd i (\<lambda>p. p\<lparr>state := READY\<rparr>) s) else s)"

definition wake_sleepers :: "u64 \<Rightarrow> system \<Rightarrow> system" where
  "wake_sleepers now s = fold (wake_entry now) [0..<PROCESS_MAX] s"

section \<open>Core\<close>

definition scheduler_start :: "system \<Rightarrow> system" where
  "scheduler_start s = s\<lparr>started := True\<rparr>"

definition scheduler_active :: "system \<Rightarrow> bool" where
  "scheduler_active s = started s"

definition tss_set_kernel_stack :: "u32 \<Rightarrow> system \<Rightarrow> system" where
  "tss_set_kernel_stack v s = s\<lparr>tss_esp0 := v\<rparr>"

text \<open>The second half of \<^verbatim>\<open>schedule\<close>: from \<open>prev\<close> to \<open>next\<close>.\<close>

definition switch_to :: "nat \<Rightarrow> nat \<Rightarrow> system \<Rightarrow> system" where
  "switch_to prev next s =
     (let s1 = (if state (proc s prev) = RUNNING
                then scheduler_enqueue (Some prev)
                       (upd prev (\<lambda>p. p\<lparr>state := READY, priority := base_priority p\<rparr>) s)
                else s);
          s2 = upd next (\<lambda>p. p\<lparr>state := RUNNING, priority := base_priority p, quantum_left := SCHED_QUANTUM_TICKS\<rparr>) s1;
          s3 = s2\<lparr>current_process := Some next, context_switches := context_switches s2 + 1\<rparr>;
          s4 = tss_set_kernel_stack (if kstack_top (proc s3 next) \<noteq> 0 then kstack_top (proc s3 next) else 0) s3
      in if prev \<noteq> next then context_switch prev (esp (proc s4 next)) s4 else s4)"

definition schedule :: "system \<Rightarrow> system" where
  "schedule s =
     (if \<not> started s then s
      else let s1 = reap_orphans s;
               prev = cur s1;
               (next, s2) = pick_next s1
           in case next of
                Some n \<Rightarrow> switch_to prev n s2
              | None \<Rightarrow>
                  if state (proc s2 prev) = RUNNING
                  then upd prev (\<lambda>p. p\<lparr>quantum_left := SCHED_QUANTUM_TICKS\<rparr>) s2
                  else (case process_by_pid 0 s2 of
                          None \<Rightarrow> s2
                        | Some n \<Rightarrow> if n = prev then s2 else switch_to prev n s2))"

text \<open>Whether a process of higher priority waits, as the tick handler decides it.\<close>

definition higher_ready :: "system \<Rightarrow> bool" where
  "higher_ready s =
     (list_ex (\<lambda>q. queue_head s q \<noteq> None) [0..<unat (priority (proc s (cur s)))] \<or>
      pid (proc s (cur s)) = 0 \<and> list_ex (\<lambda>q. queue_head s q \<noteq> None) [0..<PRIORITY_LEVELS])"

definition scheduler_tick :: "system \<Rightarrow> system option" where
  "scheduler_tick s =
     (if \<not> started s then Some s
      else let now = system_ticks s;
               s1 = upd (cur s) (\<lambda>p. p\<lparr>cpu_ticks := cpu_ticks p + 1\<rparr>) s;
               s2 = wake_sleepers now s1
           in do {
             s3 \<leftarrow> apply_aging s2;
             let hr = higher_ready s3;
             let c = cur s3;
             let s4 = (if quantum_left (proc s3 c) > 0 then upd c (\<lambda>p. p\<lparr>quantum_left := quantum_left p - 1\<rparr>) s3 else s3);
             Some (if hr \<or> quantum_left (proc s4 c) = 0 then schedule s4 else s4) })"

definition scheduler_yield :: "system \<Rightarrow> system" where
  "scheduler_yield s =
     (if started s then schedule (upd (cur s) (\<lambda>p. p\<lparr>quantum_left := 0\<rparr>) s) else s)"

definition scheduler_block_current :: "system \<Rightarrow> system" where
  "scheduler_block_current s = schedule s"

definition scheduler_unblock :: "nat option \<Rightarrow> system \<Rightarrow> system" where
  "scheduler_unblock p s =
     (case p of None \<Rightarrow> s
      | Some i \<Rightarrow> if state (proc s i) = BLOCKED \<or> state (proc s i) = SLEEPING
                  then scheduler_enqueue (Some i) (upd i (\<lambda>p. p\<lparr>state := READY\<rparr>) s) else s)"

partial_function (option) queue_length :: "system \<Rightarrow> nat option \<Rightarrow> u32 \<Rightarrow> u32 option" where
  "queue_length s it n = (case it of None \<Rightarrow> Some n | Some i \<Rightarrow> queue_length s (nxt (proc s i)) (n + 1))"

record sched_stats =
  ss_context_switches :: u64
  ss_ticks :: u64
  ss_ready_count :: "u32 list"

definition scheduler_get_stats :: "system \<Rightarrow> sched_stats option" where
  "scheduler_get_stats s = do {
     n0 \<leftarrow> queue_length s (queue_head s 0) 0;
     n1 \<leftarrow> queue_length s (queue_head s 1) 0;
     n2 \<leftarrow> queue_length s (queue_head s 2) 0;
     Some \<lparr>ss_context_switches = context_switches s, ss_ticks = system_ticks s, ss_ready_count = [n0, n1, n2]\<rparr> }"

section \<open>Queues as lists\<close>

text \<open>\<open>linked n a xs\<close>: following the links \<open>n\<close> from \<open>a\<close> meets \<open>xs\<close> and ends with NULL.\<close>

fun linked :: "(nat \<Rightarrow> nat option) \<Rightarrow> nat option \<Rightarrow> nat list \<Rightarrow> bool" where
  "linked n a [] \<longleftrightarrow> a = None"
| "linked n a (x # xs) \<longleftrightarrow> a = Some x \<and> linked n (n x) xs"

definition first :: "nat list \<Rightarrow> nat option" where
  "first xs = (case xs of [] \<Rightarrow> None | x # _ \<Rightarrow> Some x)"

definition final :: "nat list \<Rightarrow> nat option" where
  "final xs = (if xs = [] then None else Some (last xs))"

lemma first_simps [simp]: "first [] = None" "first (x # xs) = Some x" "first xs = None \<longleftrightarrow> xs = []"
  by (simp_all add: first_def split: list.splits)

lemma final_simps [simp]: "final [] = None" "final (xs @ [x]) = Some x" "final xs = None \<longleftrightarrow> xs = []"
    "final (x # xs) = Some (last (x # xs))"
  by (simp_all add: final_def)

lemma linked_first: "linked n a xs \<Longrightarrow> a = first xs"
  by (cases xs) auto

lemma linked_frame: "(\<And>x. x \<in> set xs \<Longrightarrow> n x = m x) \<Longrightarrow> linked n a xs = linked m a xs"
  by (induction xs arbitrary: a) auto

lemma linked_upd [simp]: "p \<notin> set xs \<Longrightarrow> linked (n(p := v)) a xs = linked n a xs"
  by (rule linked_frame) auto

lemma linked_snoc:
  "linked n a xs \<Longrightarrow> xs \<noteq> [] \<Longrightarrow> distinct xs \<Longrightarrow> y \<notin> set xs \<Longrightarrow> linked (n(last xs := Some y, y := None)) a (xs @ [y])"
proof (induction xs arbitrary: a)
  case (Cons x xs)
  then show ?case
    by (cases "xs = []") (auto dest: last_in_set)
qed simp

lemma linked_remove:
  "linked n a (xs @ y # ys) \<Longrightarrow> xs \<noteq> [] \<Longrightarrow> distinct (xs @ y # ys) \<Longrightarrow> linked (n(last xs := n y, y := v)) a (xs @ ys)"
proof (induction xs arbitrary: a)
  case (Cons x xs)
  show ?case
  proof (cases "xs = []")
    case True
    have "linked (n(x := n y, y := v)) (n y) ys = linked n (n y) ys" using Cons.prems(3) by (intro linked_frame) auto
    then show ?thesis using Cons.prems True by (simp del: fun_upd_apply) (simp add: fun_upd_apply [of _ y _ x] fun_upd_same)
  next
    case False
    then show ?thesis using Cons by (auto dest: last_in_set)
  qed
qed simp

lemma linked_split: "linked n a (xs @ y # ys) \<Longrightarrow> linked n (n y) ys"
  by (induction xs arbitrary: a) auto

text \<open>The three queues: heads, tails and links represent the lists \<open>Q\<close>, which share no slot.\<close>

definition ready_queues :: "(nat \<Rightarrow> nat option) \<Rightarrow> (nat \<Rightarrow> nat option) \<Rightarrow> (nat \<Rightarrow> nat option) \<Rightarrow> (nat \<Rightarrow> nat list) \<Rightarrow> bool" where
  "ready_queues n h t Q \<longleftrightarrow>
     (\<forall>q<3. linked n (h q) (Q q) \<and> t q = final (Q q) \<and> distinct (Q q)) \<and>
     (\<forall>q<3. \<forall>r<3. q \<noteq> r \<longrightarrow> set (Q q) \<inter> set (Q r) = {})"

abbreviation queues :: "system \<Rightarrow> (nat \<Rightarrow> nat list) \<Rightarrow> bool" where
  "queues s Q \<equiv> ready_queues (\<lambda>i. nxt (proc s i)) (queue_head s) (queue_tail s) Q"

text \<open>The state with other links, heads and tails, and nothing else changed.\<close>

definition relinked :: "(nat \<Rightarrow> nat option) \<Rightarrow> (nat \<Rightarrow> nat option) \<Rightarrow> (nat \<Rightarrow> nat option) \<Rightarrow> system \<Rightarrow> system" where
  "relinked n h t s = s\<lparr>process_table := (\<lambda>j. (process_table s j)\<lparr>nxt := n j\<rparr>), queue_head := h, queue_tail := t\<rparr>"

lemma relinked_simps [simp]:
  "process_table (relinked n h t s) = (\<lambda>j. (process_table s j)\<lparr>nxt := n j\<rparr>)"
  "queue_head (relinked n h t s) = h" "queue_tail (relinked n h t s) = t"
  "next_pid (relinked n h t s) = next_pid s" "current_process (relinked n h t s) = current_process s"
  "started (relinked n h t s) = started s" "context_switches (relinked n h t s) = context_switches s"
  "system_ticks (relinked n h t s) = system_ticks s" "tss_esp0 (relinked n h t s) = tss_esp0 s"
  "kheap_st (relinked n h t s) = kheap_st s" "mem (relinked n h t s) = mem s" "cpu_regs (relinked n h t s) = cpu_regs s"
  by (simp_all add: relinked_def)

lemma relinked_id: "relinked (\<lambda>i. nxt (proc s i)) (queue_head s) (queue_tail s) s = s"
  by (simp add: relinked_def)

lemma system_eqI:
  assumes "\<And>j. proc s j = proc t j" "next_pid s = next_pid t" "current_process s = current_process t"
    "queue_head s = queue_head t" "queue_tail s = queue_tail t" "started s = started t"
    "context_switches s = context_switches t" "system_ticks s = system_ticks t" "tss_esp0 s = tss_esp0 t"
    "kheap_st s = kheap_st t" "mem s = mem t" "cpu_regs s = cpu_regs t"
  shows "s = (t :: system)"
  by (cases s, cases t) (use assms in auto)

lemma ready_queuesD:
  assumes "ready_queues n h t Q" and "q < 3"
  shows "linked n (h q) (Q q)" "t q = final (Q q)" "distinct (Q q)" "h q = first (Q q)"
  using assms linked_first by (auto simp: ready_queues_def)

lemma ready_queues_disjoint: "ready_queues n h t Q \<Longrightarrow> q < 3 \<Longrightarrow> r < 3 \<Longrightarrow> q \<noteq> r \<Longrightarrow> i \<in> set (Q q) \<Longrightarrow> i \<notin> set (Q r)"
  by (auto simp: ready_queues_def)

text \<open>Replacing one of the three lists, when the links of the two others are untouched.\<close>

lemma ready_queues_update:
  assumes "ready_queues n h t Q" and "q < 3" and "linked m hq xs" and "distinct xs"
    and "\<And>r x. r < 3 \<Longrightarrow> r \<noteq> q \<Longrightarrow> x \<in> set (Q r) \<Longrightarrow> m x = n x \<and> x \<notin> set xs"
  shows "ready_queues m (h(q := hq)) (t(q := final xs)) (Q(q := xs))"
proof -
  have "linked m (h r) (Q r)" if "r < 3" "r \<noteq> q" for r
    using linked_frame [of "Q r" m n "h r"] assms(5) [OF that] ready_queuesD(1) [OF assms(1) that(1)] by blast
  then show ?thesis
    using assms by (fastforce simp: ready_queues_def)
qed

lemma enqueue_refines:
  assumes Q: "queues s Q" and p: "pid (proc s i) \<noteq> 0" and q: "unat (priority (proc s i)) = q" "q < 3"
    and new: "\<And>r. r < 3 \<Longrightarrow> i \<notin> set (Q r)"
  obtains n h t where "scheduler_enqueue (Some i) s = relinked n h t (upd i (\<lambda>p. p\<lparr>wait_ticks := 0\<rparr>) s)"
    and "ready_queues n h t (Q(q := Q q @ [i]))"
proof -
  let ?n = "\<lambda>i. nxt (proc s i)" and ?t = "(queue_tail s)(q := final (Q q @ [i]))"
  note D = ready_queuesD [OF Q q(2)]
  show thesis
  proof (cases "Q q = []")
    case True
    let ?m = "?n(i := None)" and ?h = "(queue_head s)(q := Some i)"
    have "scheduler_enqueue (Some i) s = relinked ?m ?h ?t (upd i (\<lambda>p. p\<lparr>wait_ticks := 0\<rparr>) s)"
      using p q D True by (auto simp: scheduler_enqueue_def Let_def intro!: system_eqI)
    moreover have "ready_queues ?m ?h ?t (Q(q := Q q @ [i]))"
      using new True by (intro ready_queues_update [OF Q q(2)]) auto
    ultimately show thesis by (rule that)
  next
    case False
    let ?m = "?n(last (Q q) := Some i, i := None)" and ?h = "(queue_head s)(q := queue_head s q)"
    have l: "last (Q q) \<in> set (Q q)" "last (Q q) \<noteq> i" using False new [OF q(2)] last_in_set by metis+
    have "scheduler_enqueue (Some i) s = relinked ?m ?h ?t (upd i (\<lambda>p. p\<lparr>wait_ticks := 0\<rparr>) s)"
      using p q D False l(2) by (auto simp: scheduler_enqueue_def Let_def final_def intro!: system_eqI)
    moreover have "ready_queues ?m ?h ?t (Q(q := Q q @ [i]))"
    proof (rule ready_queues_update [OF Q q(2)])
      show "linked ?m (queue_head s q) (Q q @ [i])" using linked_snoc [OF D(1) False D(3)] new q(2) by blast
      show "distinct (Q q @ [i])" using D(3) new q(2) by auto
      show "?m x = ?n x \<and> x \<notin> set (Q q @ [i])" if "r < 3" "r \<noteq> q" "x \<in> set (Q r)" for r x
        using ready_queues_disjoint [OF Q that(1) q(2) that(2,3)] that new [OF that(1)] l(1) by auto
    qed
    ultimately show thesis by (rule that)
  qed
qed

lemma enqueue_idle [simp]: "pid (proc s i) = 0 \<Longrightarrow> scheduler_enqueue (Some i) s = s"
  by (simp add: scheduler_enqueue_def)

lemma pick_from_skip: "(\<And>q. q \<in> set ps \<Longrightarrow> queue_head s q = None) \<Longrightarrow> pick_from (ps @ qs) s = pick_from qs s"
  by (induction ps) auto

lemma pick_from_take:
  assumes Q: "queues s Q" and q: "q < 3" "Q q = x # xs"
  obtains n h t where "pick_from (q # qs) s = (Some x, relinked n h t s)" and "ready_queues n h t (Q(q := xs))"
    and "n x = None"
proof -
  let ?n = "\<lambda>i. nxt (proc s i)"
  note D = ready_queuesD [OF Q q(1)]
  let ?m = "?n(x := None)" and ?h = "(queue_head s)(q := ?n x)" and ?t = "(queue_tail s)(q := final xs)"
  have f: "?n x = first xs" "linked ?n (?n x) xs" using D(1) q(2) linked_first by auto
  have "pick_from (q # qs) s = (Some x, relinked ?m ?h ?t s)"
    using D q(2) f(1) by (cases "xs = []") (auto simp: Let_def final_def intro!: system_eqI)
  moreover have "ready_queues ?m ?h ?t (Q(q := xs))"
  proof (rule ready_queues_update [OF Q q(1)])
    show "linked ?m (?n x) xs" using f(2) D(3) q(2) by simp
    show "distinct xs" using D(3) q(2) by simp
    show "?m y = ?n y \<and> y \<notin> set xs" if "r < 3" "r \<noteq> q" "y \<in> set (Q r)" for r y
      using ready_queues_disjoint [OF Q that(1) q(1) that(2,3)] q(2) by auto
  qed
  ultimately show thesis using that by auto
qed

text \<open>The highest priority level at which a process waits.\<close>

definition top_queue :: "(nat \<Rightarrow> nat list) \<Rightarrow> nat option" where
  "top_queue Q = find (\<lambda>q. Q q \<noteq> []) [0..<3]"

lemma top_queue_None: "top_queue Q = None \<longleftrightarrow> (\<forall>q<3. Q q = [])"
  by (simp add: top_queue_def find_upt_None_iff)

lemma top_queue_Some: "top_queue Q = Some q \<longleftrightarrow> q < 3 \<and> Q q \<noteq> [] \<and> (\<forall>r<q. Q r = [])"
  by (simp add: top_queue_def find_upt_Some_iff)

lemma upt3: "[0..<3] = [0, 1, 2 :: nat]"
  by (simp add: upt_rec)

lemma less3: "q < 3 \<longleftrightarrow> q = 0 \<or> q = 1 \<or> q = (2 :: nat)"
  by auto

lemma pick_next_refines:
  assumes Q: "queues s Q"
  obtains (idle) "top_queue Q = None" "pick_next s = (None, s)"
    | (pick) q x xs n h t where "top_queue Q = Some q" "q < 3" "Q q = x # xs" "pick_next s = (Some x, relinked n h t s)"
        "ready_queues n h t (Q(q := xs))" "n x = None"
proof (cases "top_queue Q")
  case None
  then have "queue_head s q = None" if "q < 3" for q
    using ready_queuesD(4) [OF Q that] that by (simp add: top_queue_None)
  then have "pick_next s = (None, s)" by (simp add: pick_next_def upt3)
  with None show thesis by (rule idle)
next
  case (Some q)
  then have q: "q < 3" "Q q \<noteq> []" "\<And>r. r < q \<Longrightarrow> Q r = []" by (auto simp: top_queue_Some)
  then obtain x xs where x: "Q q = x # xs" by (cases "Q q") auto
  have "queue_head s r = None" if "r < q" for r
    using ready_queuesD(4) [OF Q, of r] q that by simp
  moreover have "[0..<3] = [0..<q] @ q # [q + 1..<3]" using q(1) upt_add_eq_append [of 0 q "3 - q"] upt_conv_Cons [of q 3] by simp
  ultimately have "pick_next s = pick_from (q # [q + 1..<3]) s"
    unfolding pick_next_def using pick_from_skip [of "[0..<q]" s "q # [q + 1..<3]"] by simp
  moreover obtain n h t where "pick_from (q # [q + 1..<3]) s = (Some x, relinked n h t s)" "ready_queues n h t (Q(q := xs))" "n x = None"
    using pick_from_take [OF Q q(1) x] by blast
  ultimately show thesis using pick [OF Some q(1) x] by simp
qed

lemma dequeue_walk_skip:
  assumes "linked (\<lambda>i. nxt (proc s i)) it xs" and "p \<notin> set xs"
  shows "dequeue_walk q p prev it s = Some None"
  using assms by (induction xs arbitrary: it prev) (simp_all add: dequeue_walk.simps)

lemma dequeue_walk_hit:
  assumes "linked (\<lambda>i. nxt (proc s i)) it (xs @ p # ys)" and "p \<notin> set xs"
  shows "dequeue_walk q p prev it s = Some (Some (unlink_entry q (if xs = [] then prev else Some (last xs)) p s))"
  using assms
proof (induction xs arbitrary: it prev)
  case Nil
  then show ?case by (simp add: dequeue_walk.simps)
next
  case (Cons x xs)
  then show ?case by (subst dequeue_walk.simps) simp
qed

lemma unlink_entry_refines:
  assumes Q: "queues s Q" and q: "q < 3" "Q q = xs @ p # ys"
  obtains n h t where "unlink_entry q (final xs) p s = relinked n h t s" and "ready_queues n h t (Q(q := xs @ ys))"
    and "n p = None"
proof -
  let ?n = "\<lambda>i. nxt (proc s i)"
  note D = ready_queuesD [OF Q q(1)]
  have px: "p \<notin> set xs" "p \<notin> set ys" using D(3) q(2) by auto
  have fy: "linked ?n (?n p) ys" using linked_split [of ?n "queue_head s q" xs p ys] D(1) q(2) by simp
  have pl: "queue_tail s q = Some p \<longleftrightarrow> ys = []"
    using D(2) q(2) px by (cases ys rule: rev_cases) (auto simp: final_def)
  let ?t = "(queue_tail s)(q := final (xs @ ys))"
  have other: "x \<notin> set xs \<and> x \<noteq> p \<and> x \<notin> set ys" if "r < 3" "r \<noteq> q" "x \<in> set (Q r)" for r x
    using ready_queues_disjoint [OF Q that(1) q(1) that(2,3)] q(2) by auto
  show thesis
  proof (cases "xs = []")
    case True
    let ?m = "?n(p := None)" and ?h = "(queue_head s)(q := ?n p)"
    have "unlink_entry q (final xs) p s = relinked ?m ?h ?t s"
      using True pl D(2) q(2) by (auto simp: unlink_entry_def Let_def final_def intro!: system_eqI)
    moreover have "ready_queues ?m ?h ?t (Q(q := xs @ ys))"
      using fy px D(3) q(2) other True by (intro ready_queues_update [OF Q q(1)]) auto
    ultimately show thesis using that by auto
  next
    case False
    let ?m = "?n(last xs := ?n p, p := None)" and ?h = "(queue_head s)(q := queue_head s q)"
    have l: "last xs \<in> set xs" "last xs \<noteq> p" using False px last_in_set by metis+
    have "unlink_entry q (final xs) p s = relinked ?m ?h ?t s"
      using False pl D(2) q(2) l by (auto simp: unlink_entry_def Let_def final_def intro!: system_eqI)
    moreover have "ready_queues ?m ?h ?t (Q(q := xs @ ys))"
    proof (rule ready_queues_update [OF Q q(1)])
      show "linked ?m (queue_head s q) (xs @ ys)" using linked_remove [of ?n] D(1,3) q(2) False by simp
      show "distinct (xs @ ys)" using D(3) q(2) by auto
      show "?m x = ?n x \<and> x \<notin> set (xs @ ys)" if "r < 3" "r \<noteq> q" "x \<in> set (Q r)" for r x
        using other [OF that] l(1) by auto
    qed
    ultimately show thesis using that by auto
  qed
qed

lemma dequeue_from_skip:
  assumes "queues s Q" and "\<And>q. q \<in> set ps \<Longrightarrow> q < 3 \<and> i \<notin> set (Q q)"
  shows "dequeue_from (ps @ qs) i s = dequeue_from qs i s"
  using assms(2)
proof (induction ps)
  case (Cons q ps)
  then have "dequeue_walk q i None (queue_head s q) s = Some None"
    using dequeue_walk_skip [of s _ "Q q"] ready_queuesD(1) [OF assms(1)] by simp
  with Cons show ?case by simp
qed simp

lemma dequeue_refines:
  assumes Q: "queues s Q" and q: "q < 3" "Q q = xs @ i # ys"
  obtains n h t where "scheduler_dequeue (Some i) s = Some (relinked n h t s)" and "ready_queues n h t (Q(q := xs @ ys))"
    and "n i = None"
proof -
  obtain n h t where u: "unlink_entry q (final xs) i s = relinked n h t s" "ready_queues n h t (Q(q := xs @ ys))" "n i = None"
    using unlink_entry_refines [OF Q q] by blast
  note D = ready_queuesD [OF Q q(1)]
  have "i \<notin> set (Q r)" if "r < q" for r
    using ready_queues_disjoint [OF Q q(1), of r i] that q by auto
  then have "dequeue_from ([0..<q] @ q # [q + 1..<3]) i s = dequeue_from (q # [q + 1..<3]) i s"
    using q(1) by (intro dequeue_from_skip [OF Q]) auto
  moreover have "dequeue_walk q i None (queue_head s q) s = Some (Some (relinked n h t s))"
    using dequeue_walk_hit [of s "queue_head s q" xs i ys q None] D(1,3) q(2) u(1) by (auto simp: final_def split: if_splits)
  moreover have "[0..<3] = [0..<q] @ q # [q + 1..<3]" using q(1) upt_add_eq_append [of 0 q "3 - q"] upt_conv_Cons [of q 3] by simp
  ultimately have "scheduler_dequeue (Some i) s = Some (relinked n h t s)"
    by (simp add: scheduler_dequeue_def)
  then show thesis using u(2,3) by (rule that)
qed

lemma dequeue_absent:
  assumes "queues s Q" and "\<And>q. q < 3 \<Longrightarrow> i \<notin> set (Q q)"
  shows "scheduler_dequeue (Some i) s = Some s"
  using dequeue_from_skip [OF assms(1), of "[0..<3]" i "[]"] assms(2) by (simp add: scheduler_dequeue_def)

end
