(* ===== verification/Sched_Inv.thy ===== *)
theory Sched_Inv
  imports Scheduler
begin

text \<open>
  The invariant of the process table and the ready queues, and that the scheduler keeps it: which
  slots are queued, who is running, and what each scheduling decision does to the three lists.
\<close>

section \<open>Invariant\<close>

text \<open>
  What holds of slot \<open>i\<close> with contents \<open>p\<close> when \<open>c\<close> is the running slot: slot 0 is the
  idle process, only the running slot may be RUNNING, and the slots in the queues are exactly the
  READY ones, each at the level of its priority.
\<close>

definition slot_ok :: "nat \<Rightarrow> (nat \<Rightarrow> nat list) \<Rightarrow> nat \<Rightarrow> process \<Rightarrow> bool" where
  "slot_ok c Q i p \<longleftrightarrow>
     (i = 0 \<longrightarrow> pid p = 0 \<and> state p \<noteq> UNUSED \<and> state p \<noteq> ZOMBIE) \<and>
     (i \<noteq> 0 \<and> state p \<noteq> UNUSED \<longrightarrow> pid p \<noteq> 0) \<and>
     (state p \<noteq> UNUSED \<longrightarrow> unat (base_priority p) < 3 \<and> unat (priority p) < 3) \<and>
     (i \<noteq> c \<longrightarrow> state p \<noteq> RUNNING) \<and>
     (i = c \<longrightarrow> state p \<noteq> UNUSED \<and> (i \<noteq> 0 \<longrightarrow> state p \<noteq> READY)) \<and>
     (\<forall>q<3. i \<in> set (Q q) \<longrightarrow> state p = READY \<and> unat (priority p) = q \<and> i \<noteq> c \<and> i \<noteq> 0) \<and>
     (state p = READY \<and> i \<noteq> c \<and> i \<noteq> 0 \<longrightarrow> (\<exists>q<3. i \<in> set (Q q)))"

text \<open>All of them, except for the slots in \<open>I\<close>, with \<open>c\<close> as the running slot.\<close>

definition sched_but :: "nat set \<Rightarrow> nat \<Rightarrow> system \<Rightarrow> (nat \<Rightarrow> nat list) \<Rightarrow> bool" where
  "sched_but I c s Q \<longleftrightarrow> queues s Q \<and> (\<forall>q<3. set (Q q) \<subseteq> {..<64}) \<and> c < 64 \<and>
     (\<forall>i<64. i \<notin> I \<longrightarrow> slot_ok c Q i (proc s i))"

definition sched_inv :: "system \<Rightarrow> (nat \<Rightarrow> nat list) \<Rightarrow> bool" where
  "sched_inv s Q \<longleftrightarrow> current_process s \<noteq> None \<and> sched_but {} (cur s) s Q"

text \<open>Between operations the running process is RUNNING, or it is the idle process.\<close>

definition sched_wf :: "system \<Rightarrow> (nat \<Rightarrow> nat list) \<Rightarrow> bool" where
  "sched_wf s Q \<longleftrightarrow> sched_inv s Q \<and> (state (proc s (cur s)) = RUNNING \<or> cur s = 0)"

lemma slot_ok_nxt [simp]:
  "slot_ok c Q i (p\<lparr>nxt := n\<rparr>) = slot_ok c Q i p" "slot_ok c Q i (p\<lparr>wait_ticks := w\<rparr>) = slot_ok c Q i p"
  "slot_ok c Q i (p\<lparr>quantum_left := k\<rparr>) = slot_ok c Q i p" "slot_ok c Q i (p\<lparr>cpu_ticks := u\<rparr>) = slot_ok c Q i p"
  "slot_ok c Q i (p\<lparr>esp := e\<rparr>) = slot_ok c Q i p"
  "slot_ok c Q i (p\<lparr>parent_waiting := b\<rparr>) = slot_ok c Q i p" "slot_ok c Q i (p\<lparr>sleep_until := u\<rparr>) = slot_ok c Q i p"
  "slot_ok c Q i (p\<lparr>exit_code := x\<rparr>) = slot_ok c Q i p"
  "slot_ok c Q i (p\<lparr>kstack := e\<rparr>) = slot_ok c Q i p" "slot_ok c Q i (p\<lparr>ustack := e\<rparr>) = slot_ok c Q i p"
  by (simp_all add: slot_ok_def)

lemma slot_ok_other: "j \<noteq> i \<Longrightarrow> slot_ok c Q j p \<Longrightarrow> (\<And>r. r < 3 \<Longrightarrow> j \<in> set (Q' r) \<longleftrightarrow> j \<in> set (Q r)) \<Longrightarrow> slot_ok c Q' j p"
  by (auto simp: slot_ok_def)

lemma slot_ok_pid: "slot_ok c Q i p \<Longrightarrow> pid p \<noteq> 0 \<Longrightarrow> i \<noteq> 0"
  unfolding slot_ok_def by blast

lemma slot_ok_unqueued: "slot_ok c Q i p \<Longrightarrow> state p \<noteq> READY \<Longrightarrow> q < 3 \<Longrightarrow> i \<notin> set (Q q)"
  unfolding slot_ok_def by blast

lemma slot_ok_queued: "slot_ok c Q i p \<Longrightarrow> state p = READY \<Longrightarrow> i \<noteq> c \<Longrightarrow> i \<noteq> 0 \<Longrightarrow> \<exists>q<3. i \<in> set (Q q)"
  unfolding slot_ok_def by blast

lemma sched_butD:
  assumes "sched_but I c s Q"
  shows "queues s Q" "c < 64" "\<And>i. i < 64 \<Longrightarrow> i \<notin> I \<Longrightarrow> slot_ok c Q i (proc s i)"
    "\<And>q i. q < 3 \<Longrightarrow> i \<in> set (Q q) \<Longrightarrow> i < 64"
  using assms by (auto simp: sched_but_def)

lemma sched_but_mono: "sched_but I c s Q \<Longrightarrow> I \<subseteq> J \<Longrightarrow> sched_but J c s Q"
  by (auto simp: sched_but_def)

text \<open>Any change of an exempt slot that keeps its link keeps the invariant.\<close>

lemma queues_upd: "(\<And>p. nxt (f p) = nxt p) \<Longrightarrow> queues (upd i f s) Q = queues s Q"
proof -
  assume "\<And>p. nxt (f p) = nxt p"
  then have "(\<lambda>j. nxt (proc (upd i f s) j)) = (\<lambda>j. nxt (proc s j))" by auto
  then show ?thesis by simp
qed

lemma sched_but_upd_ok:
  assumes "sched_but I c s Q" and "\<And>p. nxt (f p) = nxt p" and "i < 64 \<Longrightarrow> i \<notin> I \<Longrightarrow> slot_ok c Q i (f (proc s i))"
  shows "sched_but I c (upd i f s) Q"
  using assms(1,3) queues_upd [of f i s Q, OF assms(2)] by (simp add: sched_but_def)

lemma sched_but_upd: "sched_but I c s Q \<Longrightarrow> i \<in> I \<Longrightarrow> (\<And>p. nxt (f p) = nxt p) \<Longrightarrow> sched_but I c (upd i f s) Q"
  by (rule sched_but_upd_ok) auto

lemma enqueue_but:
  assumes inv: "sched_but I c s Q" and i: "i \<in> I" "i < 64" "i \<noteq> c" "i \<noteq> 0"
    and p: "pid (proc s i) \<noteq> 0" "state (proc s i) = READY" "unat (priority (proc s i)) = q" "q < 3" "unat (base_priority (proc s i)) < 3"
    and new: "\<And>r. r < 3 \<Longrightarrow> i \<notin> set (Q r)"
  obtains n h t where "scheduler_enqueue (Some i) s = relinked n h t (upd i (\<lambda>p. p\<lparr>wait_ticks := 0\<rparr>) s)"
    and "sched_but (I - {i}) c (scheduler_enqueue (Some i) s) (Q(q := Q q @ [i]))"
proof -
  note D = sched_butD [OF inv]
  obtain n h t where e: "scheduler_enqueue (Some i) s = relinked n h t (upd i (\<lambda>p. p\<lparr>wait_ticks := 0\<rparr>) s)"
      and r: "ready_queues n h t (Q(q := Q q @ [i]))"
    using enqueue_refines [OF D(1) p(1,3,4) new] by blast
  let ?Q = "Q(q := Q q @ [i])"
  have self: "slot_ok c ?Q i (proc s i)"
    using i p new unfolding slot_ok_def by simp blast
  have others: "slot_ok c ?Q j (proc s j)" if "j < 64" "j \<noteq> i" "j \<notin> I" for j
    by (rule slot_ok_other [of j i c Q]) (use D(3) [OF that(1,3)] that(2) in simp_all)
  have "slot_ok c ?Q j (proc (relinked n h t (upd i (\<lambda>p. p\<lparr>wait_ticks := 0\<rparr>) s)) j)" if "j < 64" "j \<notin> I - {i}" for j
    using self others [OF that(1)] that(2) by (cases "j = i") simp_all
  moreover have "set (?Q r) \<subseteq> {..<64}" if "r < 3" for r using D(4) [OF that] i(2) by auto
  ultimately have "sched_but (I - {i}) c (scheduler_enqueue (Some i) s) ?Q"
    unfolding e sched_but_def using r D(2) by (intro conjI allI impI) simp_all
  with e show thesis by (rule that)
qed

section \<open>Reaping\<close>

text \<open>
  What reaping may do: it frees slots of zombies, and leaves every other slot and everything but the
  heap alone.
\<close>

definition zombies_freed :: "system \<Rightarrow> (nat \<Rightarrow> process) \<Rightarrow> bool" where
  "zombies_freed s T \<longleftrightarrow>
     (\<forall>j. T j = proc s j \<or>
        state (proc s j) = ZOMBIE \<and> current_process s \<noteq> Some j \<and>
        T j = (proc s j)\<lparr>kstack := 0, ustack := 0, state := UNUSED, pid := 0\<rparr>)"

definition reaped :: "system \<Rightarrow> system \<Rightarrow> bool" where
  "reaped s t \<longleftrightarrow> (\<exists>h T. t = s\<lparr>process_table := T, kheap_st := h\<rparr> \<and> zombies_freed s T)"

lemma reaped_refl: "reaped s s"
  unfolding reaped_def by (rule exI [of _ "kheap_st s"], rule exI [of _ "process_table s"]) (simp add: zombies_freed_def)

lemma reaped_entry:
  assumes "reaped s t"
  shows "reaped s (reap_entry i t)"
proof (cases "reap_entry i t = t")
  case False
  then have z: "state (proc t i) = ZOMBIE" "current_process t \<noteq> Some i" "reap_entry i t = process_release (Some i) t"
    by (auto simp: reap_entry_def split: if_splits option.splits)
  obtain h T where t: "t = s\<lparr>process_table := T, kheap_st := h\<rparr>" and T: "zombies_freed s T"
    using assms by (auto simp: reaped_def)
  have "T i = proc s i" "state (proc s i) = ZOMBIE" using T z(1) t by (auto simp: zombies_freed_def dest!: spec [of _ i])
  with T z(2) have "zombies_freed s (T(i := (T i)\<lparr>kstack := 0, ustack := 0, state := UNUSED, pid := 0\<rparr>))"
    by (auto simp: zombies_freed_def t)
  then show ?thesis
    unfolding reaped_def z(3) process_release_eq [OF z(2)] by (intro exI conjI) (auto simp: t upd_def)
qed (use assms in simp)

lemma reaped_orphans: "reaped s (reap_orphans s)"
  unfolding reap_orphans_def
  by (rule fold_invariant [where Q = "\<lambda>_. True" and P = "reaped s"]) (simp_all add: reaped_refl reaped_entry)

lemma reaped_fields:
  assumes "reaped s t"
  shows "current_process t = current_process s" "started t = started s" "queue_head t = queue_head s"
    "queue_tail t = queue_tail s" "system_ticks t = system_ticks s" "(\<lambda>i. nxt (proc t i)) = (\<lambda>i. nxt (proc s i))"
    "context_switches t = context_switches s" "next_pid t = next_pid s" "mem t = mem s" "cpu_regs t = cpu_regs s"
    "state (proc s j) \<noteq> ZOMBIE \<or> current_process s = Some j \<Longrightarrow> proc t j = proc s j"
proof -
  obtain h T where t: "t = s\<lparr>process_table := T, kheap_st := h\<rparr>" and T: "zombies_freed s T"
    using assms by (auto simp: reaped_def)
  show "current_process t = current_process s" "started t = started s" "queue_head t = queue_head s"
    "queue_tail t = queue_tail s" "system_ticks t = system_ticks s"
    "context_switches t = context_switches s" "next_pid t = next_pid s" "mem t = mem s" "cpu_regs t = cpu_regs s"
    by (simp_all add: t)
  have "nxt (T i) = nxt (proc s i)" for i using T by (auto simp: zombies_freed_def dest: spec [of _ i])
  then show "(\<lambda>i. nxt (proc t i)) = (\<lambda>i. nxt (proc s i))" by (simp add: t)
  show "proc t j = proc s j" if "state (proc s j) \<noteq> ZOMBIE \<or> current_process s = Some j"
    using T that by (auto simp: t zombies_freed_def)
qed

lemma reaped_inv:
  assumes "reaped s t" and "sched_inv s Q"
  shows "sched_inv t Q"
proof -
  obtain c where c: "current_process s = Some c" using assms(2) by (auto simp: sched_inv_def)
  have D: "sched_but {} c s Q" using assms(2) c by (simp add: sched_inv_def)
  obtain h T where t: "t = s\<lparr>process_table := T, kheap_st := h\<rparr>" and T: "zombies_freed s T"
    using assms(1) by (auto simp: reaped_def)
  have "slot_ok c Q j (T j)" if "j < 64" for j
  proof (cases "T j = proc s j")
    case True
    then show ?thesis using sched_butD(3) [OF D that] by simp
  next
    case False
    then have "state (proc s j) = ZOMBIE" "j \<noteq> c" "T j = (proc s j)\<lparr>kstack := 0, ustack := 0, state := UNUSED, pid := 0\<rparr>"
      using T c by (auto simp: zombies_freed_def)
    then show ?thesis using sched_butD(3) [OF D that] by (cases "j = 0") (auto simp: slot_ok_def)
  qed
  moreover have "queues t Q" using sched_butD(1) [OF D] reaped_fields(3,4,6) [OF assms(1)] by simp
  ultimately show ?thesis
    using D c by (simp add: sched_inv_def sched_but_def t)
qed

section \<open>Switching\<close>

lemma push_word_simps [simp]:
  "process_table (push_word v s) = process_table s" "current_process (push_word v s) = current_process s"
  "queue_head (push_word v s) = queue_head s" "queue_tail (push_word v s) = queue_tail s"
  "started (push_word v s) = started s" "kheap_st (push_word v s) = kheap_st s" "next_pid (push_word v s) = next_pid s"
  "system_ticks (push_word v s) = system_ticks s" "context_switches (push_word v s) = context_switches s"
  "tss_esp0 (push_word v s) = tss_esp0 s" "r_esp (cpu_regs (push_word v s)) = r_esp (cpu_regs s) - 4"
  by (simp_all add: push_word_def Let_def)

lemma context_switch_simps [simp]:
  "process_table (context_switch p new s) =
     (process_table s)(p := (proc s p)\<lparr>esp := r_esp (cpu_regs s) - 20\<rparr>)"
  "current_process (context_switch p new s) = current_process s"
  "queue_head (context_switch p new s) = queue_head s" "queue_tail (context_switch p new s) = queue_tail s"
  "started (context_switch p new s) = started s" "kheap_st (context_switch p new s) = kheap_st s"
  "next_pid (context_switch p new s) = next_pid s" "system_ticks (context_switch p new s) = system_ticks s"
  "context_switches (context_switch p new s) = context_switches s" "tss_esp0 (context_switch p new s) = tss_esp0 s"
  by (simp_all add: context_switch_def Let_def)

lemma tss_simps [simp]:
  "process_table (tss_set_kernel_stack v s) = process_table s" "current_process (tss_set_kernel_stack v s) = current_process s"
  "queue_head (tss_set_kernel_stack v s) = queue_head s" "queue_tail (tss_set_kernel_stack v s) = queue_tail s"
  "started (tss_set_kernel_stack v s) = started s" "kheap_st (tss_set_kernel_stack v s) = kheap_st s"
  "next_pid (tss_set_kernel_stack v s) = next_pid s" "system_ticks (tss_set_kernel_stack v s) = system_ticks s"
  "context_switches (tss_set_kernel_stack v s) = context_switches s" "mem (tss_set_kernel_stack v s) = mem s"
  "cpu_regs (tss_set_kernel_stack v s) = cpu_regs s" "tss_esp0 (tss_set_kernel_stack v s) = v"
  by (simp_all add: tss_set_kernel_stack_def)

text \<open>The queues after \<open>c\<close> has been preempted: a runnable process other than idle waits at its base level.\<close>

definition requeue :: "bool \<Rightarrow> nat \<Rightarrow> nat \<Rightarrow> (nat \<Rightarrow> nat list) \<Rightarrow> nat \<Rightarrow> nat list" where
  "requeue running c b Q = (if running \<and> c \<noteq> 0 then Q(b := Q b @ [c]) else Q)"

text \<open>The tail of a switch: \<open>s\<close> is the state once the outgoing process has been dealt with.\<close>

definition take_over :: "nat \<Rightarrow> nat \<Rightarrow> system \<Rightarrow> system" where
  "take_over c n s =
     (let s2 = upd n (\<lambda>p. p\<lparr>state := RUNNING, priority := base_priority p, quantum_left := SCHED_QUANTUM_TICKS\<rparr>) s;
          s3 = s2\<lparr>current_process := Some n, context_switches := context_switches s2 + 1\<rparr>;
          s4 = tss_set_kernel_stack (if kstack_top (proc s3 n) \<noteq> 0 then kstack_top (proc s3 n) else 0) s3
      in if c \<noteq> n then context_switch c (esp (proc s4 n)) s4 else s4)"

lemma switch_to_take_over:
  "switch_to c n s = take_over c n (if state (proc s c) = RUNNING
     then scheduler_enqueue (Some c) (upd c (\<lambda>p. p\<lparr>state := READY, priority := base_priority p\<rparr>) s) else s)"
  by (simp add: switch_to_def take_over_def Let_def)

lemma take_over_simps [simp]:
  "current_process (take_over c n s) = Some n" "started (take_over c n s) = started s"
  "kheap_st (take_over c n s) = kheap_st s" "next_pid (take_over c n s) = next_pid s"
  "system_ticks (take_over c n s) = system_ticks s" "queue_head (take_over c n s) = queue_head s"
  "queue_tail (take_over c n s) = queue_tail s"
  "context_switches (take_over c n s) = context_switches s + 1"
  "tss_esp0 (take_over c n s) = kstack_top (proc s n)"
  by (simp_all add: take_over_def Let_def)

lemma take_over_proc:
  "c \<noteq> n \<Longrightarrow> process_table (take_over c n s) =
     (process_table s)(n := (proc s n)\<lparr>state := RUNNING, priority := base_priority (proc s n), quantum_left := SCHED_QUANTUM_TICKS\<rparr>,
        c := (proc s c)\<lparr>esp := r_esp (cpu_regs s) - 20\<rparr>)"
  by (simp add: take_over_def Let_def)

lemma take_over_inv:
  assumes "sched_but {n} n s Q" and "n < 64" and "c \<noteq> n" and "\<And>r. r < 3 \<Longrightarrow> n \<notin> set (Q r)"
    and "n = 0 \<longleftrightarrow> pid (proc s n) = 0" and "unat (base_priority (proc s n)) < 3"
  shows "sched_wf (take_over c n s) Q"
proof -
  note D = sched_butD [OF assms(1)]
  have "(\<lambda>j. nxt (proc (take_over c n s) j)) = (\<lambda>j. nxt (proc s j))"
    using assms(3) by (auto simp: take_over_proc)
  then have "queues (take_over c n s) Q" using D(1) by simp
  moreover have "slot_ok n Q j (proc (take_over c n s) j)" if "j < 64" for j
    using D(3) [OF that] assms(3-6) by (cases "j = n"; cases "j = c") (auto simp: take_over_proc slot_ok_def)
  ultimately show ?thesis
    using D(2,4) assms(3) by (auto simp: sched_wf_def sched_inv_def sched_but_def take_over_proc)
qed

lemma notin_empty: "x \<notin> {}"
  by simp

lemma slot_ok_switch: "slot_ok c Q j p \<Longrightarrow> j \<noteq> c \<Longrightarrow> j \<noteq> n \<Longrightarrow> slot_ok n Q j p"
  by (auto simp: slot_ok_def)

lemma switch_to_inv:
  assumes inv: "sched_but {c, n} n s Q" and cn: "c < 64" "n < 64" "c \<noteq> n"
    and out: "\<And>r. r < 3 \<Longrightarrow> c \<notin> set (Q r) \<and> n \<notin> set (Q r)"
    and c: "c = 0 \<longleftrightarrow> pid (proc s c) = 0" "state (proc s c) \<noteq> UNUSED" "c \<noteq> 0 \<Longrightarrow> state (proc s c) \<noteq> READY"
      "c = 0 \<Longrightarrow> state (proc s c) \<noteq> ZOMBIE" "unat (base_priority (proc s c)) < 3" "unat (priority (proc s c)) < 3"
    and n: "n = 0 \<longleftrightarrow> pid (proc s n) = 0" "unat (base_priority (proc s n)) < 3"
  shows "sched_wf (switch_to c n s) (requeue (state (proc s c) = RUNNING) c (unat (base_priority (proc s c))) Q)"
    and "current_process (switch_to c n s) = Some n"
proof -
  show "current_process (switch_to c n s) = Some n" by (simp add: switch_to_take_over)
  let ?b = "unat (base_priority (proc s c))"
  let ?s1 = "upd c (\<lambda>p. p\<lparr>state := READY, priority := base_priority p\<rparr>) s"
  consider "state (proc s c) \<noteq> RUNNING" | "state (proc s c) = RUNNING" "c = 0" | "state (proc s c) = RUNNING" "c \<noteq> 0"
    by blast
  then show "sched_wf (switch_to c n s) (requeue (state (proc s c) = RUNNING) c ?b Q)"
  proof cases
    case 1
    have "slot_ok n Q c (proc s c)" using 1 c cn out by (auto simp: slot_ok_def)
    then have "sched_but {n} n s Q" using inv by (auto simp: sched_but_def)
    then show ?thesis using take_over_inv [of n s Q c] cn n out 1 by (simp add: switch_to_take_over requeue_def)
  next
    case 2
    have a: "sched_but {c, n} n ?s1 Q" using inv by (rule sched_but_upd) auto
    have "slot_ok n Q c (proc ?s1 c)" using 2 c cn out by (auto simp: slot_ok_def)
    then have "sched_but {n} n ?s1 Q" using a by (auto simp: sched_but_def)
    then show ?thesis
      using take_over_inv [of n ?s1 Q c] cn n out 2 c(1) by (simp add: switch_to_take_over requeue_def)
  next
    case 3
    have a: "sched_but {c, n} n ?s1 Q" using inv by (rule sched_but_upd) auto
    have r: "pid (proc ?s1 c) \<noteq> 0" "state (proc ?s1 c) = READY" "unat (priority (proc ?s1 c)) = ?b" "?b < 3"
        "unat (base_priority (proc ?s1 c)) < 3"
      using 3 c by simp_all
    have o: "c \<notin> set (Q r)" if "r < 3" for r using out [OF that] by simp
    obtain m h t where e: "scheduler_enqueue (Some c) ?s1 = relinked m h t (upd c (\<lambda>p. p\<lparr>wait_ticks := 0\<rparr>) ?s1)"
      and w: "sched_but ({c, n} - {c}) n (scheduler_enqueue (Some c) ?s1) (Q(?b := Q ?b @ [c]))"
      by (rule enqueue_but [OF a _ cn(1,3) 3(2) r o]) simp_all
    have "{c, n} - {c} = {n}" using cn(3) by auto
    then have w': "sched_but {n} n (scheduler_enqueue (Some c) ?s1) (Q(?b := Q ?b @ [c]))" using w by simp
    have "sched_wf (take_over c n (scheduler_enqueue (Some c) ?s1)) (Q(?b := Q ?b @ [c]))"
      by (rule take_over_inv [OF w' cn(2,3)]) (use out n cn(3) in \<open>simp_all add: e\<close>)
    then show ?thesis using 3 by (simp add: switch_to_take_over requeue_def)
  qed
qed

text \<open>
  The scheduling decision on lists: who runs next, and the queues afterwards.
\<close>

definition sched_spec :: "bool \<Rightarrow> nat \<Rightarrow> nat \<Rightarrow> (nat \<Rightarrow> nat list) \<Rightarrow> nat \<times> (nat \<Rightarrow> nat list)" where
  "sched_spec running c b Q =
     (case top_queue Q of
        Some q \<Rightarrow> (hd (Q q), requeue running c b (Q(q := tl (Q q))))
      | None \<Rightarrow> (if running then c else 0, Q))"

lemma process_by_pid_idle: "sched_but {} c s Q \<Longrightarrow> process_by_pid 0 s = Some 0"
  using sched_butD(3) [of "{}" c s Q 0] by (simp add: process_by_pid_def find_upt_Some_iff slot_ok_def)

lemma schedule_refines:
  assumes "sched_inv s Q" and "started s"
    and "sched_spec (state (proc s (cur s)) = RUNNING) (cur s) (unat (base_priority (proc s (cur s)))) Q = (n, Q')"
  shows "current_process (schedule s) = Some n" and "sched_wf (schedule s) Q'"
proof -
  define t where "t = reap_orphans s"
  obtain c where c: "current_process s = Some c" using assms(1) by (auto simp: sched_inv_def)
  have r: "reaped s t" unfolding t_def by (rule reaped_orphans)
  note F = reaped_fields [OF r]
  have pc: "proc t c = proc s c" using F(11) [of c] c by simp
  have inv: "sched_inv t Q" by (rule reaped_inv [OF r assms(1)])
  have ct: "current_process t = Some c" using F(1) c by simp
  have but: "sched_but {} c t Q" using inv ct by (simp add: sched_inv_def)
  note D = sched_butD [OF but]
  have okc: "slot_ok c Q c (proc t c)" using D(2,3) by simp
  let ?run = "state (proc t c) = RUNNING" and ?b = "unat (base_priority (proc t c))"
  have spec: "sched_spec ?run c ?b Q = (n, Q')" using assms(3) c pc by simp
  have "current_process (schedule s) = Some n \<and> sched_wf (schedule s) Q'"
  proof (rule pick_next_refines [OF D(1)])
    assume top: "top_queue Q = None" and pick: "pick_next t = (None, t)"
    have sch: "schedule s = (if ?run then upd c (\<lambda>p. p\<lparr>quantum_left := 5\<rparr>) t
        else if c = 0 then t else switch_to c 0 t)"
      using assms(2) ct pick process_by_pid_idle [OF but] by (auto simp: schedule_def t_def [symmetric] Let_def)
    consider "?run" | "\<not> ?run" "c = 0" | "\<not> ?run" "c \<noteq> 0" by blast
    then show ?thesis
    proof cases
      case 1
      have "sched_but {} c (upd c (\<lambda>p. p\<lparr>quantum_left := 5\<rparr>) t) Q"
        using but okc by (intro sched_but_upd_ok) auto
      then show ?thesis using 1 spec ct top sch by (auto simp: sched_spec_def sched_wf_def sched_inv_def)
    next
      case 2
      then show ?thesis using spec ct top sch inv by (auto simp: sched_spec_def sched_wf_def)
    next
      case 3
      have z: "slot_ok c Q 0 (proc t 0)" using D(3) by simp
      have "sched_but {c, 0} 0 t Q"
        using D by (auto simp: sched_but_def intro: slot_ok_switch)
      moreover have "c \<notin> set (Q r) \<and> 0 \<notin> set (Q r)" if "r < 3" for r using top that by (simp add: top_queue_None)
      ultimately show ?thesis
        using switch_to_inv [of c 0 t Q] 3 spec top sch okc z D(2) by (simp add: sched_spec_def requeue_def slot_ok_def)
    qed
  next
    fix q x xs m h l
    assume top: "top_queue Q = Some q" "q < 3" "Q q = x # xs" and pick: "pick_next t = (Some x, relinked m h l t)"
      and rq: "ready_queues m h l (Q(q := xs))" "m x = None"
    let ?t = "relinked m h l t" and ?Q = "Q(q := xs)"
    have sch: "schedule s = switch_to c x ?t"
      using assms(2) ct pick by (simp add: schedule_def t_def [symmetric] Let_def)
    have x64: "x < 64" using D(4) [OF top(2), of x] top(3) by simp
    have okx: "slot_ok c Q x (proc t x)" using D(3) x64 by simp
    then have xc: "x \<noteq> c" "x \<noteq> 0" "pid (proc t x) \<noteq> 0" "unat (base_priority (proc t x)) < 3"
      using top by (auto simp: slot_ok_def)
    have out: "c \<notin> set (?Q r) \<and> x \<notin> set (?Q r)" if "r < 3" for r
      using okc that top ready_queuesD(3) [OF D(1) top(2)] ready_queues_disjoint [OF D(1) top(2) that, of x]
      by (auto simp: slot_ok_def)
    have "slot_ok x ?Q j (proc t j)" if "j < 64" "j \<noteq> c" "j \<noteq> x" for j
      by (rule slot_ok_other [OF that(3) slot_ok_switch [OF D(3) [OF that(1) notin_empty] that(2,3)]]) (use that(3) top(3) in auto)
    moreover have "set (?Q r) \<subseteq> {..<64}" if "r < 3" for r using D(4) [OF that] top(3) by auto
    ultimately have "sched_but {c, x} x ?t ?Q"
      using rq(1) x64 unfolding sched_but_def by (intro conjI allI impI) simp_all
    moreover have "c = 0 \<longleftrightarrow> pid (proc ?t c) = 0" "state (proc ?t c) \<noteq> UNUSED" "c \<noteq> 0 \<Longrightarrow> state (proc ?t c) \<noteq> READY"
        "c = 0 \<Longrightarrow> state (proc ?t c) \<noteq> ZOMBIE" "unat (base_priority (proc ?t c)) < 3" "unat (priority (proc ?t c)) < 3"
      using okc by (auto simp: slot_ok_def)
    moreover have "x = 0 \<longleftrightarrow> pid (proc ?t x) = 0" "unat (base_priority (proc ?t x)) < 3" using xc by simp_all
    ultimately have "sched_wf (switch_to c x ?t) (requeue (state (proc ?t c) = RUNNING) c (unat (base_priority (proc ?t c))) ?Q)"
        "current_process (switch_to c x ?t) = Some x"
      using switch_to_inv [of c x ?t ?Q] D(2) x64 xc(1) out by blast+
    then show ?thesis using spec top sch by (simp add: sched_spec_def)
  qed
  then show "current_process (schedule s) = Some n" and "sched_wf (schedule s) Q'" by simp_all
qed

section \<open>Slots that do not change\<close>

text \<open>Equal but for the queue link.\<close>

definition same_pcb :: "process \<Rightarrow> process \<Rightarrow> bool" where
  "same_pcb p q \<longleftrightarrow> p\<lparr>nxt := None\<rparr> = q\<lparr>nxt := None\<rparr>"

lemma same_pcb_simps [simp]: "same_pcb p p" "same_pcb (p\<lparr>nxt := n\<rparr>) q = same_pcb p q"
  by (simp_all add: same_pcb_def)

lemma same_pcb_right [simp]: "same_pcb p (q\<lparr>nxt := n\<rparr>) = same_pcb p q"
  by (simp add: same_pcb_def)

lemma same_pcbI: "p = q\<lparr>nxt := n\<rparr> \<Longrightarrow> same_pcb p q"
  by simp

lemma same_pcbD:
  assumes "same_pcb p q"
  shows "pid p = pid q" "ppid p = ppid q" "state p = state q" "priority p = priority q" "base_priority p = base_priority q"
    "kstack p = kstack q" "ustack p = ustack q" "exit_code p = exit_code q" "parent_waiting p = parent_waiting q"
    "sleep_until p = sleep_until q" "quantum_left p = quantum_left q" "wait_ticks p = wait_ticks q" "esp p = esp q"
    "kstack_top p = kstack_top q" "is_user p = is_user q" "ustack_top p = ustack_top q" "user_entry p = user_entry q"
  by (use assms in \<open>cases p; cases q; simp add: same_pcb_def\<close>)+

lemma enqueue_same: "p \<noteq> Some j \<Longrightarrow> same_pcb (proc (scheduler_enqueue p s) j) (proc s j)"
  by (auto simp: scheduler_enqueue_def Let_def split: option.split)

lemma pick_from_same: "same_pcb (proc (snd (pick_from qs s)) j) (proc s j)"
  by (induction qs) (auto simp: Let_def split: option.split)

lemma switch_to_same: "j \<noteq> c \<Longrightarrow> j \<noteq> n \<Longrightarrow> same_pcb (proc (switch_to c n s) j) (proc s j)"
  using enqueue_same [of "Some c" j "upd c (\<lambda>p. p\<lparr>state := READY, priority := base_priority p\<rparr>) s"]
  by (auto simp: switch_to_take_over take_over_def Let_def)

lemma same_pcb_trans: "same_pcb p q \<Longrightarrow> same_pcb q r \<Longrightarrow> same_pcb p r"
  by (simp add: same_pcb_def)

text \<open>A scheduling decision touches only the process that leaves, the one that comes, and zombies.\<close>

lemma schedule_same:
  assumes "started s" and "state (proc s j) \<noteq> ZOMBIE" and "j \<noteq> cur s" and "current_process (schedule s) \<noteq> Some j"
  shows "same_pcb (proc (schedule s) j) (proc s j)"
proof -
  let ?t = "reap_orphans s"
  have r: "proc ?t j = proc s j" "current_process ?t = current_process s"
    using reaped_fields [OF reaped_orphans [of s]] assms(2) by auto
  obtain n t2 where p: "pick_next ?t = (n, t2)" by fastforce
  have t2: "same_pcb (proc t2 j) (proc s j)" using pick_from_same [of "[0..<3]" ?t j] p r(1) by (simp add: pick_next_def)
  have sw: "same_pcb (proc (switch_to (cur s) m t2) j) (proc s j)" if "schedule s = switch_to (cur s) m t2" for m
    using same_pcb_trans [OF switch_to_same t2] assms(3,4) that by (simp add: switch_to_take_over)
  show ?thesis
    using assms(1,3) p r(2) t2 sw unfolding schedule_def by (auto simp: Let_def split: option.splits if_splits)
qed

lemma schedule_quantum:
  assumes "sched_inv s Q" and "started s" and "top_queue Q \<noteq> None"
  shows "quantum_left (proc (schedule s) (cur (schedule s))) = 5" "state (proc (schedule s) (cur (schedule s))) = RUNNING"
proof -
  let ?t = "reap_orphans s"
  have inv: "sched_inv ?t Q" by (rule reaped_inv [OF reaped_orphans assms(1)])
  then obtain c where c: "current_process ?t = Some c" and but: "sched_but {} c ?t Q" by (auto simp: sched_inv_def)
  note D = sched_butD [OF but]
  have "quantum_left (proc (schedule s) (cur (schedule s))) = 5 \<and> state (proc (schedule s) (cur (schedule s))) = RUNNING"
  proof (rule pick_next_refines [OF D(1)])
    fix q x xs n h l
    assume q: "q < 3" "Q q = x # xs" and p: "pick_next ?t = (Some x, relinked n h l ?t)"
    have "slot_ok c Q x (proc ?t x)" using D(3,4) q by simp
    then have "x \<noteq> c" using q unfolding slot_ok_def by auto
    moreover have "schedule s = switch_to c x (relinked n h l ?t)" using assms(2) c p by (simp add: schedule_def Let_def)
    ultimately show ?thesis by (simp add: switch_to_take_over take_over_proc)
  qed (use assms(3) in simp)
  then show "quantum_left (proc (schedule s) (cur (schedule s))) = 5" "state (proc (schedule s) (cur (schedule s))) = RUNNING" by simp_all
qed

section \<open>Fields the scheduler leaves alone\<close>

lemma enqueue_fields [simp]:
  "started (scheduler_enqueue p s) = started s" "next_pid (scheduler_enqueue p s) = next_pid s"
  "system_ticks (scheduler_enqueue p s) = system_ticks s" "kheap_st (scheduler_enqueue p s) = kheap_st s"
  "current_process (scheduler_enqueue p s) = current_process s" "mem (scheduler_enqueue p s) = mem s"
  "cpu_regs (scheduler_enqueue p s) = cpu_regs s"
  by (simp_all add: scheduler_enqueue_def Let_def split: option.split)

lemma enqueue_stacks [simp]:
  "kstack (proc (scheduler_enqueue p s) i) = kstack (proc s i)" "ustack (proc (scheduler_enqueue p s) i) = ustack (proc s i)"
  "state (proc (scheduler_enqueue p s) i) = state (proc s i)"
  by (simp_all add: scheduler_enqueue_def Let_def split: option.split)

lemma pick_from_fields:
  "started (snd (pick_from qs s)) = started s" "next_pid (snd (pick_from qs s)) = next_pid s"
  "system_ticks (snd (pick_from qs s)) = system_ticks s" "kheap_st (snd (pick_from qs s)) = kheap_st s"
  "kstack (proc (snd (pick_from qs s)) i) = kstack (proc s i)" "ustack (proc (snd (pick_from qs s)) i) = ustack (proc s i)"
  "state (proc (snd (pick_from qs s)) i) = state (proc s i)"
  by (induction qs) (simp_all add: Let_def split: option.split)

lemma switch_to_fields [simp]:
  "started (switch_to c n s) = started s" "next_pid (switch_to c n s) = next_pid s"
  "system_ticks (switch_to c n s) = system_ticks s" "kheap_st (switch_to c n s) = kheap_st s"
  "kstack (proc (switch_to c n s) i) = kstack (proc s i)" "ustack (proc (switch_to c n s) i) = ustack (proc s i)"
  by (simp_all add: switch_to_take_over take_over_def Let_def)

lemma schedule_fields [simp]:
  "started (schedule s) = started s" "next_pid (schedule s) = next_pid s" "system_ticks (schedule s) = system_ticks s"
proof -
  note F = reaped_fields [OF reaped_orphans [of s]] and P = pick_from_fields [of "[0..<3]" "reap_orphans s"]
  show "started (schedule s) = started s" "next_pid (schedule s) = next_pid s" "system_ticks (schedule s) = system_ticks s"
    using F(2,5,8) P by (auto simp: schedule_def pick_next_def Let_def split: prod.splits option.splits)
qed

text \<open>Of the heap and the stacks, \<^verbatim>\<open>schedule\<close> changes only what reaping changes.\<close>

lemma schedule_stacks:
  assumes "started s"
  shows "kheap_st (schedule s) = kheap_st (reap_orphans s)" "kstack (proc (schedule s) i) = kstack (proc (reap_orphans s) i)"
    "ustack (proc (schedule s) i) = ustack (proc (reap_orphans s) i)"
  using assms pick_from_fields [of "[0..<3]" "reap_orphans s"]
  by (auto simp: schedule_def pick_next_def Let_def split: prod.splits option.splits)

end
