(* ===== verification/Sched_Tick.thy ===== *)
theory Sched_Tick
  imports Sched_Inv
begin

text \<open>
  The timer tick: waking sleepers, aging the waiting processes and preempting the running one. Each
  loop is first characterised exactly, as an update of the table and of the three lists, from which
  its preservation of the invariant and the properties of the policy follow.
\<close>

section \<open>Waking sleepers\<close>

definition due :: "u64 \<Rightarrow> process \<Rightarrow> bool" where
  "due now p \<longleftrightarrow> state p = SLEEPING \<and> sleep_until p \<le> now"

definition woken :: "u64 \<Rightarrow> nat \<Rightarrow> process \<Rightarrow> process" where
  "woken now i p =
     (if due now p then (if i = 0 then p\<lparr>state := READY\<rparr> else p\<lparr>state := READY, wait_ticks := 0\<rparr>) else p)"

definition wake_state :: "u64 \<Rightarrow> nat \<Rightarrow> system \<Rightarrow> system" where
  "wake_state now k s = s\<lparr>process_table := (\<lambda>j. if j < k then woken now j (proc s j) else proc s j)\<rparr>"

definition wake_queues :: "u64 \<Rightarrow> nat \<Rightarrow> system \<Rightarrow> (nat \<Rightarrow> nat list) \<Rightarrow> nat \<Rightarrow> nat list" where
  "wake_queues now k s Q =
     (\<lambda>q. Q q @ filter (\<lambda>j. j \<noteq> 0 \<and> due now (proc s j) \<and> unat (priority (proc s j)) = q) [0..<k])"

lemma wake_queues_Suc:
  "wake_queues now (Suc k) s Q =
     (if k \<noteq> 0 \<and> due now (proc s k)
      then (wake_queues now k s Q)(unat (priority (proc s k)) := wake_queues now k s Q (unat (priority (proc s k))) @ [k])
      else wake_queues now k s Q)"
  by (auto simp: wake_queues_def)

lemma wake_fold:
  assumes "sched_but {} c s Q" and "k \<le> 64"
  shows "\<exists>n h t. fold (wake_entry now) [0..<k] s = relinked n h t (wake_state now k s) \<and>
    ready_queues n h t (wake_queues now k s Q)"
  using assms(2)
proof (induction k)
  case 0
  have "relinked (\<lambda>i. nxt (proc s i)) (queue_head s) (queue_tail s) (wake_state now 0 s) = s"
    by (simp add: wake_state_def relinked_def)
  moreover have "wake_queues now 0 s Q = Q" by (simp add: wake_queues_def)
  ultimately show ?case using sched_butD(1) [OF assms(1)] by (metis fold_Nil id_apply upt_0)
next
  case (Suc k)
  then obtain n h t where f: "fold (wake_entry now) [0..<k] s = relinked n h t (wake_state now k s)"
      and r: "ready_queues n h t (wake_queues now k s Q)"
    by auto
  let ?t = "relinked n h t (wake_state now k s)"
  have pk: "proc ?t k = (proc s k)\<lparr>nxt := n k\<rparr>" by (simp add: wake_state_def)
  have ok: "slot_ok c Q k (proc s k)" using sched_butD(3) [OF assms(1)] Suc.prems by simp
  have fs: "fold (wake_entry now) [0..<Suc k] s = wake_entry now k ?t" using f by simp
  consider "\<not> due now (proc s k)" | "due now (proc s k)" "k = 0" | "due now (proc s k)" "k \<noteq> 0" by blast
  then show ?case
  proof cases
    case 1
    have "wake_entry now k ?t = ?t" using 1 pk by (auto simp: wake_entry_def due_def)
    moreover have "wake_state now (Suc k) s = wake_state now k s"
      using 1 by (auto simp: wake_state_def woken_def less_Suc_eq intro!: system_eqI)
    ultimately show ?thesis using fs r 1 by (auto simp: wake_queues_Suc)
  next
    case 2
    have "pid (proc s k) = 0" using ok 2 by (simp add: slot_ok_def)
    then have "wake_entry now k ?t = relinked n h t (wake_state now (Suc k) s)"
      using 2 pk by (auto simp: wake_entry_def due_def wake_state_def woken_def intro!: system_eqI)
    then show ?thesis using fs r 2 by (auto simp: wake_queues_Suc)
  next
    case 3
    let ?u = "upd k (\<lambda>p. p\<lparr>state := READY\<rparr>) ?t" and ?q = "unat (priority (proc s k))"
    have q: "?q < 3" "pid (proc s k) \<noteq> 0" "\<And>r. r < 3 \<Longrightarrow> k \<notin> set (Q r)"
      using ok 3 by (auto simp: slot_ok_def due_def)
    have w: "wake_entry now k ?t = scheduler_enqueue (Some k) ?u" using 3 pk by (auto simp: wake_entry_def due_def)
    have new: "k \<notin> set (wake_queues now k s Q r)" if "r < 3" for r using q(3) [OF that] by (simp add: wake_queues_def)
    have qu: "queues ?u (wake_queues now k s Q)" using queues_upd [of _ k ?t] r by simp
    have pu: "pid (proc ?u k) \<noteq> 0" "unat (priority (proc ?u k)) = ?q" using q(2) pk by simp_all
    obtain n' h' t' where e: "scheduler_enqueue (Some k) ?u = relinked n' h' t' (upd k (\<lambda>p. p\<lparr>wait_ticks := 0\<rparr>) ?u)"
        and rq: "ready_queues n' h' t' ((wake_queues now k s Q)(?q := wake_queues now k s Q ?q @ [k]))"
      using enqueue_refines [OF qu pu q(1) new] by blast
    have eq: "relinked n' h' t' (upd k (\<lambda>p. p\<lparr>wait_ticks := 0\<rparr>) ?u) = relinked n' h' t' (wake_state now (Suc k) s)"
      using 3 by (auto simp: wake_state_def woken_def intro!: system_eqI)
    have wq: "wake_queues now (Suc k) s Q = (wake_queues now k s Q)(?q := wake_queues now k s Q ?q @ [k])"
      using 3 wake_queues_Suc by presburger
    show ?thesis unfolding fs w e eq wq using rq by blast
  qed
qed
lemma wake_sleepers_exact:
  assumes "sched_but {} c s Q"
  obtains n h t where "wake_sleepers now s = relinked n h t (wake_state now 64 s)"
    and "ready_queues n h t (wake_queues now 64 s Q)"
  using wake_fold [OF assms, of 64 now] unfolding wake_sleepers_def by auto

lemma wake_sleepers_but:
  assumes "sched_but {} c s Q" and "state (proc s c) \<noteq> SLEEPING \<or> c = 0"
  shows "sched_but {} c (wake_sleepers now s) (wake_queues now 64 s Q)"
proof (rule wake_sleepers_exact [OF assms(1), of now])
  fix n h t
  assume e: "wake_sleepers now s = relinked n h t (wake_state now 64 s)" and r: "ready_queues n h t (wake_queues now 64 s Q)"
  note D = sched_butD [OF assms(1)]
  have "slot_ok c (wake_queues now 64 s Q) j (woken now j (proc s j))" if "j < 64" for j
  proof -
    let ?W = "wake_queues now 64 s Q"
    have ok: "slot_ok c Q j (proc s j)" using D(3) [OF that] by simp
    show ?thesis
    proof (cases "due now (proc s j)")
      case False
      then have "j \<in> set (?W r) \<longleftrightarrow> j \<in> set (Q r)" for r by (auto simp: wake_queues_def)
      then show ?thesis using slot_ok_other [of j 64 c Q "proc s j" ?W] ok False that by (simp add: woken_def)
    next
      case True
      then have p: "state (proc s j) = SLEEPING" by (simp add: due_def)
      then have nq: "j \<notin> set (Q r)" if "r < 3" for r using slot_ok_unqueued [OF ok _ that] by simp
      have jc: "j \<noteq> c \<or> j = 0" using assms(2) p by auto
      have f: "j = 0 \<Longrightarrow> pid (proc s j) = 0" "j \<noteq> 0 \<Longrightarrow> pid (proc s j) \<noteq> 0" "unat (base_priority (proc s j)) < 3"
          "unat (priority (proc s j)) < 3"
        using ok p by (simp_all add: slot_ok_def)
      have "j \<in> set (?W r) \<longleftrightarrow> j \<noteq> 0 \<and> unat (priority (proc s j)) = r" if "r < 3" for r
        using nq [OF that] True \<open>j < 64\<close> by (auto simp: wake_queues_def)
      then show ?thesis using f jc True by (cases "j = 0") (simp_all add: slot_ok_def woken_def, blast)
    qed
  qed
  moreover have "set (wake_queues now 64 s Q q) \<subseteq> {..<64}" if "q < 3" for q
    using D(4) [OF that] by (auto simp: wake_queues_def)
  ultimately show ?thesis
    using r D(2) unfolding e sched_but_def by (intro conjI allI impI) (simp_all add: wake_state_def)
qed

lemma wake_sleepers_fields [simp]:
  assumes "sched_but {} c s Q"
  shows "current_process (wake_sleepers now s) = current_process s" "started (wake_sleepers now s) = started s"
    "system_ticks (wake_sleepers now s) = system_ticks s" "kheap_st (wake_sleepers now s) = kheap_st s"
    "next_pid (wake_sleepers now s) = next_pid s"
  by (rule wake_sleepers_exact [OF assms, of now], simp add: wake_state_def)+

section \<open>Aging\<close>

text \<open>Whether a waiting process is boosted by the next aging pass.\<close>

definition stale :: "process \<Rightarrow> bool" where
  "stale p \<longleftrightarrow> wait_ticks p + 1 > AGING_THRESHOLD"

definition aged :: "nat \<Rightarrow> process \<Rightarrow> process" where
  "aged q p = (if stale p then p\<lparr>wait_ticks := 0, priority := of_nat (q - 1)\<rparr> else p\<lparr>wait_ticks := wait_ticks p + 1\<rparr>)"

lemma aged_nxt: "aged q (p\<lparr>nxt := n\<rparr>) = (aged q p)\<lparr>nxt := n\<rparr>"
  by (simp add: aged_def stale_def)

definition age_state :: "nat \<Rightarrow> nat list \<Rightarrow> system \<Rightarrow> system" where
  "age_state q xs s = s\<lparr>process_table := (\<lambda>j. if j \<in> set xs then aged q (proc s j) else proc s j)\<rparr>"

text \<open>Level \<open>q\<close> keeps \<open>ys\<close> and the fresh part of \<open>xs\<close>; the stale part moves to the end of the level above.\<close>

definition age_queues :: "nat \<Rightarrow> nat list \<Rightarrow> nat list \<Rightarrow> system \<Rightarrow> (nat \<Rightarrow> nat list) \<Rightarrow> nat \<Rightarrow> nat list" where
  "age_queues q ys xs s Q =
     Q(q := ys @ filter (\<lambda>i. \<not> stale (proc s i)) xs, q - 1 := Q (q - 1) @ filter (\<lambda>i. stale (proc s i)) xs)"

lemma level_u8: "q < 3 \<Longrightarrow> unat (of_nat (q - 1) :: u8) = q - 1"
  by (auto simp: less3)

lemma age_walk_exact:
  assumes "queues s Q" and "Q q = ys @ xs" and "0 < q" "q < 3"
    and "\<And>i. i \<in> set xs \<Longrightarrow> pid (proc s i) \<noteq> 0"
  shows "\<exists>n h t. age_walk q (first xs) s = Some (relinked n h t (age_state q xs s)) \<and>
    ready_queues n h t (age_queues q ys xs s Q)"
  using assms
proof (induction xs arbitrary: s Q ys)
  case Nil
  have "relinked (\<lambda>i. nxt (proc s i)) (queue_head s) (queue_tail s) (age_state q [] s) = s"
    by (simp add: age_state_def relinked_def)
  moreover have "age_queues q ys [] s Q = Q" using Nil by (auto simp: age_queues_def fun_eq_iff)
  ultimately show ?case using Nil(1) by (metis age_walk.simps first_simps(1) option.simps(4))
next
  case (Cons i xs)
  note D = ready_queuesD [OF Cons.prems(1,4)]
  have ni: "i \<notin> set xs" "i \<notin> set ys" using D(3) Cons.prems(2) by auto
  have nx: "nxt (proc s i) = first xs"
    using linked_split [of "\<lambda>i. nxt (proc s i)" _ ys i xs] linked_first D(1) Cons.prems(2) by metis
  have walk: "age_walk q (first (i # xs)) s = do { s1 \<leftarrow> age_entry q i s; age_walk q (first xs) s1 }"
    by (subst age_walk.simps) (simp add: nx)
  let ?s1 = "upd i (\<lambda>p. p\<lparr>wait_ticks := wait_ticks p + 1\<rparr>) s"
  have q1: "queues ?s1 Q" using queues_upd [of _ i s Q] Cons.prems(1) by simp
  show ?case
  proof (cases "stale (proc s i)")
    case False
    have pid1: "pid (proc ?s1 j) \<noteq> 0" if "j \<in> set xs" for j using Cons.prems(5) [of j] that ni by auto
    have a: "age_entry q i s = Some ?s1" using False by (simp add: age_entry_def stale_def)
    obtain n h t where w: "age_walk q (first xs) ?s1 = Some (relinked n h t (age_state q xs ?s1))"
        and r: "ready_queues n h t (age_queues q (ys @ [i]) xs ?s1 Q)"
      using Cons.IH [OF q1, of "ys @ [i]"] Cons.prems pid1 by auto
    have "age_state q xs ?s1 = age_state q (i # xs) s"
      using False ni by (auto simp: age_state_def aged_def intro!: system_eqI)
    moreover have "age_queues q (ys @ [i]) xs ?s1 Q = age_queues q ys (i # xs) s Q"
    proof -
      have f: "filter (\<lambda>j. stale (proc ?s1 j)) xs = filter (\<lambda>j. stale (proc s j)) xs"
          "filter (\<lambda>j. \<not> stale (proc ?s1 j)) xs = filter (\<lambda>j. \<not> stale (proc s j)) xs"
        using ni by (auto intro!: filter_cong)
      show ?thesis unfolding age_queues_def f using False by simp
    qed
    ultimately show ?thesis using walk a w r by auto
  next
    case True
    obtain n h t where d: "scheduler_dequeue (Some i) ?s1 = Some (relinked n h t ?s1)"
        and r: "ready_queues n h t (Q(q := ys @ xs))" and "n i = None"
      using dequeue_refines [OF q1 Cons.prems(4), of ys i xs] Cons.prems(2) by auto
    let ?s2 = "upd i (\<lambda>p. p\<lparr>priority := of_nat (q - 1)\<rparr>) (relinked n h t ?s1)" and ?Q = "Q(q := ys @ xs)"
    have q2: "queues ?s2 ?Q" using queues_upd [of _ i "relinked n h t ?s1"] r by simp
    have p: "pid (proc ?s2 i) \<noteq> 0" "unat (priority (proc ?s2 i)) = q - 1" "q - 1 < 3"
      using Cons.prems(4,5) level_u8 [OF Cons.prems(4)] by simp_all
    have new: "i \<notin> set (?Q r)" if "r < 3" for r
      using ni ready_queues_disjoint [OF Cons.prems(1,4) that, of i] Cons.prems(2) by auto
    obtain n' h' t' where e: "scheduler_enqueue (Some i) ?s2 = relinked n' h' t' (upd i (\<lambda>p. p\<lparr>wait_ticks := 0\<rparr>) ?s2)"
        and r': "ready_queues n' h' t' (?Q(q - 1 := ?Q (q - 1) @ [i]))"
      using enqueue_refines [OF q2 p new] by blast
    let ?s3 = "scheduler_enqueue (Some i) ?s2" and ?Q3 = "?Q(q - 1 := ?Q (q - 1) @ [i])"
    have a: "age_entry q i s = Some ?s3" using True d by (simp add: age_entry_def stale_def)
    have p3: "proc ?s3 j = (proc s j)\<lparr>nxt := n' j\<rparr>" if "j \<in> set xs" for j
      using that ni unfolding e by auto
    have q3: "queues ?s3 ?Q3" using r' unfolding e by simp
    have q3': "?Q3 q = ys @ xs" using Cons.prems(3) by simp
    have pid3: "pid (proc ?s3 j) \<noteq> 0" if "j \<in> set xs" for j using Cons.prems(5) [of j] that p3 [OF that] by simp
    from Cons.IH [OF q3 q3' Cons.prems(3,4) pid3] obtain n'' h'' t'' where w: "age_walk q (first xs) ?s3 = Some (relinked n'' h'' t'' (age_state q xs ?s3))"
        and r'': "ready_queues n'' h'' t'' (age_queues q ys xs ?s3 ?Q3)"
      by blast
    have "relinked n'' h'' t'' (age_state q xs ?s3) = relinked n'' h'' t'' (age_state q (i # xs) s)"
      using True ni unfolding e by (auto simp: age_state_def aged_def stale_def intro!: system_eqI)
    moreover have "age_queues q ys xs ?s3 ?Q3 = age_queues q ys (i # xs) s Q"
    proof -
      have "filter (\<lambda>j. stale (proc ?s3 j)) xs = filter (\<lambda>j. stale (proc s j)) xs"
        "filter (\<lambda>j. \<not> stale (proc ?s3 j)) xs = filter (\<lambda>j. \<not> stale (proc s j)) xs"
        using p3 by (auto intro!: filter_cong simp: stale_def)
      then show ?thesis using True Cons.prems(3) unfolding age_queues_def by (auto simp: fun_eq_iff)
    qed
    ultimately show ?thesis using walk a w r'' by auto
  qed
qed

lemma slot_ok_aged:
  assumes "slot_ok c Q j p" and "j \<in> set (Q q)" and "0 < q" "q < 3"
    and Q': "\<And>r. r < 3 \<Longrightarrow> j \<in> set (Q' r) \<longleftrightarrow> r = (if stale p then q - 1 else q)"
  shows "slot_ok c Q' j (aged q p)"
proof -
  have p: "state p = READY" "unat (priority p) = q" "j \<noteq> c" "j \<noteq> 0" "pid p \<noteq> 0" "unat (base_priority p) < 3"
    using assms(1,2,4) by (auto simp: slot_ok_def)
  have q: "unat (of_nat (q - 1) :: u8) = q - 1" "q - 1 < 3" using level_u8 assms(4) by auto
  show ?thesis
  proof (cases "stale p")
    case True
    then have "j \<in> set (Q' r) \<longleftrightarrow> r = q - 1" if "r < 3" for r using Q' [OF that] by simp
    then show ?thesis using p q True by (simp add: slot_ok_def aged_def) blast
  next
    case False
    then have "j \<in> set (Q' r) \<longleftrightarrow> r = q" if "r < 3" for r using Q' [OF that] by simp
    then show ?thesis using p assms(4) False by (simp add: slot_ok_def aged_def) blast
  qed
qed

lemma age_level_but:
  assumes inv: "sched_but {} c s Q" and q: "0 < q" "q < 3"
  obtains n h t where "age_walk q (queue_head s q) s = Some (relinked n h t (age_state q (Q q) s))"
    and "sched_but {} c (relinked n h t (age_state q (Q q) s)) (age_queues q [] (Q q) s Q)"
proof -
  note D = sched_butD [OF inv]
  have Qok: "j < 64 \<and> slot_ok c Q j (proc s j)" if "j \<in> set (Q r)" "r < 3" for j r
    using D(3) [of j] D(4) [OF that(2,1)] by simp
  have pid: "pid (proc s i) \<noteq> 0" if "i \<in> set (Q q)" for i
    using Qok [OF that q(2)] that q(2) by (auto simp: slot_ok_def)
  have "Q q = [] @ Q q" by simp
  from age_walk_exact [OF D(1) this q pid] obtain n h t where w: "age_walk q (first (Q q)) s = Some (relinked n h t (age_state q (Q q) s))"
      and r: "ready_queues n h t (age_queues q [] (Q q) s Q)"
    by blast
  have "slot_ok c (age_queues q [] (Q q) s Q) j (proc (age_state q (Q q) s) j)" if "j < 64" for j
  proof (cases "j \<in> set (Q q)")
    case True
    have "j \<notin> set (Q r)" if "r < 3" "r \<noteq> q" for r
      using ready_queues_disjoint [OF D(1) q(2) that(1) not_sym [OF that(2)] True] .
    then have "j \<in> set (age_queues q [] (Q q) s Q r) \<longleftrightarrow> r = (if stale (proc s j) then q - 1 else q)" if "r < 3" for r
      using True q that by (auto simp: age_queues_def)
    then have "slot_ok c (age_queues q [] (Q q) s Q) j (aged q (proc s j))"
      by (intro slot_ok_aged [where q = q and Q = Q] D(3) that True q) auto
    then show ?thesis using True by (simp add: age_state_def)
  next
    case False
    have "j \<in> set (age_queues q [] (Q q) s Q r) \<longleftrightarrow> j \<in> set (Q r)" if "r < 3" for r
      using False by (auto simp: age_queues_def)
    then have "slot_ok c (age_queues q [] (Q q) s Q) j (proc s j)"
      using slot_ok_other [of j 64 c Q "proc s j"] D(3) [OF that] that by simp
    then show ?thesis using False by (simp add: age_state_def)
  qed
  moreover have "set (age_queues q [] (Q q) s Q r) \<subseteq> {..<64}" if "r < 3" for r
    using D(4) [OF that] D(4) [OF q(2)] by (auto simp: age_queues_def split: if_splits)
  ultimately have "sched_but {} c (relinked n h t (age_state q (Q q) s)) (age_queues q [] (Q q) s Q)"
    using r D(2) unfolding sched_but_def by (intro conjI allI impI) simp_all
  moreover have "queue_head s q = first (Q q)" by (rule ready_queuesD(4) [OF D(1) q(2)])
  ultimately show thesis using that w by simp
qed

text \<open>
  The effect of an aging pass: of level 1 the stale processes move to the end of level 0, of level 2
  to the end of level 1, in their order; everyone else waits one tick longer where it is.
\<close>

definition aging_queues :: "system \<Rightarrow> (nat \<Rightarrow> nat list) \<Rightarrow> nat \<Rightarrow> nat list" where
  "aging_queues s Q =
     (\<lambda>q. if q \<ge> 3 then Q q
          else (if q = 0 then Q 0 else filter (\<lambda>i. \<not> stale (proc s i)) (Q q)) @
               (if q < 2 then filter (\<lambda>i. stale (proc s i)) (Q (q + 1)) else []))"

lemma apply_aging_exact:
  assumes inv: "sched_but {} c s Q"
  obtains s' where "apply_aging s = Some s'" and "sched_but {} c s' (aging_queues s Q)"
    and "\<And>i. proc s' i = (if i \<in> set (Q 1) then aged 1 (proc s i) else if i \<in> set (Q 2) then aged 2 (proc s i) else proc s i)
           \<lparr>nxt := nxt (proc s' i)\<rparr>"
    and "current_process s' = current_process s" "started s' = started s" "system_ticks s' = system_ticks s"
    "kheap_st s' = kheap_st s" "next_pid s' = next_pid s"
proof -
  note D = sched_butD [OF inv]
  obtain n h t where a1: "age_walk 1 (queue_head s 1) s = Some (relinked n h t (age_state 1 (Q 1) s))"
      and i1: "sched_but {} c (relinked n h t (age_state 1 (Q 1) s)) (age_queues 1 [] (Q 1) s Q)"
    by (rule age_level_but [OF inv, of 1]) auto
  let ?s1 = "relinked n h t (age_state 1 (Q 1) s)" and ?Q1 = "age_queues 1 [] (Q 1) s Q"
  obtain n' h' t' where a2: "age_walk 2 (queue_head ?s1 2) ?s1 = Some (relinked n' h' t' (age_state 2 (?Q1 2) ?s1))"
      and i2: "sched_but {} c (relinked n' h' t' (age_state 2 (?Q1 2) ?s1)) (age_queues 2 [] (?Q1 2) ?s1 ?Q1)"
    by (rule age_level_but [OF i1, of 2]) auto
  let ?s2 = "relinked n' h' t' (age_state 2 (?Q1 2) ?s1)" and ?Q2 = "age_queues 2 [] (?Q1 2) ?s1 ?Q1"
  have q2: "?Q1 2 = Q 2" by (simp add: age_queues_def)
  have dis: "i \<notin> set (Q 1)" if "i \<in> set (Q 2)" for i using ready_queues_disjoint [OF D(1), of 2 1 i] that by simp
  have "filter (\<lambda>j. stale (proc ?s1 j)) (Q 2) = filter (\<lambda>j. stale (proc s j)) (Q 2)"
      "filter (\<lambda>j. \<not> stale (proc ?s1 j)) (Q 2) = filter (\<lambda>j. \<not> stale (proc s j)) (Q 2)"
    using dis by (auto intro!: filter_cong simp: age_state_def stale_def)
  then have "?Q2 q = aging_queues s Q q" for q
    unfolding q2 by (cases "q < 3") (auto simp: less3 age_queues_def aging_queues_def numeral_2_eq_2)
  then have "?Q2 = aging_queues s Q" by (rule ext)
  moreover have "proc ?s2 i = (if i \<in> set (Q 1) then aged 1 (proc s i) else if i \<in> set (Q 2) then aged 2 (proc s i) else proc s i)
      \<lparr>nxt := nxt (proc ?s2 i)\<rparr>" for i
    using dis [of i] unfolding q2 by (auto simp: age_state_def aged_def stale_def)
  moreover have "apply_aging s = Some ?s2" using a1 a2 by (simp add: apply_aging_def)
  ultimately show thesis using that [of ?s2] i2 by (simp add: age_state_def)
qed

section \<open>The tick\<close>

text \<open>The lists after wake-up and aging.\<close>

definition tick_queues :: "system \<Rightarrow> (nat \<Rightarrow> nat list) \<Rightarrow> nat \<Rightarrow> nat list" where
  "tick_queues s Q = aging_queues (wake_state (system_ticks s) 64 s) (wake_queues (system_ticks s) 64 s Q)"

text \<open>Whether the running process \<open>c\<close> loses the CPU when the lists are \<open>Q\<close>.\<close>

definition preempts :: "system \<Rightarrow> nat \<Rightarrow> (nat \<Rightarrow> nat list) \<Rightarrow> bool" where
  "preempts s c Q \<longleftrightarrow>
     (\<exists>q < (if c = 0 then 3 else unat (priority (proc s c))). Q q \<noteq> []) \<or> quantum_left (proc s c) \<le> 1"

definition tick_spec :: "system \<Rightarrow> nat \<Rightarrow> (nat \<Rightarrow> nat list) \<Rightarrow> nat \<times> (nat \<Rightarrow> nat list)" where
  "tick_spec s c Q =
     (if preempts s c (tick_queues s Q)
      then sched_spec (state (proc s c) = RUNNING) c (unat (base_priority (proc s c))) (tick_queues s Q)
      else (c, tick_queues s Q))"

lemma aging_queues_cong:
  assumes "\<And>i. stale (proc s i) = stale (proc t i)"
  shows "aging_queues s Q = aging_queues t Q"
proof -
  have e: "(\<lambda>i. stale (proc s i)) = (\<lambda>i. stale (proc t i))" "(\<lambda>i. \<not> stale (proc s i)) = (\<lambda>i. \<not> stale (proc t i))"
    using assms by auto
  show ?thesis unfolding aging_queues_def e ..
qed

lemma quantum_step: "(if 0 < w then w - 1 else w) = 0 \<longleftrightarrow> w \<le> 1" for w :: u32
proof -
  have "w \<le> 1 \<longleftrightarrow> unat w \<le> 1" by (simp add: word_le_nat_alt)
  also have "\<dots> \<longleftrightarrow> w = 0 \<or> w = 1" by (auto simp: word_unat_eq_iff)
  finally show ?thesis by (auto simp: word_gt_0)
qed

text \<open>Slot \<open>j\<close> after wake-up and aging, when it is not running.\<close>

definition tick_pcb :: "system \<Rightarrow> (nat \<Rightarrow> nat list) \<Rightarrow> nat \<Rightarrow> process" where
  "tick_pcb s Q j =
     (let now = system_ticks s; p = woken now j (proc s j); W = wake_queues now 64 s Q
      in if j \<in> set (W 1) then aged 1 p else if j \<in> set (W 2) then aged 2 p else p)"

lemma tick_prepared:
  assumes "sched_wf s Q" and c: "current_process s = Some c"
  obtains s3 where "apply_aging (wake_sleepers (system_ticks s) (upd c (\<lambda>p. p\<lparr>cpu_ticks := cpu_ticks p + 1\<rparr>) s)) = Some s3"
    and "sched_but {} c s3 (tick_queues s Q)" "current_process s3 = Some c" "started s3 = started s"
    "kheap_st s3 = kheap_st s" "next_pid s3 = next_pid s" "system_ticks s3 = system_ticks s"
    "proc s3 c = (woken (system_ticks s) c ((proc s c)\<lparr>cpu_ticks := cpu_ticks (proc s c) + 1\<rparr>))\<lparr>nxt := nxt (proc s3 c)\<rparr>"
    "\<And>j. j < 64 \<Longrightarrow> j \<noteq> c \<Longrightarrow> same_pcb (proc s3 j) (tick_pcb s Q j)"
proof -
  let ?now = "system_ticks s" and ?s1 = "upd c (\<lambda>p. p\<lparr>cpu_ticks := cpu_ticks p + 1\<rparr>) s"
  have run: "state (proc s c) = RUNNING \<or> c = 0" and but: "sched_but {} c s Q"
    using assms by (auto simp: sched_wf_def sched_inv_def)
  note D = sched_butD [OF but]
  have i1: "sched_but {} c ?s1 Q" using but D(2,3) by (intro sched_but_upd_ok) auto
  have "state (proc ?s1 c) \<noteq> SLEEPING \<or> c = 0" using run by auto
  then have i2: "sched_but {} c (wake_sleepers ?now ?s1) (wake_queues ?now 64 ?s1 Q)" by (rule wake_sleepers_but [OF i1])
  obtain n h t where w: "wake_sleepers ?now ?s1 = relinked n h t (wake_state ?now 64 ?s1)"
    by (rule wake_sleepers_exact [OF i1])
  have wq: "wake_queues ?now 64 ?s1 Q = wake_queues ?now 64 s Q"
    by (auto simp: wake_queues_def due_def fun_eq_iff intro!: filter_cong)
  have "stale (proc (wake_sleepers ?now ?s1) i) = stale (proc (wake_state ?now 64 s) i)" for i
    unfolding w by (auto simp: wake_state_def woken_def due_def stale_def)
  then have tq: "aging_queues (wake_sleepers ?now ?s1) (wake_queues ?now 64 ?s1 Q) = tick_queues s Q"
    unfolding wq tick_queues_def by (rule aging_queues_cong)
  obtain s3 where a: "apply_aging (wake_sleepers ?now ?s1) = Some s3"
      and i3: "sched_but {} c s3 (aging_queues (wake_sleepers ?now ?s1) (wake_queues ?now 64 ?s1 Q))"
      and p: "\<And>i. proc s3 i = (if i \<in> set (wake_queues ?now 64 ?s1 Q 1) then aged 1 (proc (wake_sleepers ?now ?s1) i)
           else if i \<in> set (wake_queues ?now 64 ?s1 Q 2) then aged 2 (proc (wake_sleepers ?now ?s1) i)
           else proc (wake_sleepers ?now ?s1) i)\<lparr>nxt := nxt (proc s3 i)\<rparr>"
      and f: "current_process s3 = current_process (wake_sleepers ?now ?s1)" "started s3 = started (wake_sleepers ?now ?s1)"
        "system_ticks s3 = system_ticks (wake_sleepers ?now ?s1)" "kheap_st s3 = kheap_st (wake_sleepers ?now ?s1)"
        "next_pid s3 = next_pid (wake_sleepers ?now ?s1)"
    by (rule apply_aging_exact [OF i2]) blast
  have "slot_ok c (wake_queues ?now 64 ?s1 Q) c (proc (wake_sleepers ?now ?s1) c)"
    using sched_butD(2,3) [OF i2] by simp
  then have "c \<notin> set (wake_queues ?now 64 ?s1 Q 1)" "c \<notin> set (wake_queues ?now 64 ?s1 Q 2)"
    by (auto simp: slot_ok_def)
  then have "proc s3 c = (proc (wake_sleepers ?now ?s1) c)\<lparr>nxt := nxt (proc s3 c)\<rparr>" using p [of c] by simp
  also have "\<dots> = (woken ?now c ((proc s c)\<lparr>cpu_ticks := cpu_ticks (proc s c) + 1\<rparr>))\<lparr>nxt := nxt (proc s3 c)\<rparr>"
    using D(2) unfolding w by (simp add: wake_state_def)
  finally have pc: "proc s3 c = (woken ?now c ((proc s c)\<lparr>cpu_ticks := cpu_ticks (proc s c) + 1\<rparr>))\<lparr>nxt := nxt (proc s3 c)\<rparr>" .
  have "same_pcb (proc s3 j) (tick_pcb s Q j)" if "j < 64" "j \<noteq> c" for j
  proof -
    have wj: "proc (wake_sleepers ?now ?s1) j = (woken ?now j (proc s j))\<lparr>nxt := n j\<rparr>"
      using that unfolding w by (simp add: wake_state_def)
    have "same_pcb (proc s3 j) (if j \<in> set (wake_queues ?now 64 s Q 1) then aged 1 ((woken ?now j (proc s j))\<lparr>nxt := n j\<rparr>)
        else if j \<in> set (wake_queues ?now 64 s Q 2) then aged 2 ((woken ?now j (proc s j))\<lparr>nxt := n j\<rparr>)
        else (woken ?now j (proc s j))\<lparr>nxt := n j\<rparr>)"
      using same_pcbI [OF p [of j]] unfolding wq wj .
    then show ?thesis by (simp add: tick_pcb_def Let_def aged_nxt split: if_splits)
  qed
  then show thesis using that [OF a] i3 f c wake_sleepers_fields [OF i1] pc unfolding tq by simp
qed

lemma higher_ready_iff:
  assumes "sched_but {} c s Q" and "current_process s = Some c"
  shows "higher_ready s \<longleftrightarrow> (\<exists>q < (if c = 0 then 3 else unat (priority (proc s c))). Q q \<noteq> [])"
proof -
  note D = sched_butD [OF assms(1)]
  have ok: "slot_ok c Q c (proc s c)" using D(2,3) by simp
  have h: "queue_head s q \<noteq> None \<longleftrightarrow> Q q \<noteq> []" if "q < 3" for q
    using ready_queuesD(4) [OF D(1) that] by simp
  have p: "unat (priority (proc s c)) < 3" and z: "pid (proc s c) = 0 \<longleftrightarrow> c = 0" using ok by (auto simp: slot_ok_def)
  have "list_ex (\<lambda>q. queue_head s q \<noteq> None) [0..<k] \<longleftrightarrow> (\<exists>q<k. Q q \<noteq> [])" if "k \<le> 3" for k
    using h that by (auto simp: list_ex_iff)
  then show ?thesis using assms(2) p z by (auto simp: higher_ready_def) (meson order_less_trans)
qed

lemma scheduler_tick_refines:
  assumes wf: "sched_wf s Q" and "started s" and c: "current_process s = Some c" and spec: "tick_spec s c Q = (n, Q')"
  obtains s' where "scheduler_tick s = Some s'" and "sched_wf s' Q'" and "current_process s' = Some n"
    and "started s'" "system_ticks s' = system_ticks s"
    and "\<And>j. j < 64 \<Longrightarrow> j \<noteq> c \<Longrightarrow> j \<noteq> n \<Longrightarrow> state (tick_pcb s Q j) \<noteq> ZOMBIE \<Longrightarrow> same_pcb (proc s' j) (tick_pcb s Q j)"
    and "preempts s c (tick_queues s Q) \<Longrightarrow> top_queue (tick_queues s Q) \<noteq> None \<Longrightarrow> quantum_left (proc s' n) = 5"
    and "\<not> preempts s c (tick_queues s Q) \<Longrightarrow> quantum_left (proc s' n) = quantum_left (proc s c) - 1"
proof -
  let ?s1 = "upd c (\<lambda>p. p\<lparr>cpu_ticks := cpu_ticks p + 1\<rparr>) s"
  obtain s3 where a: "apply_aging (wake_sleepers (system_ticks s) ?s1) = Some s3"
      and i3: "sched_but {} c s3 (tick_queues s Q)" and c3: "current_process s3 = Some c" and st: "started s3 = started s"
      and p3: "proc s3 c = (woken (system_ticks s) c ((proc s c)\<lparr>cpu_ticks := cpu_ticks (proc s c) + 1\<rparr>))\<lparr>nxt := nxt (proc s3 c)\<rparr>"
      and pj: "\<And>j. j < 64 \<Longrightarrow> j \<noteq> c \<Longrightarrow> same_pcb (proc s3 j) (tick_pcb s Q j)" and tk: "system_ticks s3 = system_ticks s"
    by (rule tick_prepared [OF wf c]) blast
  let ?s4 = "if quantum_left (proc s3 c) > 0 then upd c (\<lambda>p. p\<lparr>quantum_left := quantum_left p - 1\<rparr>) s3 else s3"
  have run: "state (proc s c) = RUNNING \<or> c = 0" using wf c by (auto simp: sched_wf_def)
  have f: "priority (proc s3 c) = priority (proc s c)" "base_priority (proc s3 c) = base_priority (proc s c)"
      "quantum_left (proc s3 c) = quantum_left (proc s c)" "(state (proc s3 c) = RUNNING) = (state (proc s c) = RUNNING)"
    using arg_cong [OF p3, of priority] arg_cong [OF p3, of base_priority] arg_cong [OF p3, of quantum_left]
      arg_cong [OF p3, of state] by (simp_all add: woken_def due_def split: if_splits)
  have i4: "sched_but {} c ?s4 (tick_queues s Q)" using i3 sched_butD(2,3) [OF i3] by (auto intro!: sched_but_upd_ok)
  have inv4: "sched_inv ?s4 (tick_queues s Q)" using i4 c3 by (auto simp: sched_inv_def)
  have hr: "higher_ready s3 \<or> quantum_left (proc ?s4 c) = 0 \<longleftrightarrow> preempts s c (tick_queues s Q)"
    using higher_ready_iff [OF i3 c3] quantum_step [of "quantum_left (proc s c)"] f by (auto simp: preempts_def)
  have t: "scheduler_tick s = Some (if preempts s c (tick_queues s Q) then schedule ?s4 else ?s4)"
    using assms(2) a c c3 unfolding scheduler_tick_def hr [symmetric] by (simp add: Let_def)
  have p4: "proc ?s4 j = proc s3 j" if "j \<noteq> c" for j using that by simp
  have st4: "started ?s4" "system_ticks ?s4 = system_ticks s" using st tk assms(2) by simp_all
  show thesis
  proof (cases "preempts s c (tick_queues s Q)")
    case True
    have sp: "sched_spec (state (proc ?s4 (cur ?s4)) = RUNNING) (cur ?s4) (unat (base_priority (proc ?s4 (cur ?s4)))) (tick_queues s Q) = (n, Q')"
      using spec True f c3 by (simp add: tick_spec_def)
    note R = schedule_refines [OF inv4 st4(1) sp]
    have c4: "cur ?s4 = c" using c3 by simp
    have same: "same_pcb (proc (schedule ?s4) j) (tick_pcb s Q j)"
      if "j < 64" "j \<noteq> c" "j \<noteq> n" "state (tick_pcb s Q j) \<noteq> ZOMBIE" for j
    proof -
      have j4: "same_pcb (proc ?s4 j) (tick_pcb s Q j)" using pj [OF that(1,2)] p4 [OF that(2)] by simp
      have "state (proc ?s4 j) \<noteq> ZOMBIE" using same_pcbD(3) [OF j4] that(4) by simp
      moreover have "j \<noteq> cur ?s4" "current_process (schedule ?s4) \<noteq> Some j" using c4 R(1) that(2,3) by auto
      ultimately show ?thesis using same_pcb_trans [OF schedule_same j4] st4(1) by blast
    qed
    have t': "scheduler_tick s = Some (schedule ?s4)" using t True by simp
    have q5: "quantum_left (proc (schedule ?s4) n) = 5" if "top_queue (tick_queues s Q) \<noteq> None"
      using schedule_quantum(1) [OF inv4 st4(1) that] R(1) by simp
    show thesis
      by (rule that [OF t' R(2,1) _ _ same]) (use st4 q5 True in simp_all)
  next
    case False
    then have nc: "n = c" "Q' = tick_queues s Q" using spec by (auto simp: tick_spec_def)
    have w4: "sched_wf ?s4 Q'" using inv4 run f c3 nc by (auto simp: sched_wf_def)
    have t': "scheduler_tick s = Some ?s4" using t False by simp
    have "quantum_left (proc s c) \<noteq> 0" using False by (auto simp: preempts_def)
    then have ql: "quantum_left (proc ?s4 c) = quantum_left (proc s c) - 1" using f(3) by (simp add: word_gt_0)
    have same: "same_pcb (proc ?s4 j) (tick_pcb s Q j)" if "j < 64" "j \<noteq> c" for j using pj [OF that] p4 [OF that(2)] by simp
    show thesis
      by (rule that [OF t' w4]) (use c3 nc st4 same ql False in auto)
  qed
qed

text \<open>The timer interrupt; the end-of-interrupt command to the interrupt controller is port output only.\<close>

definition timer_handler :: "system \<Rightarrow> system option" where
  "timer_handler s = scheduler_tick (s\<lparr>system_ticks := system_ticks s + 1\<rparr>)"

lemma tick_clock_wf: "sched_wf s Q \<Longrightarrow> sched_wf (s\<lparr>system_ticks := w\<rparr>) Q"
  by (simp add: sched_wf_def sched_inv_def sched_but_def)

end
