(* ===== verification/Lifecycle.thy ===== *)
theory Lifecycle
  imports Sched_Tick
begin

text \<open>
  The life of a process, the second half of \<^verbatim>\<open>src/process/process.c\<close>: creation of
  kernel threads and ring 3 processes, exit, kill, wait and sleep, with the kernel stacks taken from and
  returned to the heap. The addresses of code that a control block stores
  (\<^verbatim>\<open>process_thread_exit\<close>, \<^verbatim>\<open>user_process_trampoline\<close>) are arguments.
\<close>

section \<open>Operations\<close>

text \<open>\<^verbatim>\<open>*(--sp) = v\<close>\<close>

definition stack_push :: "u32 \<Rightarrow> u32 \<times> (u32 \<Rightarrow> u32) \<Rightarrow> u32 \<times> (u32 \<Rightarrow> u32)" where
  "stack_push v = (\<lambda>(sp, m). (sp - 4, m(sp - 4 := v)))"

text \<open>
  The section of \<^verbatim>\<open>process_create\<close> that runs with interrupts disabled: a slot is taken and the new thread
  entered with its stack, or there is no free slot.
\<close>

definition create_enter ::
    "u32 \<Rightarrow> char list option \<Rightarrow> u32 \<Rightarrow> u32 \<Rightarrow> u8 \<Rightarrow> u32 \<Rightarrow> system \<Rightarrow> nat option \<times> system" where
  "create_enter thread_exit name entry arg prio stack s =
     (case alloc_pcb s of
        (None, s1) \<Rightarrow> (None, s1)
      | (Some i, s1) \<Rightarrow>
          let s2 = upd i (\<lambda>p. (copy_name name p)
                     \<lparr>ppid := (case current_process s1 of None \<Rightarrow> 0 | Some c \<Rightarrow> pid (proc s1 c)),
                      priority := prio, base_priority := prio, quantum_left := SCHED_QUANTUM_TICKS,
                      kstack := stack, kstack_top := stack + PROCESS_KSTACK_SIZE, is_user := False\<rparr>) s1;
              (sp, m) = fold stack_push [arg, thread_exit, entry, 0x202, 0, 0, 0, 0]
                          (kstack_top (proc s2 i), mem s2);
              s3 = upd i (\<lambda>p. p\<lparr>esp := sp, state := READY\<rparr>) (s2\<lparr>mem := m\<rparr>)
          in (Some i, scheduler_enqueue (Some i) s3))"

definition process_create ::
    "u32 \<Rightarrow> char list option \<Rightarrow> u32 \<Rightarrow> u32 \<Rightarrow> u8 \<Rightarrow> system \<Rightarrow> (nat option \<times> system) option" where
  "process_create thread_exit name entry arg prio s =
     (if entry = 0 \<or> unat prio \<ge> PRIORITY_LEVELS then Some (None, s)
      else do {
        (stack, h) \<leftarrow> kmalloc PROCESS_KSTACK_SIZE (kheap_st s);
        let s0 = s\<lparr>kheap_st := h\<rparr>;
        if stack = 0 then Some (None, s0)
        else case create_enter thread_exit name entry arg prio stack s0 of
          (None, s1) \<Rightarrow> Some (None, s1\<lparr>kheap_st := kfree stack (kheap_st s1)\<rparr>)
        | (Some i, s1) \<Rightarrow> Some (Some i, s1) })"

definition process_create_user ::
    "u32 \<Rightarrow> u32 \<Rightarrow> char list option \<Rightarrow> u32 \<Rightarrow> u8 \<Rightarrow> system \<Rightarrow> (nat option \<times> system) option" where
  "process_create_user thread_exit trampoline name entry prio s = do {
     (stack, h) \<leftarrow> kmalloc PROCESS_USTACK_SIZE (kheap_st s);
     let s0 = s\<lparr>kheap_st := h\<rparr>;
     if stack = 0 then Some (None, s0)
     else do {
       (r, s1) \<leftarrow> process_create thread_exit name trampoline 0 prio s0;
       case r of
         None \<Rightarrow> Some (None, s1\<lparr>kheap_st := kfree stack (kheap_st s1)\<rparr>)
       | Some i \<Rightarrow> Some (Some i, upd i (\<lambda>p. p\<lparr>is_user := True, ustack := stack,
                     ustack_top := ((stack + PROCESS_USTACK_SIZE) AND NOT 0xF) - 16, user_entry := entry\<rparr>) s1) } }"

text \<open>
  Interrupts are enabled during most of a creation: only \<open>create_enter\<close> runs with interrupts disabled. A creation
  in progress is therefore also a value: what it will do next and the stacks it holds. The user stack is 0 in the
  creation of a kernel thread. \<open>create_section\<close> is the code up to the next point at which
  the model lets an interrupt in: each call of the heap is one section, and the stores to the control block of
  the new ring 3 process another. The result is the rest of the creation or the return value.
\<close>

record create_args =
  a_name :: "char list option"
  a_entry :: u32
  a_arg :: u32
  a_prio :: u8
  a_user_entry :: u32

datatype creation =
    Call_User create_args
  | Call create_args u32
  | Stack_Held create_args u32 u32
  | No_Slot u32 u32
  | Undo u32
  | Entered create_args nat u32 u32

definition create_failed :: "u32 \<Rightarrow> creation + nat option" where
  "create_failed ust = (if ust = 0 then Inr None else Inl (Undo ust))"

fun create_section :: "u32 \<Rightarrow> creation \<Rightarrow> system \<Rightarrow> ((creation + nat option) \<times> system) option" where
  "create_section thread_exit (Call_User a) s = do {
     (ust, h) \<leftarrow> kmalloc PROCESS_USTACK_SIZE (kheap_st s);
     Some (if ust = 0 then Inr None else Inl (Call a ust), s\<lparr>kheap_st := h\<rparr>) }"
| "create_section thread_exit (Call a ust) s =
     (if a_entry a = 0 \<or> unat (a_prio a) \<ge> PRIORITY_LEVELS then Some (create_failed ust, s)
      else do {
        (stack, h) \<leftarrow> kmalloc PROCESS_KSTACK_SIZE (kheap_st s);
        Some (if stack = 0 then create_failed ust else Inl (Stack_Held a ust stack), s\<lparr>kheap_st := h\<rparr>) })"
| "create_section thread_exit (Stack_Held a ust stack) s =
     (case create_enter thread_exit (a_name a) (a_entry a) (a_arg a) (a_prio a) stack s of
        (None, s1) \<Rightarrow> Some (Inl (No_Slot ust stack), s1)
      | (Some i, s1) \<Rightarrow> Some (if ust = 0 then Inr (Some i) else Inl (Entered a i (pid (proc s1 i)) ust), s1))"
| "create_section thread_exit (No_Slot ust stack) s =
     Some (create_failed ust, s\<lparr>kheap_st := kfree stack (kheap_st s)\<rparr>)"
| "create_section thread_exit (Undo ust) s = Some (Inr None, s\<lparr>kheap_st := kfree ust (kheap_st s)\<rparr>)"
| "create_section thread_exit (Entered a i p ust) s =
     Some (Inr (Some i), upd i (\<lambda>q. q\<lparr>is_user := True, ustack := ust,
       ustack_top := ((ust + PROCESS_USTACK_SIZE) AND NOT 0xF) - 16, user_entry := a_user_entry a\<rparr>) s)"

text \<open>A creation that nothing interrupts.\<close>

primrec run_sections :: "u32 \<Rightarrow> nat \<Rightarrow> creation \<Rightarrow> system \<Rightarrow> (nat option \<times> system) option" where
  "run_sections thread_exit 0 c s = None"
| "run_sections thread_exit (Suc n) c s = do {
     (r, s1) \<leftarrow> create_section thread_exit c s;
     case r of Inr x \<Rightarrow> Some (x, s1) | Inl c1 \<Rightarrow> run_sections thread_exit n c1 s1 }"

text \<open>Freeing the user stack of slot \<open>i\<close>, and waking the parent that waits for it.\<close>

definition drop_ustack :: "nat \<Rightarrow> system \<Rightarrow> system" where
  "drop_ustack i s =
     (if ustack (proc s i) \<noteq> 0
      then upd i (\<lambda>p. p\<lparr>ustack := 0\<rparr>) (s\<lparr>kheap_st := kfree (ustack (proc s i)) (kheap_st s)\<rparr>) else s)"

definition wake_parent :: "nat \<Rightarrow> system \<Rightarrow> system" where
  "wake_parent i s =
     (case process_by_pid (ppid (proc s i)) s of
        None \<Rightarrow> s
      | Some r \<Rightarrow> if parent_waiting (proc s r) \<and> state (proc s r) = BLOCKED then scheduler_unblock (Some r) s else s)"

definition process_exit :: "int \<Rightarrow> system \<Rightarrow> system" where
  "process_exit code s =
     (let self = cur s;
          s1 = upd self (\<lambda>p. p\<lparr>exit_code := code, state := ZOMBIE\<rparr>) s
      in schedule (wake_parent self (drop_ustack self s1)))"

text \<open>The first component is \<^const>\<open>None\<close> when the call does not return.\<close>

definition process_kill :: "u32 \<Rightarrow> system \<Rightarrow> (int option \<times> system) option" where
  "process_kill p s =
     (if p = 0 then Some (Some (- 1), s)
      else case process_by_pid p s of
        None \<Rightarrow> Some (Some (- 1), s)
      | Some i \<Rightarrow>
          if state (proc s i) = UNUSED \<or> state (proc s i) = ZOMBIE then Some (Some (- 1), s)
          else if current_process s = Some i then Some (None, process_exit (- 1) s)
          else do {
            s1 \<leftarrow> scheduler_dequeue (Some i) s;
            let s2 = upd i (\<lambda>p. p\<lparr>exit_code := - 1, state := ZOMBIE\<rparr>) s1;
            Some (Some 0, wake_parent i (drop_ustack i s2)) })"

text \<open>The scan of the table for children: a zombie child, or whether there are children at all.\<close>

fun wait_scan :: "nat list \<Rightarrow> bool \<Rightarrow> system \<Rightarrow> nat + bool" where
  "wait_scan [] have_children s = Inr have_children"
| "wait_scan (i # is) have_children s =
     (if state (proc s i) = UNUSED then wait_scan is have_children s
      else if ppid (proc s i) \<noteq> pid (proc s (cur s)) \<or> i = cur s then wait_scan is have_children s
      else if state (proc s i) = ZOMBIE then Inl i
      else wait_scan is True s)"

datatype wait_result = Reaped u32 int | No_Children | Waiting

text \<open>
  One round of the loop of \<^verbatim>\<open>process_wait\<close>. After \<^term>\<open>Waiting\<close> the caller has been
  switched away; when it runs again, it continues with \<open>process_wait_resume\<close>.
\<close>

definition process_wait :: "system \<Rightarrow> wait_result \<times> system" where
  "process_wait s =
     (case wait_scan [0..<PROCESS_MAX] False s of
        Inl i \<Rightarrow> (Reaped (pid (proc s i)) (exit_code (proc s i)), process_release (Some i) s)
      | Inr False \<Rightarrow> (No_Children, s)
      | Inr True \<Rightarrow> (Waiting, scheduler_block_current (upd (cur s) (\<lambda>p. p\<lparr>parent_waiting := True, state := BLOCKED\<rparr>) s)))"

definition process_wait_resume :: "system \<Rightarrow> wait_result \<times> system" where
  "process_wait_resume s = process_wait (upd (cur s) (\<lambda>p. p\<lparr>parent_waiting := False\<rparr>) s)"

definition process_sleep :: "u32 \<Rightarrow> system \<Rightarrow> system" where
  "process_sleep ms s =
     (if ms = 0 then scheduler_yield s
      else let ticks = (ucast ((ms + 9) div 10) :: u64)
           in scheduler_block_current
                (upd (cur s) (\<lambda>p. p\<lparr>sleep_until := system_ticks s + ticks, state := SLEEPING\<rparr>) s))"

section \<open>Scheduling invariant\<close>

lemma sched_but_heap [simp]: "sched_but I c (s\<lparr>kheap_st := h\<rparr>) Q = sched_but I c s Q"
    "sched_but I c (s\<lparr>mem := m\<rparr>) Q = sched_but I c s Q" "sched_but I c (s\<lparr>next_pid := k\<rparr>) Q = sched_but I c s Q"
    "sched_but I c (s\<lparr>system_ticks := u\<rparr>) Q = sched_but I c s Q"
  by (simp_all add: sched_but_def)

lemma unblock_fields [simp]:
  "started (scheduler_unblock p s) = started s" "next_pid (scheduler_unblock p s) = next_pid s"
  "system_ticks (scheduler_unblock p s) = system_ticks s" "kheap_st (scheduler_unblock p s) = kheap_st s"
  "current_process (scheduler_unblock p s) = current_process s"
  "kstack (proc (scheduler_unblock p s) i) = kstack (proc s i)" "ustack (proc (scheduler_unblock p s) i) = ustack (proc s i)"
  by (simp_all add: scheduler_unblock_def split: option.split)

lemma wake_parent_fields [simp]:
  "started (wake_parent i s) = started s" "next_pid (wake_parent i s) = next_pid s"
  "system_ticks (wake_parent i s) = system_ticks s" "kheap_st (wake_parent i s) = kheap_st s"
  "current_process (wake_parent i s) = current_process s"
  "kstack (proc (wake_parent i s) j) = kstack (proc s j)" "ustack (proc (wake_parent i s) j) = ustack (proc s j)"
  by (simp_all add: wake_parent_def split: option.split)

lemma drop_ustack_fields [simp]:
  "started (drop_ustack i s) = started s" "next_pid (drop_ustack i s) = next_pid s"
  "system_ticks (drop_ustack i s) = system_ticks s" "current_process (drop_ustack i s) = current_process s"
  by (simp_all add: drop_ustack_def)

lemma exit_fields [simp]:
  "started (process_exit code s) = started s" "next_pid (process_exit code s) = next_pid s"
  "system_ticks (process_exit code s) = system_ticks s"
  by (simp_all add: process_exit_def Let_def)

text \<open>The fields of the state that queue operations do not touch.\<close>

definition same_env :: "system \<Rightarrow> system \<Rightarrow> bool" where
  "same_env s t \<longleftrightarrow> current_process s = current_process t \<and> started s = started t \<and> kheap_st s = kheap_st t \<and>
     next_pid s = next_pid t \<and> system_ticks s = system_ticks t \<and> mem s = mem t \<and> cpu_regs s = cpu_regs t"

lemma unblock_but:
  assumes inv: "sched_but {} c s Q" and r: "r < 64" "state (proc s r) = BLOCKED \<or> state (proc s r) = SLEEPING" "r \<noteq> c \<or> r = 0"
  obtains Q' where "sched_but {} c (scheduler_unblock (Some r) s) Q'"
    and "Q' = (if r = 0 then Q else Q(unat (priority (proc s r)) := Q (unat (priority (proc s r))) @ [r]))"
    and "same_env (scheduler_unblock (Some r) s) s"
    and "\<And>i. same_pcb (proc (scheduler_unblock (Some r) s) i)
       (if i = r then (proc s r)\<lparr>state := READY, wait_ticks := (if r = 0 then wait_ticks (proc s r) else 0)\<rparr> else proc s i)"
proof -
  have ok: "slot_ok c Q r (proc s r)" using sched_butD(3) [OF inv r(1)] by simp
  let ?s1 = "upd r (\<lambda>p. p\<lparr>state := READY\<rparr>) s"
  have u: "scheduler_unblock (Some r) s = scheduler_enqueue (Some r) ?s1" using r(2) by (simp add: scheduler_unblock_def)
  show thesis
  proof (cases "r = 0")
    case True
    have "pid (proc s r) = 0" using ok True by (simp add: slot_ok_def)
    then have e: "scheduler_enqueue (Some r) ?s1 = ?s1" by simp
    have "slot_ok c Q r ((proc s r)\<lparr>state := READY\<rparr>)" using ok r True by (auto simp: slot_ok_def)
    then have "sched_but {} c ?s1 Q" using inv by (intro sched_but_upd_ok) auto
    then show thesis using that [of Q] True unfolding u e by (simp add: same_env_def)
  next
    case False
    let ?q = "unat (priority (proc s r))"
    have p: "pid (proc ?s1 r) \<noteq> 0" "state (proc ?s1 r) = READY" "unat (priority (proc ?s1 r)) = ?q" "?q < 3"
        "unat (base_priority (proc ?s1 r)) < 3"
      using ok r False by (auto simp: slot_ok_def)
    have o: "r \<notin> set (Q k)" if "k < 3" for k
      by (rule slot_ok_unqueued [OF ok _ that]) (use r(2) in auto)
    have rc: "r \<noteq> c" using r(3) False by simp
    have b: "sched_but {r} c s Q" by (rule sched_but_mono [OF inv]) simp
    have b1: "sched_but {r} c ?s1 Q" by (rule sched_but_upd [OF b]) simp_all
    obtain n h t where e: "scheduler_enqueue (Some r) ?s1 = relinked n h t (upd r (\<lambda>p. p\<lparr>wait_ticks := 0\<rparr>) ?s1)"
        and b2: "sched_but ({r} - {r}) c (scheduler_enqueue (Some r) ?s1) (Q(?q := Q ?q @ [r]))"
      by (rule enqueue_but [OF b1 singletonI r(1) rc False p o])
    have b': "sched_but {} c (scheduler_enqueue (Some r) ?s1) (Q(?q := Q ?q @ [r]))" using b2 by simp
    show thesis
      by (rule that [of "Q(?q := Q ?q @ [r])"], use b' u in simp, use False in simp)
        (simp_all add: u e same_env_def False)
  qed
qed

lemma drop_ustack_eq:
  "drop_ustack i s = (upd i (\<lambda>p. p\<lparr>ustack := 0\<rparr>) s)\<lparr>kheap_st := kfree (ustack (proc s i)) (kheap_st s)\<rparr>"
proof (cases "ustack (proc s i) = 0")
  case True
  then have e: "(proc s i)\<lparr>ustack := 0\<rparr> = proc s i" by (cases "proc s i") simp
  show ?thesis unfolding drop_ustack_def upd_def e using True by simp
qed (simp add: drop_ustack_def upd_def)

lemma drop_ustack_but: "sched_but I c s Q \<Longrightarrow> sched_but I c (drop_ustack i s) Q"
  unfolding drop_ustack_eq by (auto simp: sched_butD intro!: sched_but_upd_ok)

lemma wake_parent_cases:
  obtains (same) "wake_parent i s = s"
    | (wake) r where "wake_parent i s = scheduler_unblock (Some r) s" "r < 64" "state (proc s r) = BLOCKED"
        "parent_waiting (proc s r)" "process_by_pid (ppid (proc s i)) s = Some r"
proof (cases "process_by_pid (ppid (proc s i)) s")
  case None
  then show thesis using same by (simp add: wake_parent_def)
next
  case (Some r)
  show thesis
  proof (cases "parent_waiting (proc s r) \<and> state (proc s r) = BLOCKED")
    case True
    then show thesis using wake [of r] Some process_by_pid_Some [OF Some] by (simp add: wake_parent_def)
  next
    case False
    then show thesis using same Some by (auto simp: wake_parent_def)
  qed
qed

lemma wake_parent_but:
  assumes "sched_but {} c s Q" and "state (proc s c) \<noteq> BLOCKED \<or> c = 0"
  obtains Q' where "sched_but {} c (wake_parent i s) Q'" "same_env (wake_parent i s) s"
    "\<And>j. same_pcb (proc (wake_parent i s) j) (proc s j) \<or>
       state (proc s j) = BLOCKED \<and> (\<exists>w. same_pcb (proc (wake_parent i s) j) ((proc s j)\<lparr>state := READY, wait_ticks := w\<rparr>))"
proof (cases i s rule: wake_parent_cases)
  case same
  show thesis by (rule that [of Q]) (use same assms(1) in \<open>simp_all add: same_env_def\<close>)
next
  case (wake r)
  have "r \<noteq> c \<or> r = 0" using assms(2) wake(3) by auto
  with assms(1) wake(2) disjI1 [OF wake(3)] show thesis
  proof (rule unblock_but)
    fix Q'
    assume a: "sched_but {} c (scheduler_unblock (Some r) s) Q'" "same_env (scheduler_unblock (Some r) s) s"
      and p: "\<And>i. same_pcb (proc (scheduler_unblock (Some r) s) i)
       (if i = r then (proc s r)\<lparr>state := READY, wait_ticks := (if r = 0 then wait_ticks (proc s r) else 0)\<rparr> else proc s i)"
    have "same_pcb (proc (scheduler_unblock (Some r) s) j) (proc s j) \<or> state (proc s j) = BLOCKED \<and>
        (\<exists>w. same_pcb (proc (scheduler_unblock (Some r) s) j) ((proc s j)\<lparr>state := READY, wait_ticks := w\<rparr>))" for j
      using p [of j] wake(3) by (cases "j = r") auto
    then show thesis using that [of Q'] a unfolding wake(1) by blast
  qed
qed

lemma sched_wfD:
  assumes "sched_wf s Q"
  obtains c where "current_process s = Some c" "sched_but {} c s Q" "state (proc s c) = RUNNING \<or> c = 0" "c < 64"
    "slot_ok c Q c (proc s c)"
proof -
  obtain c where c: "current_process s = Some c" using assms by (auto simp: sched_wf_def sched_inv_def)
  then have b: "sched_but {} c s Q" using assms by (simp add: sched_wf_def sched_inv_def)
  show thesis using that [OF c b] assms c sched_butD(2,3) [OF b] by (auto simp: sched_wf_def)
qed

lemma sched_but_close:
  "sched_but I c s Q \<Longrightarrow> (\<And>i. i \<in> I \<Longrightarrow> i < 64 \<Longrightarrow> slot_ok c Q i (proc s i)) \<Longrightarrow> sched_but {} c s Q"
  by (auto simp: sched_but_def)

text \<open>Blocking: any state that keeps the running slot off the queues may be handed to \<^verbatim>\<open>schedule\<close>.\<close>

lemma schedule_wf:
  assumes "sched_but {} c s Q" and "current_process s = Some c" and "started s"
  obtains Q' where "sched_wf (schedule s) Q'"
proof -
  have "sched_inv s Q" using assms by (simp add: sched_inv_def)
  moreover obtain n Q' where "sched_spec (state (proc s (cur s)) = RUNNING) (cur s) (unat (base_priority (proc s (cur s)))) Q = (n, Q')"
    by fastforce
  ultimately show thesis using schedule_refines(2) [OF _ assms(3)] that by blast
qed

lemma exit_wf:
  assumes wf: "sched_wf s Q" and "started s" and "cur s \<noteq> 0"
  obtains Q' where "sched_wf (process_exit code s) Q'"
proof (rule sched_wfD [OF wf])
  fix c
  assume c: "current_process s = Some c" "sched_but {} c s Q" "state (proc s c) = RUNNING \<or> c = 0" "c < 64" "slot_ok c Q c (proc s c)"
  let ?s1 = "upd c (\<lambda>p. p\<lparr>exit_code := code, state := ZOMBIE\<rparr>) s"
  have c0: "c \<noteq> 0" using assms(3) c(1) by simp
  have "c \<notin> set (Q q)" if "q < 3" for q using slot_ok_unqueued [OF c(5) _ that] c(3) c0 by auto
  then have ok: "slot_ok c Q c ((proc s c)\<lparr>exit_code := code, state := ZOMBIE\<rparr>)"
    using c(5) c0 c(3) by (simp add: slot_ok_def)
  have "sched_but {} c ?s1 Q" by (rule sched_but_upd_ok [OF c(2)]) (use ok in simp_all)
  then have b: "sched_but {} c (drop_ustack c ?s1) Q" by (rule drop_ustack_but)
  have z: "state (proc (drop_ustack c ?s1) c) = ZOMBIE" by (simp add: drop_ustack_eq)
  show thesis
  proof (rule wake_parent_but [OF b, of c])
    show "state (proc (drop_ustack c ?s1) c) \<noteq> BLOCKED \<or> c = 0" using z by simp
  next
    fix Q'
    assume w: "sched_but {} c (wake_parent c (drop_ustack c ?s1)) Q'" "same_env (wake_parent c (drop_ustack c ?s1)) (drop_ustack c ?s1)"
    have "current_process (wake_parent c (drop_ustack c ?s1)) = Some c" "started (wake_parent c (drop_ustack c ?s1))"
      using w(2) c(1) assms(2) by (simp_all add: same_env_def drop_ustack_eq)
    then obtain Q'' where "sched_wf (schedule (wake_parent c (drop_ustack c ?s1))) Q''" by (rule schedule_wf [OF w(1)])
    then show thesis using that [of Q''] c(1) by (simp add: process_exit_def Let_def)
  qed
qed

lemma kill_cases:
  assumes wf: "sched_wf s Q" and p: "process_by_pid p s = Some i" and "p \<noteq> 0" and "state (proc s i) \<noteq> ZOMBIE"
    and c: "current_process s = Some c" "i \<noteq> c"
  obtains n h t Q' where "scheduler_dequeue (Some i) s = Some (relinked n h t s)" "i < 64" "i \<noteq> 0"
    "sched_but {} c (upd i (\<lambda>p. p\<lparr>exit_code := - 1, state := ZOMBIE\<rparr>) (relinked n h t s)) Q'"
    "\<And>q. q < 3 \<Longrightarrow> Q' q = removeAll i (Q q)"
proof -
  have b: "sched_but {} c s Q" using wf c(1) by (simp add: sched_wf_def sched_inv_def)
  note D = sched_butD [OF b]
  have i: "i < 64" "pid (proc s i) \<noteq> 0" "state (proc s i) \<noteq> UNUSED" using process_by_pid_Some [OF p] assms(3) by auto
  have ok: "slot_ok c Q i (proc s i)" using D(3) i(1) by simp
  then have i0: "i \<noteq> 0" using i(2) by (auto simp: slot_ok_def)
  have fin: "slot_ok c Q' i ((proc s i)\<lparr>exit_code := - 1, state := ZOMBIE\<rparr>)" if "\<And>q. q < 3 \<Longrightarrow> i \<notin> set (Q' q)" for Q'
    using ok i i0 c(2) that by (simp add: slot_ok_def)
  show thesis
  proof (cases "\<exists>q<3. i \<in> set (Q q)")
    case False
    then have d: "scheduler_dequeue (Some i) s = Some s" using dequeue_absent [OF D(1)] by blast
    have "sched_but {} c (upd i (\<lambda>p. p\<lparr>exit_code := - 1, state := ZOMBIE\<rparr>) s) Q"
      by (rule sched_but_upd_ok [OF b]) (use fin False in simp_all)
    moreover have "Q q = removeAll i (Q q)" if "q < 3" for q using False that by (simp add: removeAll_id)
    ultimately show thesis using that d i(1) i0 relinked_id [of s] by metis
  next
    case True
    then obtain q where q: "q < 3" "i \<in> set (Q q)" by blast
    then obtain xs ys where Q: "Q q = xs @ i # ys" by (meson split_list)
    have dist: "i \<notin> set xs" "i \<notin> set ys" using ready_queuesD(3) [OF D(1) q(1)] Q by auto
    obtain n h t where d: "scheduler_dequeue (Some i) s = Some (relinked n h t s)"
        and r: "ready_queues n h t (Q(q := xs @ ys))" by (rule dequeue_refines [OF D(1) q(1) Q])
    let ?Q = "Q(q := xs @ ys)"
    have out: "i \<notin> set (?Q r)" if "r < 3" for r
      using dist ready_queues_disjoint [OF D(1) q(1) that _ q(2)] by (cases "r = q") auto
    have others: "slot_ok c ?Q j (proc s j)" if "j < 64" "j \<noteq> i" for j
    proof -
      have "j \<in> set (?Q r) \<longleftrightarrow> j \<in> set (Q r)" for r using that(2) Q by auto
      then show ?thesis using slot_ok_other [of j i c Q "proc s j" ?Q] D(3) [OF that(1)] that(2) by simp
    qed
    have "set (?Q r) \<subseteq> {..<64}" if "r < 3" for r using D(4) [OF that] D(4) [OF q(1)] Q by auto
    then have "sched_but {i} c (relinked n h t s) ?Q"
      using r D(2) others unfolding sched_but_def by (intro conjI allI impI) simp_all
    then have "sched_but {i} c (upd i (\<lambda>p. p\<lparr>exit_code := - 1, state := ZOMBIE\<rparr>) (relinked n h t s)) ?Q"
      by (rule sched_but_upd) simp_all
    moreover have "slot_ok c ?Q i ((proc s i)\<lparr>exit_code := - 1, state := ZOMBIE\<rparr>)" by (rule fin [OF out])
    ultimately have "sched_but {} c (upd i (\<lambda>p. p\<lparr>exit_code := - 1, state := ZOMBIE\<rparr>) (relinked n h t s)) ?Q"
      by (intro sched_but_close [of "{i}"]) (simp_all add: slot_ok_def)
    moreover have "?Q r = removeAll i (Q r)" if "r < 3" for r
      using dist Q ready_queues_disjoint [OF D(1) q(1) that _ q(2)] by (cases "r = q") (simp_all add: removeAll_id)
    ultimately show thesis using that [OF d i(1) i0] by blast
  qed
qed

lemma kill_wf:
  assumes wf: "sched_wf s Q" and "started s"
  obtains r s' Q' where "process_kill p s = Some (r, s')" "sched_wf s' Q'" "started s'"
proof (rule sched_wfD [OF wf])
  fix c
  assume c: "current_process s = Some c" "sched_but {} c s Q" "state (proc s c) = RUNNING \<or> c = 0" "slot_ok c Q c (proc s c)"
  show thesis
  proof (cases "p = 0 \<or> (case process_by_pid p s of None \<Rightarrow> True | Some i \<Rightarrow> state (proc s i) = ZOMBIE)")
    case True
    then have "process_kill p s = Some (Some (- 1), s)"
      by (auto simp: process_kill_def split: option.splits)
    then show thesis using that wf assms(2) by blast
  next
    case False
    then obtain i where i: "process_by_pid p s = Some i" "p \<noteq> 0" "state (proc s i) \<noteq> ZOMBIE" by (auto split: option.splits)
    have i': "i < 64" "state (proc s i) \<noteq> UNUSED" "pid (proc s i) = p" using process_by_pid_Some [OF i(1)] by simp_all
    show thesis
    proof (cases "i = c")
      case True
      have k: "process_kill p s = Some (None, process_exit (- 1) s)" using i i' c(1) True by (simp add: process_kill_def)
      have "cur s \<noteq> 0" using slot_ok_pid [OF c(4)] c(1) i' i(2) True by simp
      then obtain Q' where "sched_wf (process_exit (- 1) s) Q'" by (rule exit_wf [OF wf assms(2)])
      moreover have "started (process_exit (- 1) s)" using assms(2) by simp
      ultimately show thesis using that k by blast
    next
      case False
      show thesis
      proof (rule kill_cases [OF wf i(1,2,3) c(1) False])
        fix n h t Q1
        assume k: "scheduler_dequeue (Some i) s = Some (relinked n h t s)" "i < 64" "i \<noteq> 0"
          "sched_but {} c (upd i (\<lambda>p. p\<lparr>exit_code := - 1, state := ZOMBIE\<rparr>) (relinked n h t s)) Q1"
        let ?s2 = "upd i (\<lambda>p. p\<lparr>exit_code := - 1, state := ZOMBIE\<rparr>) (relinked n h t s)"
        let ?s3 = "drop_ustack i ?s2"
        have b: "sched_but {} c ?s3 Q1" by (rule drop_ustack_but [OF k(4)])
        have pc: "state (proc ?s3 c) = state (proc s c)" using False by (simp add: drop_ustack_eq)
        have kill: "process_kill p s = Some (Some 0, wake_parent i ?s3)"
          using i i' c(1) False k(1) by (simp add: process_kill_def)
        show thesis
        proof (rule wake_parent_but [OF b, of i])
          show "state (proc ?s3 c) \<noteq> BLOCKED \<or> c = 0" using pc c(3) by auto
        next
          fix Q'
          assume w: "sched_but {} c (wake_parent i ?s3) Q'" "same_env (wake_parent i ?s3) ?s3"
            "\<And>j. same_pcb (proc (wake_parent i ?s3) j) (proc ?s3 j) \<or> state (proc ?s3 j) = BLOCKED \<and>
              (\<exists>w. same_pcb (proc (wake_parent i ?s3) j) ((proc ?s3 j)\<lparr>state := READY, wait_ticks := w\<rparr>))"
          have e: "current_process (wake_parent i ?s3) = Some c" "started (wake_parent i ?s3)"
            using w(2) c(1) assms(2) by (simp_all add: same_env_def drop_ustack_eq)
          have "state (proc (wake_parent i ?s3) c) = RUNNING \<or> c = 0"
            using w(3) [of c] pc c(3) same_pcbD(3) by auto
          then have "sched_wf (wake_parent i ?s3) Q'" using w(1) e(1) by (simp add: sched_wf_def sched_inv_def)
          then show thesis using that kill e(2) by blast
        qed
      qed
    qed
  qed
qed

subsection \<open>Waiting, sleeping and yielding\<close>

definition child :: "system \<Rightarrow> nat \<Rightarrow> bool" where
  "child s i \<longleftrightarrow> state (proc s i) \<noteq> UNUSED \<and> ppid (proc s i) = pid (proc s (cur s)) \<and> i \<noteq> cur s"

lemma wait_scan_spec:
  "wait_scan is b s = (case find (\<lambda>i. child s i \<and> state (proc s i) = ZOMBIE) is of
     Some i \<Rightarrow> Inl i | None \<Rightarrow> Inr (b \<or> (\<exists>i\<in>set is. child s i)))"
  by (induction "is" arbitrary: b) (auto simp: child_def split: option.splits)

lemma process_wait_cases:
  obtains (reap) i where "i < 64" "child s i" "state (proc s i) = ZOMBIE"
      "process_wait s = (Reaped (pid (proc s i)) (exit_code (proc s i)), process_release (Some i) s)"
    | (none) "\<And>i. i < 64 \<Longrightarrow> \<not> child s i" "process_wait s = (No_Children, s)"
    | (wait) "\<exists>i<64. child s i" "\<And>i. i < 64 \<Longrightarrow> child s i \<Longrightarrow> state (proc s i) \<noteq> ZOMBIE"
        "process_wait s = (Waiting, schedule (upd (cur s) (\<lambda>p. p\<lparr>parent_waiting := True, state := BLOCKED\<rparr>) s))"
proof (cases "find (\<lambda>i. child s i \<and> state (proc s i) = ZOMBIE) [0..<64]")
  case (Some i)
  then have "i < 64" "child s i" "state (proc s i) = ZOMBIE" by (simp_all add: find_upt_Some_iff)
  moreover have "wait_scan [0..<64] False s = Inl i" by (simp only: wait_scan_spec Some option.case)
  ultimately show thesis using reap by (simp add: process_wait_def)
next
  case None
  then have z: "state (proc s i) \<noteq> ZOMBIE" if "i < 64" "child s i" for i using that by (simp add: find_upt_None_iff)
  have w: "wait_scan [0..<64] False s = Inr (\<exists>i<64. child s i)"
    by (simp only: wait_scan_spec None option.case) auto
  show thesis
  proof (cases "\<exists>i<64. child s i")
    case True
    then show thesis using wait z w by (simp add: process_wait_def scheduler_block_current_def)
  next
    case False
    then have "wait_scan [0..<64] False s = Inr False" using w by simp
    then show thesis using none False by (simp add: process_wait_def)
  qed
qed

text \<open>The running process may give up the CPU in any waiting state.\<close>

lemma block_wf:
  assumes wf: "sched_wf s Q" and "started s" and c: "current_process s = Some c"
    and f: "\<And>p. nxt (f p) = nxt p" "\<And>p. pid (f p) = pid p" "\<And>p. priority (f p) = priority p" "\<And>p. base_priority (f p) = base_priority p"
    and st: "state (f (proc s c)) = BLOCKED \<or> state (f (proc s c)) = SLEEPING \<or> state (f (proc s c)) = state (proc s c)"
  obtains Q' where "sched_wf (schedule (upd c f s)) Q'"
proof (rule sched_wfD [OF wf])
  fix c'
  assume a: "current_process s = Some c'" "sched_but {} c' s Q" "state (proc s c') = RUNNING \<or> c' = 0" "slot_ok c' Q c' (proc s c')"
  then have e: "c' = c" using c by simp
  have nq: "c \<notin> set (Q q)" if "q < 3" for q using a(4) that unfolding e slot_ok_def by blast
  have "slot_ok c Q c (f (proc s c))"
    using a(3,4) st nq unfolding e by (auto simp: slot_ok_def f)
  then have "sched_but {} c (upd c f s) Q" using a(2) unfolding e by (intro sched_but_upd_ok) (simp_all add: f)
  then show thesis using schedule_wf [of c "upd c f s" Q] c assms(2) that by auto
qed

lemma release_wf:
  assumes wf: "sched_wf s Q" and i: "i < 64" "state (proc s i) = ZOMBIE" "i \<noteq> cur s"
  shows "sched_wf (process_release (Some i) s) Q"
proof (rule sched_wfD [OF wf])
  fix c
  assume a: "current_process s = Some c" "sched_but {} c s Q" "state (proc s c) = RUNNING \<or> c = 0"
  have ic: "i \<noteq> c" using i(3) a(1) by simp
  have ok: "slot_ok c Q i (proc s i)" using sched_butD(3) [OF a(2) i(1)] by simp
  have i0: "i \<noteq> 0" using ok i(2) unfolding slot_ok_def by blast
  have nq: "i \<notin> set (Q q)" if "q < 3" for q by (rule slot_ok_unqueued [OF ok _ that]) (simp add: i(2))
  have e: "process_release (Some i) s = (upd i (\<lambda>p. p\<lparr>kstack := 0, ustack := 0, state := UNUSED, pid := 0\<rparr>) s)
      \<lparr>kheap_st := kfree (ustack (proc s i)) (kfree (kstack (proc s i)) (kheap_st s))\<rparr>"
    by (rule process_release_eq) (use a(1) ic in simp)
  have "slot_ok c Q i ((proc s i)\<lparr>kstack := 0, ustack := 0, state := UNUSED, pid := 0\<rparr>)"
    using i0 ic nq by (simp add: slot_ok_def)
  then have "sched_but {} c (upd i (\<lambda>p. p\<lparr>kstack := 0, ustack := 0, state := UNUSED, pid := 0\<rparr>) s) Q"
    by (intro sched_but_upd_ok [OF a(2)]) simp_all
  then show ?thesis unfolding e using a ic by (simp add: sched_wf_def sched_inv_def)
qed

lemma wait_wf:
  assumes wf: "sched_wf s Q" and "started s"
  obtains Q' where "sched_wf (snd (process_wait s)) Q'"
proof (cases rule: process_wait_cases [of s])
  case (reap i)
  then show thesis using release_wf [OF wf, of i] that [of Q] by (simp add: child_def)
next
  case none
  then show thesis using wf that [of Q] by simp
next
  case wait
  obtain c where "current_process s = Some c" using wf by (rule sched_wfD)
  then show thesis
    using block_wf [OF wf assms(2), of c "\<lambda>p. p\<lparr>parent_waiting := True, state := BLOCKED\<rparr>"] wait that by auto
qed

lemma yield_wf:
  assumes wf: "sched_wf s Q" and "started s"
  obtains Q' where "sched_wf (scheduler_yield s) Q'"
proof -
  obtain c where "current_process s = Some c" using wf by (rule sched_wfD)
  then show thesis
    using block_wf [OF wf assms(2), of c "\<lambda>p. p\<lparr>quantum_left := 0\<rparr>"] that assms(2) by (auto simp: scheduler_yield_def)
qed

lemma sleep_wf:
  assumes wf: "sched_wf s Q" and "started s"
  obtains Q' where "sched_wf (process_sleep ms s) Q'"
proof (cases "ms = 0")
  case True
  then show thesis using yield_wf [OF assms] that by (auto simp: process_sleep_def)
next
  case False
  obtain c where "current_process s = Some c" using wf by (rule sched_wfD)
  then show thesis
    using block_wf [OF wf assms(2), of c "\<lambda>p. p\<lparr>sleep_until := system_ticks s + ucast ((ms + 9) div 10), state := SLEEPING\<rparr>"]
      that False by (auto simp: process_sleep_def scheduler_block_current_def Let_def)
qed

subsection \<open>Creation\<close>

text \<open>The control block and the stack frame of a new thread.\<close>

definition new_pcb :: "system \<Rightarrow> char list option \<Rightarrow> u8 \<Rightarrow> u32 \<Rightarrow> process" where
  "new_pcb s name prio stack = (copy_name name (pcb_zero\<lparr>pid := next_pid s\<rparr>))
     \<lparr>ppid := process_getpid s, priority := prio, base_priority := prio, quantum_left := 5,
      kstack := stack, kstack_top := stack + 16384, is_user := False, esp := stack + 16352, state := READY\<rparr>"

definition new_frame :: "u32 \<Rightarrow> u32 \<Rightarrow> u32 \<Rightarrow> u32 \<Rightarrow> (u32 \<Rightarrow> u32) \<Rightarrow> u32 \<Rightarrow> u32" where
  "new_frame thread_exit entry arg stack m =
     m(stack + 16380 := arg, stack + 16376 := thread_exit, stack + 16372 := entry, stack + 16368 := 0x202,
       stack + 16364 := 0, stack + 16360 := 0, stack + 16356 := 0, stack + 16352 := 0)"

lemma push_frame:
  "fold stack_push [arg, thread_exit, entry, 0x202, 0, 0, 0, 0] (stack + 16384, m) =
     (stack + 16352, new_frame thread_exit entry arg stack m)"
  by (simp add: stack_push_def new_frame_def add.commute)

lemma create_enter_cases:
  assumes cur: "\<And>i. current_process s = Some i \<Longrightarrow> state (proc s i) \<noteq> UNUSED"
  obtains (full) "create_enter te name entry arg prio stack s = (None, s)"
    | (entered) i where "create_enter te name entry arg prio stack s = (Some i,
          scheduler_enqueue (Some i) (upd i (\<lambda>_. new_pcb s name prio stack)
            (s\<lparr>kheap_st := kheap_st s, next_pid := next_pid s + 1, mem := new_frame te entry arg stack (mem s)\<rparr>)))"
        "i < 64" "state (proc s i) = UNUSED" "\<And>j. j < i \<Longrightarrow> state (proc s j) \<noteq> UNUSED"
proof (cases "find (\<lambda>i. state (proc s i) = UNUSED) [0..<64]")
  case None
  then show thesis using full by (simp add: create_enter_def alloc_pcb_def)
next
  case (Some i)
  then have i: "i < 64" "state (proc s i) = UNUSED" "\<And>j. j < i \<Longrightarrow> state (proc s j) \<noteq> UNUSED"
    by (simp_all add: find_upt_Some_iff)
  define t where "t = (upd i (\<lambda>_. pcb_zero\<lparr>pid := next_pid s\<rparr>) s)\<lparr>next_pid := next_pid s + 1\<rparr>"
  have a: "alloc_pcb s = (Some i, t)" using Some by (simp add: alloc_pcb_def t_def)
  have ci: "current_process s \<noteq> Some i" using cur i(2) by auto
  have t: "proc t i = pcb_zero\<lparr>pid := next_pid s\<rparr>" "mem t = mem s" by (simp_all add: t_def)
  have pp: "(case current_process t of None \<Rightarrow> 0 | Some c \<Rightarrow> pid (proc t c)) = process_getpid s"
    using ci by (auto simp: process_getpid_def t_def split: option.split)
  have "create_enter te name entry arg prio stack s = (Some i, scheduler_enqueue (Some i)
      (upd i (\<lambda>p. p\<lparr>esp := stack + 16352, state := READY\<rparr>)
        ((upd i (\<lambda>p. (copy_name name p)\<lparr>ppid := process_getpid s, priority := prio, base_priority := prio, quantum_left := 5,
            kstack := stack, kstack_top := stack + 16384, is_user := False\<rparr>) t)
          \<lparr>mem := new_frame te entry arg stack (mem s)\<rparr>)))"
    using a pp push_frame [of arg te entry stack "mem s"] unfolding create_enter_def
    by (simp add: Let_def t del: fold_simps)
  also have "upd i (\<lambda>p. p\<lparr>esp := stack + 16352, state := READY\<rparr>)
        ((upd i (\<lambda>p. (copy_name name p)\<lparr>ppid := process_getpid s, priority := prio, base_priority := prio, quantum_left := 5,
            kstack := stack, kstack_top := stack + 16384, is_user := False\<rparr>) t)
          \<lparr>mem := new_frame te entry arg stack (mem s)\<rparr>) =
      upd i (\<lambda>_. new_pcb s name prio stack)
        (s\<lparr>kheap_st := kheap_st s, next_pid := next_pid s + 1, mem := new_frame te entry arg stack (mem s)\<rparr>)"
    by (auto simp: t_def new_pcb_def intro!: system_eqI)
  finally show thesis using entered i by blast
qed

lemma process_create_cases:
  assumes live: "heap_live (kheap_st s) U" and cur: "\<And>i. current_process s = Some i \<Longrightarrow> state (proc s i) \<noteq> UNUSED"
  obtains (refused) s' where "process_create te name entry arg prio s = Some (None, s')"
      "s' = s\<lparr>kheap_st := kheap_st s'\<rparr>" "heap_live (kheap_st s') U"
    | (made) i stack h m where "process_create te name entry arg prio s = Some (Some i,
          scheduler_enqueue (Some i) (upd i (\<lambda>_. new_pcb s name prio stack)
            (s\<lparr>kheap_st := h, next_pid := next_pid s + 1, mem := new_frame te entry arg stack (mem s)\<rparr>)))"
        "i < 64" "state (proc s i) = UNUSED" "\<And>j. j < i \<Longrightarrow> state (proc s j) \<noteq> UNUSED" "entry \<noteq> 0" "unat prio < 3"
        "stack \<noteq> 0" "kmalloc 16384 (kheap_st s) = Some (stack, h)"
        "16384 \<le> m" "heap_live h (insert (unat stack, m) U)" "\<And>b. b \<in> U \<Longrightarrow> apart b (unat stack, m)"
proof (cases "entry = 0 \<or> 3 \<le> unat prio")
  case True
  then show thesis using refused [of s] live by (simp add: process_create_def)
next
  case False
  have n: "(16384 :: u32) \<noteq> 0" "unat (16384 :: u32) + 7 < 2 ^ 32" by simp_all
  from live n show thesis
  proof (cases rule: kheap.alloc_cases)
    case null
    then have "process_create te name entry arg prio s = Some (None, s\<lparr>kheap_st := kheap_st s\<rparr>)"
      using False by (simp add: process_create_def)
    then show thesis using refused [of s] live by simp
  next
    case (block stack h m)
    let ?s0 = "s\<lparr>kheap_st := h\<rparr>"
    have cu: "state (proc ?s0 i) \<noteq> UNUSED" if "current_process ?s0 = Some i" for i using cur that by simp
    have np: "new_pcb ?s0 name prio stack = new_pcb s name prio stack" by (simp add: new_pcb_def process_getpid_def split: option.split)
    show thesis
    proof (rule create_enter_cases [OF cu, where te = te and name = name and entry = entry and arg = arg and prio = prio and stack = stack])
      assume full: "create_enter te name entry arg prio stack ?s0 = (None, ?s0)"
      have "process_create te name entry arg prio s = Some (None, s\<lparr>kheap_st := kfree stack h\<rparr>)"
        using False block full by (simp add: process_create_def)
      then show thesis using refused [of "s\<lparr>kheap_st := kfree stack h\<rparr>"] kheap.alloc_dealloc [OF live n block(1)] by simp
    next
      fix i
      assume entered: "create_enter te name entry arg prio stack ?s0 = (Some i,
          scheduler_enqueue (Some i) (upd i (\<lambda>_. new_pcb ?s0 name prio stack)
            (?s0\<lparr>kheap_st := kheap_st ?s0, next_pid := next_pid ?s0 + 1, mem := new_frame te entry arg stack (mem ?s0)\<rparr>)))"
        "i < 64" "state (proc ?s0 i) = UNUSED" "\<And>j. j < i \<Longrightarrow> state (proc ?s0 j) \<noteq> UNUSED"
      have "process_create te name entry arg prio s = Some (Some i,
          scheduler_enqueue (Some i) (upd i (\<lambda>_. new_pcb s name prio stack)
            (s\<lparr>kheap_st := h, next_pid := next_pid s + 1, mem := new_frame te entry arg stack (mem s)\<rparr>)))"
        using False block(1,2) entered(1) np by (simp add: process_create_def)
      then show thesis using made [of i stack h m] entered(2-4) False block by simp
    qed auto
  qed
qed

lemma queues_upd_fresh:
  assumes "queues s Q" and "\<And>q. q < 3 \<Longrightarrow> i \<notin> set (Q q)"
  shows "queues (upd i f s) Q"
proof -
  have "linked (\<lambda>j. nxt (proc (upd i f s) j)) a (Q q) = linked (\<lambda>j. nxt (proc s j)) a (Q q)" if "q < 3" for q a
    using assms(2) [OF that] by (intro linked_frame) auto
  then show ?thesis using assms(1) by (simp add: ready_queues_def)
qed

lemma sched_but_new:
  assumes "sched_but {} c s Q" and "i < 64" and "state (proc s i) = UNUSED"
  shows "sched_but {i} c (upd i f s) Q" and "i \<noteq> c" and "i \<noteq> 0" and "\<And>q. q < 3 \<Longrightarrow> i \<notin> set (Q q)"
proof -
  note D = sched_butD [OF assms(1)]
  have ok: "slot_ok c Q i (proc s i)" using D(3) assms(2) by simp
  show "i \<noteq> c" "i \<noteq> 0" using ok assms(3) unfolding slot_ok_def by blast+
  show nq: "i \<notin> set (Q q)" if "q < 3" for q by (rule slot_ok_unqueued [OF ok _ that]) (simp add: assms(3))
  have "queues (upd i f s) Q" by (rule queues_upd_fresh [OF D(1) nq])
  then show "sched_but {i} c (upd i f s) Q" using assms(1) by (simp add: sched_but_def)
qed

lemma new_pcb_simps [simp]:
  "pid (new_pcb s name prio stack) = next_pid s" "state (new_pcb s name prio stack) = READY"
  "priority (new_pcb s name prio stack) = prio" "base_priority (new_pcb s name prio stack) = prio"
  "kstack (new_pcb s name prio stack) = stack" "ustack (new_pcb s name prio stack) = 0"
  "ppid (new_pcb s name prio stack) = process_getpid s" "esp (new_pcb s name prio stack) = stack + 16352"
  "kstack_top (new_pcb s name prio stack) = stack + 16384"
  by (simp_all add: new_pcb_def pcb_zero_def)

text \<open>A control block that is put in a free slot and enqueued.\<close>

lemma admit_wf:
  assumes wf: "sched_wf s Q" and i: "i < 64" "state (proc s i) = UNUSED"
    and p: "pid p \<noteq> 0" "state p = READY" "unat (priority p) < 3" "unat (base_priority p) < 3" "wait_ticks p = 0"
    and s': "s' = scheduler_enqueue (Some i) (upd i (\<lambda>_. p) (s\<lparr>kheap_st := h, next_pid := k, mem := m\<rparr>))"
  shows "sched_wf s' (Q(unat (priority p) := Q (unat (priority p)) @ [i]))" and "same_pcb (proc s' i) p"
    and "j \<noteq> i \<Longrightarrow> same_pcb (proc s' j) (proc s j)"
    and "kheap_st s' = h" "next_pid s' = k" "mem s' = m" "current_process s' = current_process s" "started s' = started s"
    "system_ticks s' = system_ticks s"
proof -
  obtain c where c: "current_process s = Some c" "sched_but {} c s Q" "state (proc s c) = RUNNING \<or> c = 0"
    using wf by (rule sched_wfD)
  let ?s0 = "s\<lparr>kheap_st := h, next_pid := k, mem := m\<rparr>"
  let ?s1 = "upd i (\<lambda>_. p) ?s0" and ?q = "unat (priority p)"
  have b0: "sched_but {} c ?s0 Q" using c(2) by simp
  have i0: "state (proc ?s0 i) = UNUSED" using i(2) by simp
  note N = sched_but_new [OF b0 i(1) i0]
  have r: "pid (proc ?s1 i) \<noteq> 0" "state (proc ?s1 i) = READY" "unat (priority (proc ?s1 i)) = ?q" "?q < 3"
      "unat (base_priority (proc ?s1 i)) < 3"
    using p by simp_all
  obtain n h' t where e: "scheduler_enqueue (Some i) ?s1 = relinked n h' t (upd i (\<lambda>p. p\<lparr>wait_ticks := 0\<rparr>) ?s1)"
      and b: "sched_but ({i} - {i}) c (scheduler_enqueue (Some i) ?s1) (Q(?q := Q ?q @ [i]))"
    by (rule enqueue_but [OF N(1) singletonI i(1) N(2,3) r N(4)])
  have w: "p\<lparr>wait_ticks := 0\<rparr> = p" using p(5) by (cases p) simp
  have pi: "proc s' i = p\<lparr>nxt := n i\<rparr>" unfolding s' e by (simp add: w)
  have pj: "proc s' j = (proc s j)\<lparr>nxt := n j\<rparr>" if "j \<noteq> i" for j unfolding s' e using that by simp
  show "same_pcb (proc s' i) p" by (simp add: pi)
  show "j \<noteq> i \<Longrightarrow> same_pcb (proc s' j) (proc s j)" by (simp add: pj)
  show "kheap_st s' = h" "next_pid s' = k" "mem s' = m" "current_process s' = current_process s" "started s' = started s"
    "system_ticks s' = system_ticks s"
    by (simp_all add: s')
  show "sched_wf s' (Q(?q := Q ?q @ [i]))"
    using b c N(2) pj [of c] by (auto simp: sched_wf_def sched_inv_def s')
qed

lemma create_made_wf:
  assumes wf: "sched_wf s Q" and i: "i < 64" "state (proc s i) = UNUSED" and p: "unat prio < 3" "next_pid s \<noteq> 0"
    and s': "s' = scheduler_enqueue (Some i) (upd i (\<lambda>_. new_pcb s name prio stack) (s\<lparr>kheap_st := h, next_pid := k, mem := m\<rparr>))"
  shows "sched_wf s' (Q(unat prio := Q (unat prio) @ [i]))" and "same_pcb (proc s' i) (new_pcb s name prio stack)"
    and "j \<noteq> i \<Longrightarrow> same_pcb (proc s' j) (proc s j)"
    and "kheap_st s' = h" "next_pid s' = k" "mem s' = m" "current_process s' = current_process s" "started s' = started s"
    "system_ticks s' = system_ticks s"
proof -
  have "wait_ticks (new_pcb s name prio stack) = 0"
    by (simp add: new_pcb_def pcb_zero_def copy_name_def split: option.split)
  then show "sched_wf s' (Q(unat prio := Q (unat prio) @ [i]))" "same_pcb (proc s' i) (new_pcb s name prio stack)"
    "j \<noteq> i \<Longrightarrow> same_pcb (proc s' j) (proc s j)" "kheap_st s' = h" "next_pid s' = k" "mem s' = m"
    "current_process s' = current_process s" "started s' = started s" "system_ticks s' = system_ticks s"
    using admit_wf [OF wf i _ _ _ _ _ s'] p by simp_all
qed

text \<open>The two operations are their sections, one after the other.\<close>

lemma run_sections_process_create:
  "run_sections te 3 (Call a 0) s = process_create te (a_name a) (a_entry a) (a_arg a) (a_prio a) s"
  by (auto simp: process_create_def create_failed_def numeral_3_eq_3 Let_def split: Option.bind_splits prod.split option.split)

lemma run_sections_process_create_user:
  assumes "a_arg a = 0"
  shows "run_sections te 5 (Call_User a) s = process_create_user te (a_entry a) (a_name a) (a_user_entry a) (a_prio a) s"
  using assms
  by (auto simp: process_create_user_def process_create_def create_failed_def eval_nat_numeral Let_def
    split: Option.bind_splits prod.split option.split)

end
