(* ===== verification/Process_Safety.thy ===== *)
theory Process_Safety
  imports Lifecycle "HOL-Library.Multiset"
begin

text \<open>
  Process management as a whole: who owns which block of the heap, the transition system of all
  operations and interrupts, and the properties that hold in every reachable state.
\<close>

section \<open>Ownership of stacks\<close>

text \<open>
  The stacks of the table: slot \<open>i\<close> may own a kernel stack, \<open>(i, False)\<close>, and a user stack,
  \<open>(i, True)\<close>.
\<close>

definition stack_slots :: "(nat \<times> bool) set" where
  "stack_slots = {..<64} \<times> UNIV"

definition stack_of :: "system \<Rightarrow> nat \<times> bool \<Rightarrow> u32" where
  "stack_of s = (\<lambda>(i, b). if b then ustack (proc s i) else kstack (proc s i))"

definition stack_blocks :: "(nat \<times> bool \<Rightarrow> u32) \<Rightarrow> (nat \<times> bool \<Rightarrow> nat) \<Rightarrow> (nat \<times> nat) set" where
  "stack_blocks own sz = (\<lambda>x. (unat (own x), sz x)) ` {x \<in> stack_slots. own x \<noteq> 0}"

definition owns_ok :: "(nat \<times> bool \<Rightarrow> u32) \<Rightarrow> (nat \<times> bool \<Rightarrow> nat) \<Rightarrow> (nat \<times> nat) set \<Rightarrow> bool" where
  "owns_ok own sz U \<longleftrightarrow> inj_on own {x \<in> stack_slots. own x \<noteq> 0} \<and> (\<forall>b\<in>U. 0 < snd b) \<and>
     (\<forall>x\<in>stack_slots. own x \<noteq> 0 \<longrightarrow> 16384 \<le> sz x \<and> unat (own x) \<notin> fst ` U)"

text \<open>
  The blocks in use are those of \<open>U\<close>, which belong to the rest of the kernel, and one block of at
  least 16 KiB per stack, no two stacks sharing one.
\<close>

definition owns :: "heap \<Rightarrow> (nat \<times> bool \<Rightarrow> u32) \<Rightarrow> (nat \<times> nat) set \<Rightarrow> bool" where
  "owns h own U \<longleftrightarrow> (\<exists>sz. heap_live h (U \<union> stack_blocks own sz) \<and> owns_ok own sz U)"

lemma owns_kmalloc:
  assumes "owns h own U" and "kmalloc n h = Some (p, h')" and "16384 \<le> unat n" and "unat n + 7 < 2 ^ 32"
  shows "p = 0 \<and> h' = h \<or> p \<noteq> 0 \<and> (\<exists>m \<ge> 16384. owns h' own (insert (unat p, m) U) \<and> unat p \<notin> fst ` U)"
proof -
  obtain sz where l: "heap_live h (U \<union> stack_blocks own sz)" and ok: "owns_ok own sz U" using assms(1) by (auto simp: owns_def)
  have n: "n \<noteq> 0" using assms(3) by auto
  from l n assms(4) show ?thesis
  proof (cases rule: kheap.alloc_cases)
    case null
    then show ?thesis using assms(2) by simp
  next
    case (block q t m)
    then have e: "q = p" "t = h'" using assms(2) by simp_all
    have m: "16384 \<le> m" using block(3) assms(3) by simp
    have fresh: "unat p \<notin> fst ` U"
    proof
      assume "unat p \<in> fst ` U"
      then obtain k where k: "(unat p, k) \<in> U" by auto
      then have "apart (unat p, k) (unat p, m)" using block(5) e by auto
      moreover have "0 < k" using ok k by (auto simp: owns_ok_def)
      ultimately show False using m by (auto simp: apart_def)
    qed
    have other: "unat (own x) \<noteq> unat p" if "x \<in> stack_slots" "own x \<noteq> 0" for x
    proof
      assume a: "unat (own x) = unat p"
      have "(unat (own x), sz x) \<in> stack_blocks own sz" using that by (auto simp: stack_blocks_def)
      then have "apart (unat (own x), sz x) (unat p, m)" using block(5) e by auto
      moreover have "16384 \<le> sz x" using ok that by (auto simp: owns_ok_def)
      ultimately show False using m a by (auto simp: apart_def)
    qed
    have "owns_ok own sz (insert (unat p, m) U)" using ok other m by (auto simp: owns_ok_def)
    moreover have "heap_live h' (insert (unat p, m) U \<union> stack_blocks own sz)" using block(4) e by simp
    ultimately show ?thesis using m fresh block(2) e by (auto simp: owns_def)
  qed
qed

lemma owns_drop:
  assumes "owns h own (insert (unat p, m) U)" and "unat p \<notin> fst ` U"
  shows "owns (kfree p h) own U"
proof -
  obtain sz where l: "heap_live h (insert (unat p, m) U \<union> stack_blocks own sz)" and ok: "owns_ok own sz (insert (unat p, m) U)"
    using assms(1) by (auto simp: owns_def)
  have "(unat p, m) \<notin> stack_blocks own sz" using ok by (auto simp: stack_blocks_def owns_ok_def)
  moreover have "(unat p, m) \<notin> U" using assms(2) by force
  ultimately have "insert (unat p, m) U \<union> stack_blocks own sz - {(unat p, m)} = U \<union> stack_blocks own sz" by auto
  then have "heap_live (kfree p h) (U \<union> stack_blocks own sz)"
    using kheap.dealloc_live [OF l, of p m] by simp
  moreover have "owns_ok own sz U" using ok by (auto simp: owns_ok_def)
  ultimately show ?thesis by (auto simp: owns_def)
qed

lemma owns_adopt:
  assumes "owns h own (insert (unat p, m) U)" and "unat p \<notin> fst ` U" and "p \<noteq> 0" and "16384 \<le> m" and x: "x \<in> stack_slots" "own x = 0"
  shows "owns h (own(x := p)) U"
proof -
  obtain sz where l: "heap_live h (insert (unat p, m) U \<union> stack_blocks own sz)" and ok: "owns_ok own sz (insert (unat p, m) U)"
    using assms(1) by (auto simp: owns_def)
  have d: "{y \<in> stack_slots. (own(x := p)) y \<noteq> 0} = insert x {y \<in> stack_slots. own y \<noteq> 0}" using x assms(3) by auto
  have np: "own y \<noteq> p" if "y \<in> stack_slots" "own y \<noteq> 0" for y using ok that by (auto simp: owns_ok_def)
  have "stack_blocks (own(x := p)) (sz(x := m)) = insert (unat p, m) (stack_blocks own sz)"
    unfolding stack_blocks_def d using x(2) by (auto simp: image_iff)
  then have "heap_live h (U \<union> stack_blocks (own(x := p)) (sz(x := m)))" using l by simp
  moreover have "inj_on (own(x := p)) (insert x {y \<in> stack_slots. own y \<noteq> 0})"
    using ok np x(2) by (auto simp: owns_ok_def inj_on_def)
  then have "owns_ok (own(x := p)) (sz(x := m)) U"
    using ok assms(2,4) unfolding owns_ok_def d by auto
  ultimately show ?thesis by (auto simp: owns_def)
qed

lemma owns_free:
  assumes "owns h own U" and x: "x \<in> stack_slots"
  shows "owns (kfree (own x) h) (own(x := 0)) U"
proof (cases "own x = 0")
  case True
  then have "own(x := 0) = own" by auto
  with True assms show ?thesis by simp
next
  case False
  obtain sz where l: "heap_live h (U \<union> stack_blocks own sz)" and ok: "owns_ok own sz U" using assms(1) by (auto simp: owns_def)
  have b: "(unat (own x), sz x) \<in> stack_blocks own sz" using x False by (auto simp: stack_blocks_def)
  have "(unat (own x), sz x) \<notin> U" using ok x False by (force simp: owns_ok_def)
  moreover have "unat (own y) \<noteq> unat (own x)" if "y \<in> stack_slots" "own y \<noteq> 0" "y \<noteq> x" for y
    using ok x False that unfolding owns_ok_def by (metis (mono_tags, lifting) inj_onD mem_Collect_eq word_unat_eq_iff)
  then have "stack_blocks own sz - {(unat (own x), sz x)} = stack_blocks (own(x := 0)) sz"
    unfolding stack_blocks_def by (auto simp: image_iff split: if_splits)
  ultimately have "U \<union> stack_blocks own sz - {(unat (own x), sz x)} = U \<union> stack_blocks (own(x := 0)) sz" by auto
  then have "heap_live (kfree (own x) h) (U \<union> stack_blocks (own(x := 0)) sz)"
    using kheap.dealloc_live [OF l, of "own x" "sz x"] b by simp
  moreover have "owns_ok (own(x := 0)) sz U" using ok by (auto simp: owns_ok_def inj_on_def)
  ultimately show ?thesis by (auto simp: owns_def)
qed

text \<open>The table owns its stacks, and free slots own none.\<close>

definition mem_inv :: "system \<Rightarrow> (nat \<times> nat) set \<Rightarrow> bool" where
  "mem_inv s U \<longleftrightarrow> owns (kheap_st s) (stack_of s) U \<and>
     (\<forall>i<64. state (proc s i) = UNUSED \<longrightarrow> kstack (proc s i) = 0 \<and> ustack (proc s i) = 0)"

lemma mem_inv_cong:
  assumes "mem_inv s U" and "kheap_st t = kheap_st s"
    and "\<And>i. i < 64 \<Longrightarrow> kstack (proc t i) = kstack (proc s i) \<and> ustack (proc t i) = ustack (proc s i)"
    and "\<And>i. i < 64 \<Longrightarrow> state (proc t i) = UNUSED \<Longrightarrow> state (proc s i) = UNUSED"
  shows "mem_inv t U"
proof -
  have eq: "stack_of t x = stack_of s x" if "x \<in> stack_slots" for x
    using that assms(3) by (auto simp: stack_slots_def stack_of_def)
  have d: "{x \<in> stack_slots. stack_of t x \<noteq> 0} = {x \<in> stack_slots. stack_of s x \<noteq> 0}" using eq by auto
  have "stack_blocks (stack_of t) sz = stack_blocks (stack_of s) sz" for sz
    unfolding stack_blocks_def d using eq by auto
  moreover have "owns_ok (stack_of t) sz U = owns_ok (stack_of s) sz U" for sz
    unfolding owns_ok_def d using eq by (auto simp: inj_on_def)
  ultimately show ?thesis using assms by (auto simp: mem_inv_def owns_def)
qed

lemma mem_inv_live: "mem_inv s U \<Longrightarrow> \<exists>V. heap_live (kheap_st s) V"
  by (auto simp: mem_inv_def owns_def)

lemma drop_ustack_mem:
  assumes "mem_inv s U" and "i < 64"
  shows "mem_inv (drop_ustack i s) U"
proof -
  have "owns (kfree (stack_of s (i, True)) (kheap_st s)) ((stack_of s)((i, True) := 0)) U"
    using assms by (intro owns_free) (auto simp: mem_inv_def stack_slots_def)
  moreover have "stack_of (drop_ustack i s) = (stack_of s)((i, True) := 0)"
    by (auto simp: drop_ustack_eq stack_of_def fun_eq_iff)
  ultimately show ?thesis
    using assms by (auto simp: mem_inv_def drop_ustack_eq stack_of_def)
qed

lemma release_mem:
  assumes "mem_inv s U" and "i < 64" and "current_process s \<noteq> Some i"
  shows "mem_inv (process_release (Some i) s) U"
proof -
  have o: "owns (kheap_st s) (stack_of s) U" using assms(1) by (simp add: mem_inv_def)
  have "owns (kfree (stack_of s (i, False)) (kheap_st s)) ((stack_of s)((i, False) := 0)) U"
    using assms(2) by (intro owns_free [OF o]) (auto simp: stack_slots_def)
  then have "owns (kfree (((stack_of s)((i, False) := 0)) (i, True)) (kfree (stack_of s (i, False)) (kheap_st s)))
      ((stack_of s)((i, False) := 0, (i, True) := 0)) U"
    by (rule owns_free) (use assms(2) in \<open>auto simp: stack_slots_def\<close>)
  moreover have "stack_of (process_release (Some i) s) = (stack_of s)((i, False) := 0, (i, True) := 0)"
    by (auto simp: process_release_eq [OF assms(3)] stack_of_def fun_eq_iff)
  ultimately show ?thesis
    using assms by (auto simp: mem_inv_def process_release_eq [OF assms(3)] stack_of_def)
qed

lemma reap_mem: "mem_inv s U \<Longrightarrow> mem_inv (reap_orphans s) U"
  unfolding reap_orphans_def
proof (rule fold_invariant [where Q = "\<lambda>i. i < 64" and P = "\<lambda>t. mem_inv t U"])
  fix i t
  assume i: "i < (64 :: nat)" and m: "mem_inv t U"
  show "mem_inv (reap_entry i t) U"
    using m release_mem [OF m i] by (auto simp: reap_entry_def split: option.splits)
qed auto

lemma schedule_unused:
  assumes "state (proc (schedule s) i) = UNUSED" and "started s"
  shows "state (proc (reap_orphans s) i) = UNUSED"
proof -
  have sw: "state (proc t i) = UNUSED" if "state (proc (switch_to c n t) i) = UNUSED" for c n t
    using that by (auto simp: switch_to_take_over take_over_def Let_def split: if_splits)
  show ?thesis
    using assms pick_from_fields(7) [of "[0..<3]" "reap_orphans s" i]
    by (auto simp: schedule_def pick_next_def Let_def split: prod.splits option.splits if_splits dest!: sw)
qed

lemma schedule_mem: "mem_inv s U \<Longrightarrow> started s \<Longrightarrow> mem_inv (schedule s) U"
  by (rule mem_inv_cong [OF reap_mem]) (auto simp: schedule_stacks dest: schedule_unused)

lemma upd_mem:
  assumes "mem_inv s U" and "\<And>p. kstack (f p) = kstack p" "\<And>p. ustack (f p) = ustack p" "state (f (proc s i)) \<noteq> UNUSED"
  shows "mem_inv (upd i f s) U"
  by (rule mem_inv_cong [OF assms(1)]) (use assms in \<open>auto split: if_splits\<close>)

lemma wake_parent_mem:
  assumes "mem_inv s U"
  shows "mem_inv (wake_parent i s) U"
proof (rule mem_inv_cong [OF assms])
  fix j assume "state (proc (wake_parent i s) j) = UNUSED"
  then show "state (proc s j) = UNUSED"
    by (auto simp: wake_parent_def scheduler_unblock_def split: option.splits if_splits)
qed simp_all

lemma exit_mem:
  assumes "mem_inv s U" and "started s" and "cur s < 64"
  shows "mem_inv (process_exit code s) U"
proof -
  have "mem_inv (upd (cur s) (\<lambda>p. p\<lparr>exit_code := code, state := ZOMBIE\<rparr>) s) U"
    by (rule upd_mem [OF assms(1)]) simp_all
  then show ?thesis
    unfolding process_exit_def Let_def using assms(2,3)
    by (intro schedule_mem wake_parent_mem drop_ustack_mem) simp_all
qed

lemma kill_mem:
  assumes wf: "sched_wf s Q" and m: "mem_inv s U" and st: "started s" and k: "process_kill p s = Some (r, s')"
  shows "mem_inv s' U"
proof -
  obtain c where c: "current_process s = Some c" "c < 64" using wf by (rule sched_wfD)
  show ?thesis
  proof (cases "s' = s")
    case False
    then obtain i where i: "process_by_pid p s = Some i" "p \<noteq> 0" "state (proc s i) \<noteq> ZOMBIE"
      using k by (auto simp: process_kill_def split: option.splits if_splits)
    note I = process_by_pid_Some [OF i(1)]
    show ?thesis
    proof (cases "i = c")
      case True
      then have "s' = process_exit (- 1) s" using k i I c by (auto simp: process_kill_def)
      then show ?thesis using exit_mem [OF m st] c by simp
    next
      case ne: False
      show ?thesis
      proof (rule kill_cases [OF wf i(1,2,3) c(1) ne])
        fix n h t Q'
        assume d: "scheduler_dequeue (Some i) s = Some (relinked n h t s)"
        have e: "s' = wake_parent i (drop_ustack i (upd i (\<lambda>p. p\<lparr>exit_code := - 1, state := ZOMBIE\<rparr>) (relinked n h t s)))"
          using k i I c ne d by (simp add: process_kill_def)
        have "mem_inv (relinked n h t s) U" by (rule mem_inv_cong [OF m]) simp_all
        then have "mem_inv (upd i (\<lambda>p. p\<lparr>exit_code := - 1, state := ZOMBIE\<rparr>) (relinked n h t s)) U" by (rule upd_mem) simp_all
        then show ?thesis unfolding e using I by (intro wake_parent_mem drop_ustack_mem) simp_all
      qed
    qed
  qed (use m in simp)
qed

lemma wait_mem:
  assumes wf: "sched_wf s Q" and m: "mem_inv s U" and st: "started s"
  shows "mem_inv (snd (process_wait s)) U"
proof (cases rule: process_wait_cases [of s])
  case (reap i)
  obtain c where "current_process s = Some c" using wf by (rule sched_wfD)
  then show ?thesis using reap release_mem [OF m reap(1)] by (auto simp: child_def)
next
  case none
  then show ?thesis using m by simp
next
  case wait
  have "mem_inv (upd (cur s) (\<lambda>p. p\<lparr>parent_waiting := True, state := BLOCKED\<rparr>) s) U" by (rule upd_mem [OF m]) simp_all
  then show ?thesis using wait schedule_mem st by simp
qed

lemma yield_mem:
  assumes wf: "sched_wf s Q" and m: "mem_inv s U" and st: "started s"
  shows "mem_inv (scheduler_yield s) U"
proof (rule sched_wfD [OF wf])
  fix c
  assume c: "current_process s = Some c" "slot_ok c Q c (proc s c)"
  have "mem_inv (upd (cur s) (\<lambda>p. p\<lparr>quantum_left := 0\<rparr>) s) U"
    by (rule upd_mem [OF m]) (use c in \<open>auto simp: slot_ok_def\<close>)
  then show ?thesis using st schedule_mem by (simp add: scheduler_yield_def)
qed

lemma sleep_mem:
  assumes wf: "sched_wf s Q" and m: "mem_inv s U" and st: "started s"
  shows "mem_inv (process_sleep ms s) U"
proof (cases "ms = 0")
  case True
  then show ?thesis using yield_mem [OF assms] by (simp add: process_sleep_def)
next
  case False
  have "mem_inv (upd (cur s) (\<lambda>p. p\<lparr>sleep_until := system_ticks s + ucast ((ms + 9) div 10), state := SLEEPING\<rparr>) s) U"
    by (rule upd_mem [OF m]) simp_all
  then show ?thesis using False st schedule_mem by (simp add: process_sleep_def scheduler_block_current_def Let_def)
qed

lemma tick_mem:
  assumes wf: "sched_wf s Q" and m: "mem_inv s U" and st: "started s" and t: "scheduler_tick s = Some s'"
  shows "mem_inv s' U"
proof (rule sched_wfD [OF wf])
  fix c
  assume c: "current_process s = Some c" "sched_but {} c s Q" "state (proc s c) = RUNNING \<or> c = 0" "c < 64" "slot_ok c Q c (proc s c)"
  let ?s1 = "upd c (\<lambda>p. p\<lparr>cpu_ticks := cpu_ticks p + 1\<rparr>) s" and ?now = "system_ticks s"
  have m1: "mem_inv ?s1 U" by (rule upd_mem [OF m]) (use c(5) in \<open>auto simp: slot_ok_def\<close>)
  have b1: "sched_but {} c ?s1 Q" by (rule sched_but_upd_ok [OF c(2)]) (use c(5) in simp_all)
  have b2: "sched_but {} c (wake_sleepers ?now ?s1) (wake_queues ?now 64 ?s1 Q)"
    by (rule wake_sleepers_but [OF b1]) (use c(3) in auto)
  have m2: "mem_inv (wake_sleepers ?now ?s1) U"
    by (rule wake_sleepers_exact [OF b1, of ?now], rule mem_inv_cong [OF m1])
      (auto simp: wake_state_def woken_def split: if_splits)
  obtain s3 where a: "apply_aging (wake_sleepers ?now ?s1) = Some s3"
      and p: "\<And>i. proc s3 i = (if i \<in> set (wake_queues ?now 64 ?s1 Q 1) then aged 1 (proc (wake_sleepers ?now ?s1) i)
           else if i \<in> set (wake_queues ?now 64 ?s1 Q 2) then aged 2 (proc (wake_sleepers ?now ?s1) i)
           else proc (wake_sleepers ?now ?s1) i)\<lparr>nxt := nxt (proc s3 i)\<rparr>"
      and f: "current_process s3 = current_process (wake_sleepers ?now ?s1)" "started s3 = started (wake_sleepers ?now ?s1)"
        "kheap_st s3 = kheap_st (wake_sleepers ?now ?s1)"
    by (rule apply_aging_exact [OF b2]) blast
  have q: "kstack (proc s3 i) = kstack (proc (wake_sleepers ?now ?s1) i)" "ustack (proc s3 i) = ustack (proc (wake_sleepers ?now ?s1) i)"
      "state (proc s3 i) = state (proc (wake_sleepers ?now ?s1) i)" for i
    using arg_cong [OF p [of i], of kstack] arg_cong [OF p [of i], of ustack] arg_cong [OF p [of i], of state]
    by (auto simp: aged_def split: if_splits)
  have m3: "mem_inv s3 U" by (rule mem_inv_cong [OF m2]) (simp_all add: f q)
  have c3: "current_process s3 = Some c" "started s3" using f wake_sleepers_fields [OF b1] c(1) st by simp_all
  have sc: "state (proc s3 c) \<noteq> UNUSED"
    using q(3) sched_butD(2,3) [OF b2] by (auto simp: slot_ok_def)
  let ?s4 = "if quantum_left (proc s3 c) > 0 then upd c (\<lambda>p. p\<lparr>quantum_left := quantum_left p - 1\<rparr>) s3 else s3"
  have m4: "mem_inv ?s4 U" using m3 upd_mem [OF m3, of "\<lambda>p. p\<lparr>quantum_left := quantum_left p - 1\<rparr>" c] sc by simp
  have "s' = schedule ?s4 \<or> s' = ?s4"
    using t st a c(1) c3 unfolding scheduler_tick_def by (auto simp: Let_def split: if_splits)
  then show ?thesis using m4 schedule_mem [OF m4] c3 by auto
qed

lemma owns_live: "owns h own U \<Longrightarrow> \<exists>V. heap_live h V"
  by (auto simp: owns_def)

text \<open>One attempt to get a stack, with what the heap then holds.\<close>

lemma owns_stack_cases:
  assumes "owns h own U"
  obtains (null) "kmalloc 16384 h = Some (0, h)"
    | (block) p h' n where "kmalloc 16384 h = Some (p, h')" "p \<noteq> 0" "16384 \<le> n" "owns h' own (insert (unat p, n) U)" "unat p \<notin> fst ` U"
proof -
  obtain V where V: "heap_live h V" using owns_live [OF assms] by blast
  obtain p h' where a: "kmalloc 16384 h = Some (p, h')" using kheap.alloc_live [OF V, of 16384] by auto
  show thesis using owns_kmalloc [OF assms a] a null block by auto
qed

lemma heap_only:
  "sched_wf (s\<lparr>kheap_st := h\<rparr>) Q = sched_wf s Q" "mem_inv s U \<Longrightarrow> owns h (stack_of s) U \<Longrightarrow> mem_inv (s\<lparr>kheap_st := h\<rparr>) U"
proof -
  show "sched_wf (s\<lparr>kheap_st := h\<rparr>) Q = sched_wf s Q" by (simp add: sched_wf_def sched_inv_def)
  have "stack_of (s\<lparr>kheap_st := h\<rparr>) = stack_of s" by (simp add: stack_of_def fun_eq_iff)
  then show "mem_inv s U \<Longrightarrow> owns h (stack_of s) U \<Longrightarrow> mem_inv (s\<lparr>kheap_st := h\<rparr>) U" by (simp add: mem_inv_def)
qed

section \<open>Creations in progress\<close>

text \<open>The stacks that a creation holds but has not yet given to a process.\<close>

definition stack_list :: "u32 \<Rightarrow> u32 list" where
  "stack_list ust = (if ust = 0 then [] else [ust])"

fun held :: "creation \<Rightarrow> u32 list" where
  "held (Call_User a) = []"
| "held (Call a ust) = stack_list ust"
| "held (Stack_Held a ust stack) = stack_list ust @ [stack]"
| "held (No_Slot ust stack) = stack_list ust @ [stack]"
| "held (Undo ust) = [ust]"
| "held (Entered a i p ust) = [ust]"

definition rest_of :: "creation + nat option \<Rightarrow> creation list" where
  "rest_of r = (case r of Inl c \<Rightarrow> [c] | Inr _ \<Rightarrow> [])"

definition all_held :: "creation list \<Rightarrow> u32 list" where
  "all_held cs = concat (map held cs)"

text \<open>\<open>V\<close> is \<open>U\<close> with one new block of at least 16 KiB at each of the addresses.\<close>

primrec with_blocks :: "(nat \<times> nat) set \<Rightarrow> u32 list \<Rightarrow> (nat \<times> nat) set \<Rightarrow> bool" where
  "with_blocks U [] V \<longleftrightarrow> V = U"
| "with_blocks U (p # ps) V \<longleftrightarrow>
     p \<noteq> 0 \<and> unat p \<notin> fst ` U \<and> (\<exists>m\<ge>16384. with_blocks (insert (unat p, m) U) ps V)"

definition holding :: "system \<Rightarrow> (nat \<times> nat) set \<Rightarrow> u32 list \<Rightarrow> bool" where
  "holding s U ps \<longleftrightarrow> (\<exists>V. with_blocks U ps V \<and> mem_inv s V)"

lemma with_blocks_append: "with_blocks U (ps @ qs) V \<longleftrightarrow> (\<exists>W. with_blocks U ps W \<and> with_blocks W qs V)"
  by (induction ps arbitrary: U) auto

lemma with_blocks_move: "with_blocks U (ps @ p # qs) V = with_blocks U (p # ps @ qs) V"
proof (induction ps arbitrary: U)
  case (Cons q ps)
  have "with_blocks U ((q # ps) @ p # qs) V \<longleftrightarrow> q \<noteq> 0 \<and> unat q \<notin> fst ` U \<and>
      (\<exists>m\<ge>16384. p \<noteq> 0 \<and> unat p \<notin> fst ` insert (unat q, m) U \<and>
        (\<exists>n\<ge>16384. with_blocks (insert (unat p, n) (insert (unat q, m) U)) (ps @ qs) V))"
    unfolding append_Cons with_blocks.simps Cons.IH ..
  then show ?case by (auto simp: insert_commute)
qed simp

lemma with_blocks_perm: "mset ps = mset qs \<Longrightarrow> with_blocks U ps V = with_blocks U qs V"
proof (induction ps arbitrary: U qs)
  case (Cons p ps)
  then have "p \<in> set qs" using mset_eq_setD by fastforce
  then obtain as bs where q: "qs = as @ p # bs" by (meson split_list)
  then have "mset ps = mset (as @ bs)" using Cons.prems by simp
  then have "with_blocks W ps V = with_blocks W (as @ bs) V" for W by (rule Cons.IH)
  then show ?case unfolding q with_blocks_move by simp
qed simp

lemma holding_split:
  "holding s U (all_held (xs @ cs @ ys)) \<longleftrightarrow> (\<exists>B. with_blocks U (all_held (xs @ ys)) B \<and> holding s B (all_held cs))"
proof -
  have "with_blocks U (all_held (xs @ cs @ ys)) V = with_blocks U (all_held (xs @ ys) @ all_held cs) V" for V
    by (rule with_blocks_perm) (simp add: all_held_def)
  then show ?thesis by (auto simp: holding_def with_blocks_append)
qed

lemma holding_append: "holding s B (ps @ qs) \<longleftrightarrow> (\<exists>V. with_blocks B ps V \<and> holding s V qs)"
  by (auto simp: holding_def with_blocks_append)

lemma holding_one:
  "holding s B [p] \<longleftrightarrow> p \<noteq> 0 \<and> unat p \<notin> fst ` B \<and> (\<exists>m\<ge>16384. mem_inv s (insert (unat p, m) B))"
  by (auto simp: holding_def)

lemma holding_nil [simp]: "holding s B [] = mem_inv s B"
  by (simp add: holding_def)

text \<open>The heap calls of a creation.\<close>

lemma stack_alloc:
  assumes "mem_inv s V"
  obtains (null) "kmalloc 16384 (kheap_st s) = Some (0, kheap_st s)"
    | (block) p h where "kmalloc 16384 (kheap_st s) = Some (p, h)" "p \<noteq> 0" "holding (s\<lparr>kheap_st := h\<rparr>) V [p]"
proof -
  have o: "owns (kheap_st s) (stack_of s) V" using assms by (simp add: mem_inv_def)
  have so: "stack_of (s\<lparr>kheap_st := h\<rparr>) = stack_of s" for h by (simp add: stack_of_def fun_eq_iff)
  from o show thesis
  proof (cases rule: owns_stack_cases)
    case null
    then show thesis by (rule that(1))
  next
    case (block p h n)
    have "mem_inv (s\<lparr>kheap_st := h\<rparr>) (insert (unat p, n) V)" using assms block(4) so by (simp add: mem_inv_def)
    then show thesis using that(2) [OF block(1,2)] block(2,3,5) by (auto simp: holding_one)
  qed
qed

lemma stack_free:
  assumes "holding s V [p]"
  shows "mem_inv (s\<lparr>kheap_st := kfree p (kheap_st s)\<rparr>) V"
proof -
  obtain m where m: "unat p \<notin> fst ` V" "mem_inv s (insert (unat p, m) V)" using assms by (auto simp: holding_one)
  have "stack_of (s\<lparr>kheap_st := h\<rparr>) = stack_of s" for h by (simp add: stack_of_def fun_eq_iff)
  then show ?thesis using m(2) owns_drop [of "kheap_st s" "stack_of s" p m V] m(1) by (simp add: mem_inv_def)
qed

text \<open>A slot takes over a block: slot \<open>i\<close> gets the kernel or the user stack \<open>p\<close>.\<close>

lemma stack_adopt:
  assumes h: "holding s V [p]" and i: "i < 64" "stack_of s (i, b) = 0" and e: "kheap_st s' = kheap_st s"
    and so: "stack_of s' = (stack_of s)((i, b) := p)" and st: "state (proc s' i) \<noteq> UNUSED"
    and o: "\<And>j. j < 64 \<Longrightarrow> j \<noteq> i \<Longrightarrow> state (proc s' j) = state (proc s j)"
  shows "mem_inv s' V"
proof -
  obtain m where m: "p \<noteq> 0" "unat p \<notin> fst ` V" "16384 \<le> m" "mem_inv s (insert (unat p, m) V)"
    using h by (auto simp: holding_one)
  have "owns (kheap_st s) ((stack_of s)((i, b) := p)) V"
    using m i by (intro owns_adopt [OF _ m(2,1,3)]) (auto simp: mem_inv_def stack_slots_def)
  moreover have "kstack (proc s' j) = 0 \<and> ustack (proc s' j) = 0" if "j < 64" "state (proc s' j) = UNUSED" for j
  proof -
    have "j \<noteq> i" using st that by auto
    then have "state (proc s j) = UNUSED" "stack_of s' (j, True) = stack_of s (j, True)" "stack_of s' (j, False) = stack_of s (j, False)"
      using o that so by simp_all
    then show ?thesis using m(4) that(1) by (simp add: mem_inv_def stack_of_def)
  qed
  ultimately show ?thesis using e so by (simp add: mem_inv_def)
qed

text \<open>The new ring 3 process is still there, without a user stack, when it is given one.\<close>

fun section_enabled :: "creation \<Rightarrow> system \<Rightarrow> bool" where
  "section_enabled (Entered a i p ust) s \<longleftrightarrow>
     state (proc s i) \<noteq> UNUSED \<and> pid (proc s i) = p \<and> ustack (proc s i) = 0"
| "section_enabled (Stack_Held a ust stack) s \<longleftrightarrow> next_pid s \<noteq> 0"
| "section_enabled c s \<longleftrightarrow> True"

fun creation_ok :: "creation \<Rightarrow> bool" where
  "creation_ok (Entered a i p ust) \<longleftrightarrow> i < 64"
| "creation_ok (Stack_Held a ust stack) \<longleftrightarrow> unat (a_prio a) < PRIORITY_LEVELS"
| "creation_ok c \<longleftrightarrow> True"

lemma created_held [simp]:
  "all_held (rest_of (create_failed ust)) = stack_list ust" "rest_of (Inr r) = []" "rest_of (Inl c) = [c]"
  "all_held [] = []" "all_held [c] = held c" "list_all creation_ok (rest_of (create_failed ust))"
  by (simp_all add: create_failed_def rest_of_def all_held_def stack_list_def)

lemma create_enter_slot:
  assumes "find (\<lambda>i. state (proc s i) = UNUSED) [0..<64] = Some i"
  obtains t where "create_enter te name entry arg prio stack s = (Some i, t)"
  using assms by (simp add: create_enter_def alloc_pcb_def Let_def stack_push_def)

lemma create_enter_ok:
  assumes wf: "sched_wf s Q" and h: "holding s V [stack]" and p: "unat prio < 3" "next_pid s \<noteq> 0"
  obtains (full) "create_enter te name entry arg prio stack s = (None, s)"
    | (entered) i s' Q' where "create_enter te name entry arg prio stack s = (Some i, s')" "i < 64" "sched_wf s' Q'" "mem_inv s' V"
proof -
  obtain c where c: "current_process s = Some c" "slot_ok c Q c (proc s c)" using wf by (rule sched_wfD)
  have cu: "state (proc s i) \<noteq> UNUSED" if "current_process s = Some i" for i using c that by (auto simp: slot_ok_def)
  show thesis
  proof (rule create_enter_cases [OF cu, where te = te and name = name and entry = entry and arg = arg and prio = prio and stack = stack])
    assume "create_enter te name entry arg prio stack s = (None, s)"
    then show thesis by (rule full)
  next
    fix i
    define s' where "s' = scheduler_enqueue (Some i) (upd i (\<lambda>_. new_pcb s name prio stack)
        (s\<lparr>kheap_st := kheap_st s, next_pid := next_pid s + 1, mem := new_frame te entry arg stack (mem s)\<rparr>))"
    assume "create_enter te name entry arg prio stack s = (Some i, scheduler_enqueue (Some i) (upd i (\<lambda>_. new_pcb s name prio stack)
        (s\<lparr>kheap_st := kheap_st s, next_pid := next_pid s + 1, mem := new_frame te entry arg stack (mem s)\<rparr>)))"
      and i: "i < 64" "state (proc s i) = UNUSED"
    then have e: "create_enter te name entry arg prio stack s = (Some i, s')" by (simp add: s'_def)
    have z: "kstack (proc s i) = 0" "ustack (proc s i) = 0" using h i by (auto simp: holding_one mem_inv_def)
    have so: "stack_of s' = (stack_of s)((i, False) := stack)" unfolding s'_def using z(2) by (auto simp: stack_of_def fun_eq_iff)
    have "mem_inv s' V"
      by (rule stack_adopt [OF h i(1) _ _ so]) (use z in \<open>simp_all add: s'_def stack_of_def\<close>)
    then show thesis using entered [OF e i(1) create_made_wf(1) [OF wf i p s'_def]] by blast
  qed auto
qed

lemma create_section_ok:
  assumes wf: "sched_wf s Q" and h: "holding s B (held c)" and ok: "creation_ok c" and en: "section_enabled c s"
  obtains r s' Q' where "create_section te c s = Some (r, s')" "sched_wf s' Q'" "holding s' B (all_held (rest_of r))"
    "list_all creation_ok (rest_of r)"
proof -
  have wfh: "sched_wf (s\<lparr>kheap_st := g\<rparr>) Q" for g using wf by (simp add: heap_only)
  show thesis
  proof (cases c)
    case (Call_User a)
    then have "mem_inv s B" using h by simp
    then show thesis
    proof (cases rule: stack_alloc)
      case null
      then show thesis using that [of "Inr None" s Q] Call_User wf h by simp
    next
      case (block p g)
      then show thesis using that [of "Inl (Call a p)" "s\<lparr>kheap_st := g\<rparr>" Q] Call_User wfh by (simp add: stack_list_def)
    qed
  next
    case (Call a ust)
    then obtain V where V: "with_blocks B (stack_list ust) V" "mem_inv s V" using h by (auto simp: holding_def)
    show thesis
    proof (cases "a_entry a = 0 \<or> 3 \<le> unat (a_prio a)")
      case True
      then show thesis using that [of "create_failed ust" s Q] Call wf h by simp
    next
      case False
      from V(2) show thesis
      proof (cases rule: stack_alloc)
        case null
        then show thesis using that [of "create_failed ust" s Q] Call wf h False by simp
      next
        case (block p g)
        then have "holding (s\<lparr>kheap_st := g\<rparr>) B (stack_list ust @ [p])" using V(1) by (auto simp: holding_append)
        then show thesis
          using that [of "Inl (Stack_Held a ust p)" "s\<lparr>kheap_st := g\<rparr>" Q] Call wfh block(1,2) False by simp
      qed
    qed
  next
    case (Stack_Held a ust stack)
    then obtain V where V: "with_blocks B (stack_list ust) V" "holding s V [stack]" using h by (auto simp: holding_append)
    have p: "unat (a_prio a) < 3" "next_pid s \<noteq> 0" using ok en Stack_Held by simp_all
    from wf V(2) p show thesis
    proof (cases rule: create_enter_ok [where te = te and name = "a_name a" and entry = "a_entry a" and arg = "a_arg a"])
      case full
      then show thesis using that [of "Inl (No_Slot ust stack)" s Q] Stack_Held wf h by simp
    next
      case (entered i s' Q')
      have "holding s' B (stack_list ust)" using V(1) entered(4) by (auto simp: holding_def)
      then show thesis
        using that [of "if ust = 0 then Inr (Some i) else Inl (Entered a i (pid (proc s' i)) ust)" s' Q'] Stack_Held entered(1-3)
        by (cases "ust = 0") (simp_all add: stack_list_def)
    qed
  next
    case (No_Slot ust stack)
    then obtain V where V: "with_blocks B (stack_list ust) V" "holding s V [stack]" using h by (auto simp: holding_append)
    have "holding (s\<lparr>kheap_st := kfree stack (kheap_st s)\<rparr>) B (stack_list ust)" using V(1) stack_free [OF V(2)] by (auto simp: holding_def)
    then show thesis using that [of "create_failed ust" _ Q] No_Slot wfh by simp
  next
    case (Undo ust)
    then show thesis using that [of "Inr None" _ Q] wfh stack_free [of s B ust] h by simp
  next
    case (Entered a i p ust)
    let ?f = "\<lambda>q. q\<lparr>is_user := True, ustack := ust, ustack_top := ((ust + 16384) AND NOT 0xF) - 16, user_entry := a_user_entry a\<rparr>"
    have i: "i < 64" "state (proc s i) \<noteq> UNUSED" "ustack (proc s i) = 0" using en ok Entered by simp_all
    have so: "stack_of (upd i ?f s) = (stack_of s)((i, True) := ust)" by (auto simp: stack_of_def fun_eq_iff)
    have m: "mem_inv (upd i ?f s) B"
      by (rule stack_adopt [OF _ i(1) _ _ so]) (use h i Entered in \<open>simp_all add: stack_of_def\<close>)
    obtain c1 where c1: "current_process s = Some c1" "sched_but {} c1 s Q" "state (proc s c1) = RUNNING \<or> c1 = 0"
      using wf by (rule sched_wfD)
    have "slot_ok c1 Q i (?f (proc s i))" using sched_butD(3) [OF c1(2) i(1)] by (simp add: slot_ok_def)
    then have "sched_but {} c1 (upd i ?f s) Q" by (intro sched_but_upd_ok [OF c1(2)]) simp_all
    then have "sched_wf (upd i ?f s) Q" using c1 by (auto simp: sched_wf_def sched_inv_def)
    then show thesis using that [of "Inr (Some i)" "upd i ?f s" Q] m Entered by simp
  qed
qed

section \<open>The transition system\<close>

text \<open>
  What happens to the state and the creations in progress: a timer interrupt, one of the operations with any arguments, the
  begin of a creation or one section of a creation in progress, and the start of the scheduler. Everything that the code
  does with interrupts disabled is one step, so timer interrupts and other processes come in between: any number of
  creations are in progress at a time, and one whose process is killed stays in progress for ever. A process that is woken in
  \<^verbatim>\<open>process_wait\<close> clears its mark (\<open>woken\<close>) and then scans again; a process that kills itself takes the step \<open>exit\<close>.

  The guards exclude the uses that the code does not support: the idle
  process does not exit, nothing blocks or exits before the scheduler is started, a process is entered only
  while \<^verbatim>\<open>next_pid\<close> has not wrapped around to 0, the pid of the idle process, and a new ring 3 process is not
  reaped before it has its user stack. Two assumptions are in the shape of the steps: a call of the heap is not
  interrupted, and neither is the group of stores to the control block of a new ring 3 process.
\<close>

inductive kernel_step :: "system \<times> creation list \<Rightarrow> system \<times> creation list \<Rightarrow> bool" where
  start: "kernel_step (s, cs) (scheduler_start s, cs)"
| tick: "timer_handler s = Some s' \<Longrightarrow> kernel_step (s, cs) (s', cs)"
| create: "kernel_step (s, cs) (s, Call a 0 # cs)"
| create_user: "kernel_step (s, cs) (s, Call_User a # cs)"
| advance: "section_enabled c s \<Longrightarrow> create_section te c s = Some (r, s') \<Longrightarrow>
    kernel_step (s, xs @ [c] @ ys) (s', xs @ rest_of r @ ys)"
| exit: "started s \<Longrightarrow> cur s \<noteq> 0 \<Longrightarrow> kernel_step (s, cs) (process_exit code s, cs)"
| kill: "started s \<Longrightarrow> process_kill p s = Some (r, s') \<Longrightarrow> kernel_step (s, cs) (s', cs)"
| wait: "started s \<Longrightarrow> process_wait s = (r, s') \<Longrightarrow> kernel_step (s, cs) (s', cs)"
| woken: "kernel_step (s, cs) (upd (cur s) (\<lambda>p. p\<lparr>parent_waiting := False\<rparr>) s, cs)"
| sleep: "started s \<Longrightarrow> kernel_step (s, cs) (process_sleep ms s, cs)"
| yield: "started s \<Longrightarrow> kernel_step (s, cs) (scheduler_yield s, cs)"

text \<open>The statics at boot, with some heap.\<close>

definition boot_state :: "heap \<Rightarrow> system" where
  "boot_state h = \<lparr>process_table = (\<lambda>_. pcb_zero), next_pid = 1, current_process = None,
     queue_head = (\<lambda>_. None), queue_tail = (\<lambda>_. None), started = False, context_switches = 0, system_ticks = 0,
     tss_esp0 = 0, kheap_st = h, mem = (\<lambda>_. 0),
     cpu_regs = \<lparr>r_esp = 0, r_ebp = 0, r_ebx = 0, r_esi = 0, r_edi = 0, r_eflags = 0, r_eip = 0\<rparr>\<rparr>"

inductive kernel_reachable :: "heap \<Rightarrow> system \<times> creation list \<Rightarrow> bool" for h where
  init: "kernel_reachable h (process_init (boot_state h), [])"
| step: "kernel_reachable h x \<Longrightarrow> kernel_step x y \<Longrightarrow> kernel_reachable h y"

lemma fold_upd_unused:
  "fold (\<lambda>i. upd i (\<lambda>p. p\<lparr>state := UNUSED\<rparr>)) xs s =
     s\<lparr>process_table := (\<lambda>j. if j \<in> set xs then (proc s j)\<lparr>state := UNUSED\<rparr> else proc s j)\<rparr>"
  by (induction xs arbitrary: s) (auto simp: upd_def fun_eq_iff intro!: system_eqI)

definition idle_pcb :: process where
  "idle_pcb = copy_name (Some ''idle'') (pcb_zero\<lparr>pid := 0, ppid := 0, state := RUNNING, priority := 2, base_priority := 2, quantum_left := 5\<rparr>)"

lemma process_init_eq:
  "process_init (boot_state h) = (boot_state h)\<lparr>process_table := (\<lambda>_. pcb_zero)(0 := idle_pcb), current_process := Some 0\<rparr>"
proof -
  have "pcb_zero\<lparr>state := UNUSED\<rparr> = pcb_zero" by (simp add: pcb_zero_def)
  then show ?thesis
    unfolding process_init_def fold_upd_unused by (auto simp: Let_def boot_state_def idle_pcb_def intro!: system_eqI)
qed

lemma init_ok:
  assumes "heap_live h U" and "\<And>b. b \<in> U \<Longrightarrow> 0 < snd b"
  shows "sched_wf (process_init (boot_state h)) (\<lambda>_. [])" and "mem_inv (process_init (boot_state h)) U"
proof -
  let ?s = "process_init (boot_state h)"
  have idle: "pid idle_pcb = 0" "state idle_pcb = RUNNING" "unat (base_priority idle_pcb) = 2" "unat (priority idle_pcb) = 2"
      "kstack idle_pcb = 0" "ustack idle_pcb = 0" "nxt idle_pcb = None"
    by (simp_all add: idle_pcb_def pcb_zero_def)
  have z: "state pcb_zero = UNUSED" "kstack pcb_zero = 0" "ustack pcb_zero = 0" by (simp_all add: pcb_zero_def)
  have "queues ?s (\<lambda>_. [])" unfolding process_init_eq by (simp add: boot_state_def ready_queues_def)
  moreover have "slot_ok 0 (\<lambda>_. []) i (proc ?s i)" for i using idle z by (simp add: process_init_eq slot_ok_def)
  ultimately show "sched_wf ?s (\<lambda>_. [])" by (simp add: sched_wf_def sched_inv_def sched_but_def process_init_eq)
  have so: "stack_of ?s x = 0" for x using idle z by (cases x) (simp add: stack_of_def process_init_eq)
  then have "owns h (stack_of ?s) U"
    using assms by (auto simp: owns_def owns_ok_def stack_blocks_def)
  moreover have "kheap_st ?s = h" unfolding process_init_eq by (simp add: boot_state_def)
  ultimately show "mem_inv ?s U" using idle z by (auto simp: mem_inv_def process_init_eq)
qed

lemma start_wf [simp]: "sched_wf (scheduler_start s) Q = sched_wf s Q"
  by (simp add: scheduler_start_def sched_wf_def sched_inv_def sched_but_def)

lemma tick_ok:
  assumes "sched_wf s Q" and "mem_inv s U" and t: "timer_handler s = Some s'"
  shows "(\<exists>Q'. sched_wf s' Q') \<and> mem_inv s' U"
proof -
  let ?t = "s\<lparr>system_ticks := system_ticks s + 1\<rparr>"
  have w: "sched_wf ?t Q" by (rule tick_clock_wf [OF assms(1)])
  have m: "mem_inv ?t U" by (rule mem_inv_cong [OF assms(2)]) simp_all
  show ?thesis
  proof (cases "started s")
    case True
    obtain c where c: "current_process ?t = Some c" using w by (rule sched_wfD)
    obtain n Q' where sp: "tick_spec ?t c Q = (n, Q')" by fastforce
    obtain s'' where "scheduler_tick ?t = Some s''" "sched_wf s'' Q'"
      by (rule scheduler_tick_refines [OF w _ c sp]) (use True in simp_all)
    then show ?thesis using t tick_mem [OF w m] True by (auto simp: timer_handler_def)
  next
    case False
    then have "s' = ?t" using t by (simp add: timer_handler_def scheduler_tick_def)
    then show ?thesis using w m by blast
  qed
qed

lemma woken_ok:
  assumes "sched_wf s Q" and "mem_inv s U"
  shows "sched_wf (upd (cur s) (\<lambda>p. p\<lparr>parent_waiting := False\<rparr>) s) Q" and "mem_inv (upd (cur s) (\<lambda>p. p\<lparr>parent_waiting := False\<rparr>) s) U"
proof -
  obtain c where c: "current_process s = Some c" "sched_but {} c s Q" "slot_ok c Q c (proc s c)" "state (proc s c) = RUNNING \<or> c = 0"
    using assms(1) by (rule sched_wfD)
  have "sched_but {} c (upd c (\<lambda>p. p\<lparr>parent_waiting := False\<rparr>) s) Q" by (rule sched_but_upd_ok [OF c(2)]) (use c(3) in simp_all)
  then show "sched_wf (upd (cur s) (\<lambda>p. p\<lparr>parent_waiting := False\<rparr>) s) Q" using c by (auto simp: sched_wf_def sched_inv_def)
  show "mem_inv (upd (cur s) (\<lambda>p. p\<lparr>parent_waiting := False\<rparr>) s) U"
    by (rule upd_mem [OF assms(2)]) (use c in \<open>auto simp: slot_ok_def\<close>)
qed

text \<open>
  The invariant: the scheduling invariant, and the blocks in use are \<open>U\<close>, the stacks in the table and the stacks
  that creations in progress hold.
\<close>

definition kernel_inv :: "system \<times> creation list \<Rightarrow> (nat \<times> nat) set \<Rightarrow> bool" where
  "kernel_inv = (\<lambda>(s, cs) U. (\<exists>Q. sched_wf s Q) \<and> holding s U (all_held cs) \<and> list_all creation_ok cs)"

lemma kernel_inv_keep:
  assumes "kernel_inv (s, cs) U" and "\<And>Q V. sched_wf s Q \<Longrightarrow> mem_inv s V \<Longrightarrow> (\<exists>Q'. sched_wf s' Q') \<and> mem_inv s' V"
  shows "kernel_inv (s', cs) U"
  using assms unfolding kernel_inv_def holding_def split_conv by meson

lemma kernel_step_ok:
  assumes "kernel_step x y" and "kernel_inv x U"
  shows "kernel_inv y U"
  using assms
proof (cases rule: kernel_step.cases)
  case (start s cs)
  have "(\<exists>Q'. sched_wf (scheduler_start s) Q') \<and> mem_inv (scheduler_start s) V" if "sched_wf s Q" "mem_inv s V" for Q V
    using that(1) mem_inv_cong [OF that(2), of "scheduler_start s"] start_wf [of s Q] unfolding scheduler_start_def by auto
  then show ?thesis unfolding start(2) by (rule kernel_inv_keep [OF assms(2) [unfolded start(1)]])
next
  case (tick s s' cs)
  show ?thesis unfolding tick(2) by (rule kernel_inv_keep [OF assms(2) [unfolded tick(1)]]) (rule tick_ok [OF _ _ tick(3)])
next
  case (create s cs a)
  then show ?thesis using assms(2) by (simp add: kernel_inv_def all_held_def stack_list_def)
next
  case (create_user s cs a)
  then show ?thesis using assms(2) by (simp add: kernel_inv_def all_held_def)
next
  case (advance c s te r s' xs ys)
  then obtain Q B where w: "sched_wf s Q" "creation_ok c" "list_all creation_ok (xs @ ys)"
      and B: "with_blocks U (all_held (xs @ ys)) B" "holding s B (held c)"
    using assms(2) holding_split [of s U xs "[c]" ys] by (auto simp: kernel_inv_def)
  obtain r' t Q' where "create_section te c s = Some (r', t)" "sched_wf t Q'" "holding t B (all_held (rest_of r'))"
      "list_all creation_ok (rest_of r')"
    by (rule create_section_ok [OF w(1) B(2) w(2) advance(3)])
  then show ?thesis using advance(2,4) w(3) B(1) by (auto simp: kernel_inv_def holding_split)
next
  case (exit s cs code)
  have "(\<exists>Q'. sched_wf (process_exit code s) Q') \<and> mem_inv (process_exit code s) V" if w: "sched_wf s Q" "mem_inv s V" for Q V
  proof -
    obtain Q' where "sched_wf (process_exit code s) Q'" by (rule exit_wf [OF w(1) exit(3,4)])
    moreover obtain c where "current_process s = Some c" "c < 64" using w(1) by (rule sched_wfD)
    ultimately show ?thesis using exit_mem [OF w(2) exit(3)] by auto
  qed
  then show ?thesis unfolding exit(2) by (rule kernel_inv_keep [OF assms(2) [unfolded exit(1)]])
next
  case (kill s p r s' cs)
  have "(\<exists>Q'. sched_wf s' Q') \<and> mem_inv s' V" if w: "sched_wf s Q" "mem_inv s V" for Q V
  proof -
    obtain r' t Q' where "process_kill p s = Some (r', t)" "sched_wf t Q'" by (rule kill_wf [OF w(1) kill(3)])
    then show ?thesis using kill(4) kill_mem [OF w kill(3,4)] by auto
  qed
  then show ?thesis unfolding kill(2) by (rule kernel_inv_keep [OF assms(2) [unfolded kill(1)]])
next
  case (wait s r s' cs)
  have "(\<exists>Q'. sched_wf s' Q') \<and> mem_inv s' V" if w: "sched_wf s Q" "mem_inv s V" for Q V
  proof -
    obtain Q' where "sched_wf (snd (process_wait s)) Q'" by (rule wait_wf [OF w(1) wait(3)])
    then show ?thesis using wait(4) wait_mem [OF w wait(3)] by auto
  qed
  then show ?thesis unfolding wait(2) by (rule kernel_inv_keep [OF assms(2) [unfolded wait(1)]])
next
  case (woken s cs)
  show ?thesis unfolding woken(2) by (rule kernel_inv_keep [OF assms(2) [unfolded woken(1)]]) (use woken_ok in blast)
next
  case (sleep s cs ms)
  have "(\<exists>Q'. sched_wf (process_sleep ms s) Q') \<and> mem_inv (process_sleep ms s) V" if w: "sched_wf s Q" "mem_inv s V" for Q V
    using sleep_wf [OF w(1) sleep(3)] sleep_mem [OF w sleep(3)] by metis
  then show ?thesis unfolding sleep(2) by (rule kernel_inv_keep [OF assms(2) [unfolded sleep(1)]])
next
  case (yield s cs)
  have "(\<exists>Q'. sched_wf (scheduler_yield s) Q') \<and> mem_inv (scheduler_yield s) V" if w: "sched_wf s Q" "mem_inv s V" for Q V
    using yield_wf [OF w(1) yield(3)] yield_mem [OF w yield(3)] by metis
  then show ?thesis unfolding yield(2) by (rule kernel_inv_keep [OF assms(2) [unfolded yield(1)]])
qed

lemma kernel_reachable_ok:
  assumes "kernel_reachable h x" and "heap_live h U" and "\<And>b. b \<in> U \<Longrightarrow> 0 < snd b"
  shows "kernel_inv x U"
  using assms(1)
proof (induction rule: kernel_reachable.induct)
  case init
  then show ?case using init_ok [OF assms(2,3)] by (auto simp: kernel_inv_def all_held_def)
next
  case (step x y)
  then show ?case using kernel_step_ok by blast
qed


text \<open>A heap of 64 KiB, and the boot sequence on it: the first thread is created and the scheduler started.\<close>

definition heap_64k :: heap where
  "heap_64k = heap_init 0x200000 0x300000 0x10000 heap_example"

lemma heap_64k_live: "heap_live heap_64k {}"
proof -
  have "heap_wf heap_64k [(65520, True)]"
    using heap_init_wf(1) [of "0x300000" "0x10000" "0x200000" heap_example] by (simp add: heap_64k_def)
  then show ?thesis by (auto simp: heap_live_def intro!: exI [of _ "[(65520, True)]"])
qed

definition booted :: system where
  "booted = scheduler_start (snd (the (process_create 0x100100 (Some ''shell'') 0x100200 0 0 (process_init (boot_state heap_64k)))))"

lemma kernel_advance:
  "kernel_reachable h (s, [c]) \<Longrightarrow> section_enabled c s \<Longrightarrow> create_section te c s = Some (r, s') \<Longrightarrow> kernel_reachable h (s', rest_of r)"
  using kernel_reachable.step [OF _ kernel_step.advance [of c s te r s' "[]" "[]"]] by simp

lemma kmalloc_64k: "\<exists>h. kmalloc 16384 heap_64k = Some (0x300010, h)"
proof -
  have wf: "heap_wf heap_64k [(65520, True)]" and b: "heap_base heap_64k = 0x300000"
    using heap_init_wf(1,2) [of "0x300000" "0x10000" "0x200000" heap_example] by (simp_all add: heap_64k_def)
  have n: "(16384 :: u32) \<noteq> 0" "unat (16384 :: u32) + 7 < 2 ^ 32" by simp_all
  from wf n show ?thesis
  proof (cases rule: kmalloc_cases)
    case Full
    then show ?thesis by (simp add: fits_def)
  next
    case (Block xs m ys s')
    then have "xs = []" by (cases xs) auto
    then show ?thesis using Block(4) b by simp
  qed
qed

text \<open>The first thread has slot 1 and is the only process in a ready list.\<close>

lemma booted_shell:
  "sched_wf booted ((\<lambda>_. [])(0 := [1]))" "started booted" "current_process booted = Some 0"
  "same_pcb (proc booted 1) (new_pcb (process_init (boot_state heap_64k)) (Some ''shell'') 0 0x300010)"
  "same_pcb (proc booted 0) idle_pcb"
proof -
  let ?s = "process_init (boot_state heap_64k)" and ?c = "process_create 0x100100 (Some ''shell'') 0x100200 0 0"
  have p: "proc ?s 0 = idle_pcb" "i \<noteq> 0 \<Longrightarrow> proc ?s i = pcb_zero" for i by (simp_all add: process_init_eq)
  have st: "state idle_pcb = RUNNING" "state pcb_zero = UNUSED" by (simp_all add: idle_pcb_def pcb_zero_def)
  have w: "sched_wf ?s (\<lambda>_. [])" using init_ok(1) [OF heap_64k_live] by simp
  have k: "next_pid ?s \<noteq> 0" "kheap_st ?s = heap_64k" "current_process ?s = Some 0"
    unfolding process_init_eq by (simp_all add: boot_state_def)
  have l: "heap_live (kheap_st ?s) {}" using k(2) heap_64k_live by simp
  obtain h where km: "kmalloc 16384 (kheap_st ?s) = Some (0x300010, h)" using kmalloc_64k k(2) by auto
  have f: "find (\<lambda>i. state (proc ?s i) = UNUSED) [0..<64] = Some 1" using p st by (simp add: find_upt_Some_iff)
  have cu: "state (proc ?s i) \<noteq> UNUSED" if "current_process ?s = Some i" for i using that k(3) p st by simp
  obtain i stack h' where c: "?c ?s = Some (Some i, scheduler_enqueue (Some i) (upd i (\<lambda>_. new_pcb ?s (Some ''shell'') 0 stack)
        (?s\<lparr>kheap_st := h', next_pid := next_pid ?s + 1, mem := new_frame 0x100100 0x100200 0 stack (mem ?s)\<rparr>)))"
      and i: "i < 64" "state (proc ?s i) = UNUSED" "\<And>j. j < i \<Longrightarrow> state (proc ?s j) \<noteq> UNUSED" and sk: "stack = 0x300010"
  proof (rule process_create_cases [OF l cu, where te = "0x100100" and name = "Some ''shell''" and entry = "0x100200" and arg = 0 and prio = 0])
    fix s' assume "?c ?s = Some (None, s')"
    moreover obtain t where "create_enter 0x100100 (Some ''shell'') 0x100200 0 0 0x300010 (?s\<lparr>kheap_st := h\<rparr>) = (Some 1, t)"
      by (rule create_enter_slot [of "?s\<lparr>kheap_st := h\<rparr>" 1]) (use f in simp)
    ultimately show thesis using km by (simp add: process_create_def)
  next
    fix i stack h' assume "?c ?s = Some (Some i, scheduler_enqueue (Some i) (upd i (\<lambda>_. new_pcb ?s (Some ''shell'') 0 stack)
        (?s\<lparr>kheap_st := h', next_pid := next_pid ?s + 1, mem := new_frame 0x100100 0x100200 0 stack (mem ?s)\<rparr>)))"
      "i < 64" "state (proc ?s i) = UNUSED" "\<And>j. j < i \<Longrightarrow> state (proc ?s j) \<noteq> UNUSED" "kmalloc 16384 (kheap_st ?s) = Some (stack, h')"
    then show thesis using km that by simp
  qed
  have "i \<noteq> 0" using i(2) p(1) st by (cases "i = 0") simp_all
  moreover have "\<not> 1 < i" using i(3) [of 1] p(2) [of 1] st by auto
  ultimately have i1: "i = 1" by simp
  note M = create_made_wf [OF w i(1,2) _ k(1) refl, where prio = 0 and name = "Some ''shell''" and stack = stack and h = h'
      and k = "next_pid ?s + 1" and m = "new_frame 0x100100 0x100200 0 stack (mem ?s)"]
  show "sched_wf booted ((\<lambda>_. [])(0 := [1]))" "started booted" "current_process booted = Some 0"
    "same_pcb (proc booted 1) (new_pcb ?s (Some ''shell'') 0 0x300010)" "same_pcb (proc booted 0) idle_pcb"
    using M(1,2,7) M(3) [of 0] i1 sk k(3) p(1) unfolding booted_def c
    by (simp, simp_all add: scheduler_start_def)
qed

text \<open>A ring 3 process is created at boot; its creation has the user stack when the timer interrupts it.\<close>

definition user_args :: create_args where
  "user_args = \<lparr>a_name = Some ''init'', a_entry = 0x100400, a_arg = 0, a_prio = 1, a_user_entry = 0x100500\<rparr>"

definition interrupted :: system where
  "interrupted = (process_init (boot_state heap_64k))
     \<lparr>kheap_st := snd (the (kmalloc 16384 heap_64k)), system_ticks := 1\<rparr>"

lemma interrupted_reachable: "kernel_reachable heap_64k (interrupted, [Call user_args 0x300010])"
proof -
  let ?s = "process_init (boot_state heap_64k)"
  obtain h where h: "kmalloc 16384 heap_64k = Some (0x300010, h)" using kmalloc_64k by blast
  have k: "kheap_st ?s = heap_64k" "system_ticks ?s = 0" "\<not> started ?s" unfolding process_init_eq by (simp_all add: boot_state_def)
  have "kernel_reachable heap_64k (?s, [Call_User user_args])"
    by (rule kernel_reachable.step [OF kernel_reachable.init kernel_step.create_user])
  moreover have "create_section 0x100100 (Call_User user_args) ?s = Some (Inl (Call user_args 0x300010), ?s\<lparr>kheap_st := h\<rparr>)"
    using h k(1) by simp
  ultimately have "kernel_reachable heap_64k (?s\<lparr>kheap_st := h\<rparr>, [Call user_args 0x300010])"
    using kernel_advance by fastforce
  moreover have "timer_handler (?s\<lparr>kheap_st := h\<rparr>) = Some interrupted"
    using k(2,3) h by (simp add: timer_handler_def scheduler_tick_def interrupted_def)
  ultimately show ?thesis by (blast intro: kernel_reachable.step kernel_step.tick)
qed


end
