(* ===== verification/Fairness.thy ===== *)
theory Fairness
  imports Process_Safety
begin

text \<open>
  Fairness of the scheduler: aging and round robin together give every waiting process the CPU within a
  bounded number of ticks, whatever the priorities of the others.
\<close>

section \<open>Distance to the CPU\<close>

definition pos :: "nat \<Rightarrow> nat list \<Rightarrow> nat" where
  "pos i xs = length (takeWhile (\<lambda>j. j \<noteq> i) xs)"

lemma pos_append: "i \<in> set xs \<Longrightarrow> pos i (xs @ ys) = pos i xs"
  by (simp add: pos_def takeWhile_append1)

lemma pos_tl: "i \<in> set xs \<Longrightarrow> hd xs \<noteq> i \<Longrightarrow> Suc (pos i (tl xs)) = pos i xs"
  by (cases xs) (auto simp: pos_def)

lemma pos_less: "i \<in> set xs \<Longrightarrow> pos i xs < length xs"
  by (induction xs) (auto simp: pos_def)

text \<open>
  An upper bound on the ticks until slot \<open>i\<close>, waiting at level \<open>q\<close>, runs: at level 0 its position
  and the running quantum count, below it the time until the next boost.
\<close>

definition rank :: "system \<Rightarrow> (nat \<Rightarrow> nat list) \<Rightarrow> nat \<Rightarrow> nat \<Rightarrow> nat" where
  "rank s Q i q =
     (if q = 0 then 6 * pos i (Q 0) + unat (quantum_left (proc s (cur s)))
      else 390 + (q - 1) * 201 + (200 - unat (wait_ticks (proc s i))))"

definition waits :: "system \<Rightarrow> (nat \<Rightarrow> nat list) \<Rightarrow> nat \<Rightarrow> nat \<Rightarrow> bool" where
  "waits s Q i q \<longleftrightarrow> q < 3 \<and> i \<in> set (Q q) \<and> unat (wait_ticks (proc s i)) \<le> 200 \<and>
     unat (quantum_left (proc s (cur s))) \<le> 5"

lemma rank_bound: "waits s Q i q \<Longrightarrow> length (Q 0) \<le> 64 \<Longrightarrow> rank s Q i q < 792"
  using pos_less [of i "Q 0"] by (auto simp: rank_def waits_def less3)

section \<open>One tick\<close>

lemma waiting_slot:
  assumes "sched_but {} c s Q" and "q < 3" and "i \<in> set (Q q)"
  shows "i < 64" "i \<noteq> c" "state (proc s i) = READY" "unat (priority (proc s i)) = q"
    "\<And>r. r < 3 \<Longrightarrow> i \<in> set (wake_queues now 64 s Q r) \<longleftrightarrow> r = q" "woken now i (proc s i) = proc s i"
proof -
  note D = sched_butD [OF assms(1)]
  show i: "i < 64" by (rule D(4) [OF assms(2,3)])
  have ok: "slot_ok c Q i (proc s i)" using D(3) i by simp
  then show p: "i \<noteq> c" "state (proc s i) = READY" "unat (priority (proc s i)) = q"
    using assms(2,3) unfolding slot_ok_def by blast+
  then show "woken now i (proc s i) = proc s i" by (simp add: woken_def due_def)
  show "i \<in> set (wake_queues now 64 s Q r) \<longleftrightarrow> r = q" if "r < 3" for r
    using p ready_queues_disjoint [OF D(1) assms(2) that _ assms(3)] assms(3) by (auto simp: wake_queues_def due_def)
qed

text \<open>Where a waiting process is after wake-up and aging.\<close>

definition next_level :: "system \<Rightarrow> nat \<Rightarrow> nat \<Rightarrow> nat" where
  "next_level s i q = (if q > 0 \<and> stale (proc s i) then q - 1 else q)"

lemma waiting_tick:
  assumes "sched_but {} c s Q" and q: "q < 3" "i \<in> set (Q q)"
  shows "i \<in> set (tick_queues s Q (next_level s i q))" and "next_level s i q < 3"
    and "tick_pcb s Q i = (if q = 0 then proc s i else aged q (proc s i))"
    and "q = 0 \<Longrightarrow> pos i (tick_queues s Q 0) = pos i (Q 0)"
proof -
  note W = waiting_slot [OF assms]
  let ?now = "system_ticks s"
  have st: "stale (proc (wake_state ?now 64 s) i) = stale (proc s i)"
    using W(1) W(6) [of ?now] by (simp add: wake_state_def)
  have w: "i \<in> set (wake_queues ?now 64 s Q q)" using W(5) [OF q(1)] by simp
  show "i \<in> set (tick_queues s Q (next_level s i q))"
    using w st q(1) by (auto simp: tick_queues_def aging_queues_def next_level_def)
  show "next_level s i q < 3" using q(1) by (auto simp: next_level_def)
  show "tick_pcb s Q i = (if q = 0 then proc s i else aged q (proc s i))"
    using W(5,6) q(1) by (auto simp: tick_pcb_def Let_def less3)
  show "pos i (tick_queues s Q 0) = pos i (Q 0)" if "q = 0"
    using q that by (simp add: tick_queues_def aging_queues_def wake_queues_def pos_append)
qed

lemma u32_incr: "unat w \<le> 200 \<Longrightarrow> unat (w + 1) = unat w + 1" for w :: u32
  using unat_u32_add [of w 1] by simp

lemma stale_iff: "unat (wait_ticks p) \<le> 200 \<Longrightarrow> stale p \<longleftrightarrow> unat (wait_ticks p) = 200"
  by (auto simp: stale_def word_less_nat_alt u32_incr)

lemma queue_bound:
  assumes "sched_wf s Q" and "q < 3"
  shows "length (Q q) \<le> 64"
proof -
  obtain c where b: "sched_but {} c s Q" using assms(1) by (auto simp: sched_wf_def sched_inv_def)
  have "distinct (Q q)" "set (Q q) \<subseteq> {..<64}"
    using ready_queuesD(3) [OF sched_butD(1) [OF b] assms(2)] sched_butD(4) [OF b assms(2)] by auto
  then show ?thesis using card_mono [of "{..<64 :: nat}" "set (Q q)"] by (simp add: distinct_card)
qed

text \<open>A switch to another process leaves a waiting one in its list, one place further on in the highest.\<close>

lemma switched_position:
  assumes spec: "sched_spec running c b T = (n, Q')" and i: "i \<in> set (T r)" "r < 3" and ni: "n \<noteq> i"
  shows "i \<in> set (Q' r)" and "r = 0 \<Longrightarrow> Suc (pos i (Q' 0)) = pos i (T 0)"
proof -
  obtain l where l: "top_queue T = Some l" using i by (cases "top_queue T") (auto simp: top_queue_None)
  then have L: "l < 3" "T l \<noteq> []" "\<And>k. k < l \<Longrightarrow> T k = []" by (auto simp: top_queue_Some)
  have n: "n = hd (T l)" and Q': "\<exists>ys. Q' k = (T(l := tl (T l))) k @ ys" for k
    using spec l by (auto simp: sched_spec_def requeue_def)
  have mem: "i \<in> set ((T(l := tl (T l))) r)" using i ni n L(2) by (cases "T l") auto
  then show "i \<in> set (Q' r)" using Q' [of r] by auto
  show "Suc (pos i (Q' 0)) = pos i (T 0)" if z: "r = 0"
  proof -
    have l0: "l = 0" using L(3) [of 0] i z by (cases "l = 0") auto
    then have "Suc (pos i (tl (T 0))) = pos i (T 0)" using pos_tl [of i "T 0"] i z n ni by simp
    moreover have "pos i (Q' 0) = pos i (tl (T 0))" using Q' [of 0] mem z l0 pos_append by auto
    ultimately show ?thesis by simp
  qed
qed

lemma tick_progress:
  assumes wf: "sched_wf s Q" and "started s" and w: "waits s Q i q"
  obtains s' Q' where "scheduler_tick s = Some s'" "sched_wf s' Q'" "started s'"
    "current_process s' = Some i \<or> (\<exists>q'. waits s' Q' i q' \<and> rank s' Q' i q' < rank s Q i q)"
proof -
  obtain c where c: "current_process s = Some c" "sched_but {} c s Q" using wf unfolding sched_wf_def sched_inv_def by auto
  have q: "q < 3" "i \<in> set (Q q)" "unat (wait_ticks (proc s i)) \<le> 200" "unat (quantum_left (proc s c)) \<le> 5"
    using w c(1) by (auto simp: waits_def)
  let ?T = "tick_queues s Q" and ?r = "next_level s i q"
  note W = waiting_slot [OF c(2) q(1,2)] and K = waiting_tick [OF c(2) q(1,2)]
  obtain n Q' where spec: "tick_spec s c Q = (n, Q')" by fastforce
  obtain s' where t: "scheduler_tick s = Some s'" "sched_wf s' Q'" "current_process s' = Some n" "started s'"
      and same: "\<And>j. j < 64 \<Longrightarrow> j \<noteq> c \<Longrightarrow> j \<noteq> n \<Longrightarrow> state (tick_pcb s Q j) \<noteq> ZOMBIE \<Longrightarrow> same_pcb (proc s' j) (tick_pcb s Q j)"
      and ql: "preempts s c ?T \<Longrightarrow> top_queue ?T \<noteq> None \<Longrightarrow> quantum_left (proc s' n) = 5"
        "\<not> preempts s c ?T \<Longrightarrow> quantum_left (proc s' n) = quantum_left (proc s c) - 1"
    by (rule scheduler_tick_refines [OF wf assms(2) c(1) spec]) blast
  have goal: "\<exists>q'. waits s' Q' i q' \<and> rank s' Q' i q' < rank s Q i q" if ni: "n \<noteq> i"
  proof -
    have top: "top_queue ?T \<noteq> None" using K(1,2) by (auto simp: top_queue_None)
    have "state (tick_pcb s Q i) = READY" using W(3) K(3) by (simp add: aged_def)
    then have pi: "same_pcb (proc s' i) (tick_pcb s Q i)" using same [OF W(1,2)] ni by simp
    have wt: "unat (wait_ticks (proc s' i)) = (if q = 0 then unat (wait_ticks (proc s i))
        else if unat (wait_ticks (proc s i)) = 200 then 0 else unat (wait_ticks (proc s i)) + 1)"
      using same_pcbD(12) [OF pi] K(3) q(3) by (simp add: aged_def stale_iff u32_incr)
    have lvl: "?r = (if q > 0 \<and> unat (wait_ticks (proc s i)) = 200 then q - 1 else q)"
      using stale_iff [OF q(3)] by (simp add: next_level_def)
    have cur': "cur s' = n" using t(3) by simp
    have main: "i \<in> set (Q' ?r) \<and> unat (quantum_left (proc s' n)) \<le> 5 \<and>
        (?r = 0 \<longrightarrow> 6 * pos i (Q' 0) + unat (quantum_left (proc s' n)) < 6 * pos i (?T 0) + unat (quantum_left (proc s c)))"
    proof (cases "preempts s c ?T")
      case True
      have "sched_spec (state (proc s c) = RUNNING) c (unat (base_priority (proc s c))) ?T = (n, Q')"
        using spec True by (simp add: tick_spec_def)
      note P = switched_position [OF this K(1,2) ni]
      have "quantum_left (proc s' n) = 5" by (rule ql(1) [OF True top])
      then show ?thesis using P by auto
    next
      case False
      then have e: "n = c" "Q' = ?T" using spec by (auto simp: tick_spec_def)
      have "quantum_left (proc s c) \<noteq> 0" using False by (auto simp: preempts_def)
      then have "unat (quantum_left (proc s c) - 1) = unat (quantum_left (proc s c)) - 1" "0 < unat (quantum_left (proc s c))"
        by (simp_all add: unat_minus_one unat_gt_0)
      then show ?thesis using ql(2) [OF False] e K(1) q(4) by auto
    qed
    have wq': "waits s' Q' i ?r" using main K(2) wt q(3) cur' by (auto simp: waits_def)
    have len: "length (Q' 0) \<le> 64" by (rule queue_bound [OF t(2)]) simp
    have "rank s' Q' i ?r < rank s Q i q"
    proof (cases "?r = 0")
      case True
      show ?thesis
      proof (cases "q = 0")
        case q0: True
        then show ?thesis using main True K(4) cur' c(1) by (simp add: rank_def)
      next
        case False
        have "pos i (Q' 0) < 64" using main True pos_less [of i "Q' 0"] len by auto
        then show ?thesis using main True False cur' by (simp add: rank_def)
      qed
    next
      case False
      then have q0: "0 < q" using lvl by (cases q) auto
      then show ?thesis using False lvl wt q(1,3) by (auto simp: rank_def less3 split: if_splits)
    qed
    then show ?thesis using wq' by blast
  qed
  show thesis using that [OF t(1,2,4)] goal t(3) by blast
qed


section \<open>Starvation freedom\<close>

text \<open>A run of timer interrupts in which the running process makes no system call.\<close>

primrec run_ticks :: "nat \<Rightarrow> system \<Rightarrow> system option" where
  "run_ticks 0 s = Some s"
| "run_ticks (Suc k) s = Option.bind (timer_handler s) (run_ticks k)"

lemma waits_runs:
  "sched_wf s Q \<Longrightarrow> started s \<Longrightarrow> waits s Q i q \<Longrightarrow>
   \<exists>k s'. k \<le> rank s Q i q \<and> run_ticks (Suc k) s = Some s' \<and> current_process s' = Some i"
proof (induction "rank s Q i q" arbitrary: s Q q rule: less_induct)
  case less
  let ?t = "s\<lparr>system_ticks := system_ticks s + 1\<rparr>"
  have t: "sched_wf ?t Q" "started ?t" "waits ?t Q i q" "rank ?t Q i q = rank s Q i q"
    using less.prems by (simp_all add: waits_def rank_def tick_clock_wf)
  obtain s' Q' where s': "scheduler_tick ?t = Some s'" "sched_wf s' Q'" "started s'"
      "current_process s' = Some i \<or> (\<exists>q'. waits s' Q' i q' \<and> rank s' Q' i q' < rank s Q i q)"
    by (rule tick_progress [OF t(1-3)]) (use t(4) in simp)
  from s'(4) show ?case
  proof (elim disjE exE conjE)
    assume "current_process s' = Some i"
    then show ?thesis using s'(1) by (intro exI [of _ 0]) (simp add: timer_handler_def)
  next
    fix q' assume "waits s' Q' i q'" and r: "rank s' Q' i q' < rank s Q i q"
    then obtain k u where "k \<le> rank s' Q' i q'" "run_ticks (Suc k) s' = Some u" "current_process u = Some i"
      using less.hyps [OF r s'(2,3)] by blast
    then show ?thesis using r s'(1) by (intro exI [of _ "Suc k"] exI [of _ u]) (simp add: timer_handler_def)
  qed
qed

text \<open>
  C8. Starvation freedom: while interrupts arrive and the running processes compute, every process in
  a ready list, whatever its level and however many others wait, is given the CPU within 792 ticks
  (under eight seconds at 100 Hz): aging lifts it to the highest level, round robin there does the rest.
\<close>

theorem starvation_free:
  assumes "sched_wf s Q" and "started s" and "q < 3" and "i \<in> set (Q q)"
    and "unat (wait_ticks (proc s i)) \<le> 200" and "unat (quantum_left (proc s (cur s))) \<le> 5"
  shows "\<exists>k s'. 0 < k \<and> k \<le> 792 \<and> run_ticks k s = Some s' \<and> current_process s' = Some i"
proof -
  have w: "waits s Q i q" using assms by (simp add: waits_def)
  have "rank s Q i q < 792" using rank_bound [OF w] queue_bound [OF assms(1), of 0] by simp
  then show ?thesis using waits_runs [OF assms(1,2) w] by (metis Suc_leI le_less_trans zero_less_Suc)
qed


theorem starvation_free_witness:
  "sched_wf booted ((\<lambda>_. [])(0 := [1])) \<and>
   (\<exists>k s'. 0 < k \<and> k \<le> 792 \<and> run_ticks k booted = Some s' \<and> current_process s' = Some 1)"
proof -
  have "unat (wait_ticks (proc booted 1)) = 0" "unat (quantum_left (proc booted (cur booted))) = 5"
    using same_pcbD(12) [OF booted_shell(4)] same_pcbD [OF booted_shell(5)] booted_shell(3)
    by (simp_all add: new_pcb_def copy_name_def pcb_zero_def idle_pcb_def)
  then show ?thesis using starvation_free [OF booted_shell(1,2), of 0 1] booted_shell(1) by simp
qed

end
