(* ===== verification/Ports.thy ===== *)
theory Ports
  imports Prelude "HOL-Library.Monad_Syntax"
begin

text \<open>
  Port output, the interrupt controllers (src/arch/x86/pic.c), the serial port
  (src/drivers/serial.c) and the programming of the interval timer (src/drivers/timer.c).
  The machine records every byte written to a port, in order.  What a device answers is an
  argument: \<open>inb\<close> for single reads, and for the line status register of the UART the
  sequence \<open>lsr\<close> of the values that successive reads return.  Spinning on a UART that never
  becomes ready is \<open>None\<close>.
\<close>

section \<open>Port output\<close>

record machine =
  port_log :: "(u16 \<times> u8) list"
  lsr_reads :: nat
  serial_available :: bool

definition outb :: "u16 \<Rightarrow> u8 \<Rightarrow> 'a machine_scheme \<Rightarrow> 'a machine_scheme" where
  "outb port val m = m\<lparr>port_log := port_log m @ [(port, val)]\<rparr>"

definition io_wait :: "'a machine_scheme \<Rightarrow> 'a machine_scheme" where
  "io_wait m = outb 0x80 0 m"

abbreviation PIC1_CMD :: u16 where "PIC1_CMD \<equiv> 0x20"
abbreviation PIC1_DATA :: u16 where "PIC1_DATA \<equiv> 0x21"
abbreviation PIC2_CMD :: u16 where "PIC2_CMD \<equiv> 0xA0"
abbreviation PIC2_DATA :: u16 where "PIC2_DATA \<equiv> 0xA1"
abbreviation SERIAL_COM1_BASE :: u16 where "SERIAL_COM1_BASE \<equiv> 0x3F8"

section \<open>Interrupt controllers\<close>

definition pic_init :: "'a machine_scheme \<Rightarrow> 'a machine_scheme" where
  "pic_init m =
     (let m = io_wait (outb PIC1_CMD (0x10 OR 0x01) m);
          m = io_wait (outb PIC2_CMD (0x10 OR 0x01) m);
          m = io_wait (outb PIC1_DATA 0x20 m);
          m = io_wait (outb PIC2_DATA 0x28 m);
          m = io_wait (outb PIC1_DATA 0x04 m);
          m = io_wait (outb PIC2_DATA 0x02 m);
          m = io_wait (outb PIC1_DATA 0x01 m);
          m = io_wait (outb PIC2_DATA 0x01 m)
      in outb PIC2_DATA 0xFF (outb PIC1_DATA 0xFF m))"

definition pic_send_eoi :: "u8 \<Rightarrow> 'a machine_scheme \<Rightarrow> 'a machine_scheme" where
  "pic_send_eoi irq m = outb PIC1_CMD 0x20 (if irq \<ge> 8 then outb PIC2_CMD 0x20 m else m)"

text \<open>\<open>1 << irq\<close> is computed in \<open>int\<close> and the result stored in a byte.\<close>

definition pic_unmask_irq :: "(u16 \<Rightarrow> u8) \<Rightarrow> u8 \<Rightarrow> 'a machine_scheme \<Rightarrow> 'a machine_scheme" where
  "pic_unmask_irq inb irq m =
     (let (port, irq') = (if irq < 8 then (PIC1_DATA, irq) else (PIC2_DATA, irq - 8));
          value' = inb port AND NOT (push_bit (unat irq') 1)
      in outb port value' m)"

definition pic_mask_irq :: "(u16 \<Rightarrow> u8) \<Rightarrow> u8 \<Rightarrow> 'a machine_scheme \<Rightarrow> 'a machine_scheme" where
  "pic_mask_irq inb irq m =
     (let (port, irq') = (if irq < 8 then (PIC1_DATA, irq) else (PIC2_DATA, irq - 8));
          value' = inb port OR push_bit (unat irq') 1
      in outb port value' m)"

definition keyboard_init :: "(u16 \<Rightarrow> u8) \<Rightarrow> 'a machine_scheme \<Rightarrow> 'a machine_scheme" where
  "keyboard_init inb m = outb PIC1_DATA (inb PIC1_DATA AND NOT (push_bit 1 1)) m"

section \<open>Interval timer\<close>

text \<open>The counter that \<open>timer_init\<close> resets is the field \<open>ticks\<close> of the process model; here are the divisor and the port writes.\<close>

definition timer_divisor :: "u32 \<Rightarrow> u32" where
  "timer_divisor frequency = 1193182 div frequency"

definition timer_init_ports :: "u32 \<Rightarrow> 'a machine_scheme \<Rightarrow> 'a machine_scheme" where
  "timer_init_ports frequency m =
     (let divisor = timer_divisor frequency
      in outb 0x40 (ucast (drop_bit 8 divisor AND 0xFF)) (outb 0x40 (ucast (divisor AND 0xFF)) (outb 0x43 0x36 m)))"

definition timer_get_uptime_ms :: "u32 \<Rightarrow> u64 \<Rightarrow> u64" where
  "timer_get_uptime_ms timer_frequency system_ticks =
     (if timer_frequency = 0 then 0
      else let ticks_low = (ucast system_ticks :: u32);
               ms = (ticks_low * 1000) div timer_frequency
           in ucast ms)"

section \<open>Serial port\<close>

definition serial_init :: "u8 \<Rightarrow> 'a machine_scheme \<Rightarrow> 'a machine_scheme" where
  "serial_init echo m =
     (let base = SERIAL_COM1_BASE;
          m = outb (base + 1) 0x00 m;
          m = outb (base + 3) 0x80 m;
          m = outb (base + 0) 0x03 m;
          m = outb (base + 1) 0x00 m;
          m = outb (base + 3) 0x03 m;
          m = outb (base + 2) 0xC7 m;
          m = outb (base + 4) 0x0B m;
          m = outb (base + 4) 0x1E m;
          m = outb (base + 0) 0xAE m
      in if echo \<noteq> 0xAE then m\<lparr>serial_available := False\<rparr>
         else (outb (base + 4) 0x0F m)\<lparr>serial_available := True\<rparr>)"

definition tx_ready :: "(nat \<Rightarrow> u8) \<Rightarrow> nat \<Rightarrow> bool" where
  "tx_ready lsr n \<longleftrightarrow> lsr n AND 0x20 \<noteq> 0"

text \<open>The spin loop: the number of the first read after the wait.\<close>

partial_function (option) tx_wait :: "(nat \<Rightarrow> u8) \<Rightarrow> nat \<Rightarrow> nat option" where
  "tx_wait lsr n = (if tx_ready lsr n then Some (Suc n) else tx_wait lsr (Suc n))"

definition serial_write_char :: "(nat \<Rightarrow> u8) \<Rightarrow> char \<Rightarrow> 'a machine_scheme \<Rightarrow> 'a machine_scheme option" where
  "serial_write_char lsr c m =
     (if \<not> serial_available m then Some m
      else do {
        n \<leftarrow> tx_wait lsr (lsr_reads m);
        Some (outb SERIAL_COM1_BASE (of_char c) (m\<lparr>lsr_reads := n\<rparr>)) })"

text \<open>A string is given by the characters before its terminator, \<open>None\<close> for NULL.\<close>

fun serial_loop :: "(nat \<Rightarrow> u8) \<Rightarrow> string \<Rightarrow> 'a machine_scheme \<Rightarrow> 'a machine_scheme option" where
  "serial_loop lsr [] m = Some m"
| "serial_loop lsr (c # cs) m = do {
     m1 \<leftarrow> (if c = CHR 0x0A then serial_write_char lsr (CHR 0x0D) m else Some m);
     m2 \<leftarrow> serial_write_char lsr c m1;
     serial_loop lsr cs m2 }"

definition serial_write :: "(nat \<Rightarrow> u8) \<Rightarrow> string option \<Rightarrow> 'a machine_scheme \<Rightarrow> 'a machine_scheme option" where
  "serial_write lsr s m =
     (case s of None \<Rightarrow> Some m | Some cs \<Rightarrow> if \<not> serial_available m then Some m else serial_loop lsr cs m)"

section \<open>Properties\<close>

text \<open>
  What the driver relies on: the transmit holding register becomes empty again and again
  (16550 UART, line status register bit 5).
\<close>

definition uart_live :: "(nat \<Rightarrow> u8) \<Rightarrow> bool" where
  "uart_live lsr \<longleftrightarrow> (\<forall>n. \<exists>k\<ge>n. tx_ready lsr k)"

lemma tx_wait_returns:
  assumes "uart_live lsr"
  shows "\<exists>k>n. tx_wait lsr n = Some k"
proof -
  obtain k where k: "k \<ge> n" "tx_ready lsr k" using assms by (auto simp: uart_live_def)
  then show ?thesis
  proof (induction "k - n" arbitrary: n)
    case 0
    then have "k = n" by simp
    then show ?case using 0 by (subst tx_wait.simps) simp
  next
    case (Suc d)
    then show ?case
    proof (cases "tx_ready lsr n")
      case True
      then show ?thesis by (subst tx_wait.simps) simp
    next
      case False
      have "\<exists>k>Suc n. tx_wait lsr (Suc n) = Some k" using Suc(2-4) by (intro Suc(1)) auto
      then show ?thesis using False by (subst tx_wait.simps) auto
    qed
  qed
qed

text \<open>Masking and unmasking change exactly the bit of the interrupt line.\<close>

lemma bit_push_one: "bit (2 ^ k :: u8) j \<longleftrightarrow> j = k \<and> k < 8"
  by (auto simp: bit_exp_iff possible_bit_word)

lemma pic_unmask_irq_bits:
  assumes "irq < 16"
  obtains v where "port_log (pic_unmask_irq inb irq m) =
      port_log m @ [(if irq < 8 then PIC1_DATA else PIC2_DATA, v)]"
    and "\<And>j. j < 8 \<Longrightarrow> bit v j \<longleftrightarrow> bit (inb (if irq < 8 then PIC1_DATA else PIC2_DATA)) j \<and> j \<noteq> unat irq mod 8"
proof -
  have m: "unat (if irq < 8 then irq else irq - 8) = unat irq mod 8"
  proof (cases "irq < 8")
    case False
    then have "unat (irq - 8) = unat irq - 8" "8 \<le> unat irq" "unat irq < 16"
      using assms by (simp_all add: unat_sub not_less word_le_nat_alt word_less_nat_alt)
    moreover have "unat irq mod 8 = unat irq - 8" using calculation(2,3) by (simp add: mod_if)
    ultimately show ?thesis using False by simp
  qed (simp add: word_less_nat_alt)
  let ?v = "inb (if irq < 8 then PIC1_DATA else PIC2_DATA) AND NOT (push_bit (unat irq mod 8) 1)"
  have "port_log (pic_unmask_irq inb irq m) = port_log m @ [(if irq < 8 then PIC1_DATA else PIC2_DATA, ?v)]"
    unfolding pic_unmask_irq_def using m by (auto simp: outb_def Let_def split: if_splits)
  then show ?thesis using that [of ?v] by (auto simp: bit_and_iff bit_not_iff bit_push_one)
qed

text \<open>An end of interrupt always reaches the master, and the slave for its eight lines.\<close>

lemma pic_send_eoi_ports:
  "port_log (pic_send_eoi irq m) = port_log m @ (if irq \<ge> 8 then [(PIC2_CMD, 0x20)] else []) @ [(PIC1_CMD, 0x20)]"
  by (simp add: pic_send_eoi_def outb_def)

text \<open>
  The divisor of 100 Hz fits the 16-bit counter.  The uptime is exact as long as the 32-bit product
  does not wrap, which at 100 Hz is for about 11.9 hours; one tick later it restarts near 0.
\<close>

lemma timer_100_Hz: "timer_divisor 100 = 11931" "timer_divisor 100 < 2 ^ 16"
  by (simp_all add: timer_divisor_def)

lemma uptime_exact:
  assumes "unat t * 1000 < 2 ^ 32" and "0 < f"
  shows "unat (timer_get_uptime_ms f t) = unat t * 1000 div unat f"
proof -
  have t: "unat (ucast t :: u32) = unat t"
    using assms(1) by (simp add: unsigned_ucast_eq take_bit_nat_eq_self)
  have "unat ((ucast t :: u32) * 1000) = unat t * 1000"
    using assms(1) t by (simp add: unat_word_ariths)
  moreover have "f \<noteq> 0" using assms(2) by auto
  moreover have "unat t * 1000 div unat f < 2 ^ 64"
    by (rule le_less_trans [OF div_le_dividend]) (use assms(1) in simp)
  ultimately show ?thesis
    by (simp add: timer_get_uptime_ms_def Let_def unsigned_ucast_eq take_bit_nat_eq_self unat_div)
qed

lemma uptime_wraps: "timer_get_uptime_ms 100 4294967 = 42949670" "timer_get_uptime_ms 100 4294968 = 7"
  by (simp_all add: timer_get_uptime_ms_def)

end
