(* ===== verification/Console.thy ===== *)
theory Console
  imports Ports
begin

text \<open>
  The VGA text console (src/drivers/console.c) and the panic screen (src/kernel/panic.c).  The
  video memory is a list of 16-bit cells; a write outside it is \<open>None\<close>.  Every character is
  mirrored to the serial port.
\<close>

section \<open>Model\<close>

abbreviation VGA_WIDTH :: nat where "VGA_WIDTH \<equiv> 80"
abbreviation VGA_HEIGHT :: nat where "VGA_HEIGHT \<equiv> 25"

record console = machine +
  vga_buf :: "u16 list"
  term_row :: nat
  term_col :: nat
  term_color :: u8

definition vga_entry :: "char \<Rightarrow> u8 \<Rightarrow> u16" where
  "vga_entry c color = (of_char c :: u16) OR push_bit 8 (ucast color)"

definition put_cell :: "nat \<Rightarrow> u16 \<Rightarrow> u16 list \<Rightarrow> u16 list option" where
  "put_cell i v b = (if i < length b then Some (b[i := v]) else None)"

text \<open>The two loops of \<open>terminal_scroll\<close> that move the lines up, and the loop that clears a line.\<close>

fun scroll_line :: "nat list \<Rightarrow> nat \<Rightarrow> u16 list \<Rightarrow> u16 list option" where
  "scroll_line [] y b = Some b"
| "scroll_line (x # xs) y b =
     (if (y + 1) * VGA_WIDTH + x < length b
      then do { b1 \<leftarrow> put_cell (y * VGA_WIDTH + x) (b ! ((y + 1) * VGA_WIDTH + x)) b; scroll_line xs y b1 }
      else None)"

fun scroll_lines :: "nat list \<Rightarrow> u16 list \<Rightarrow> u16 list option" where
  "scroll_lines [] b = Some b"
| "scroll_lines (y # ys) b = do { b1 \<leftarrow> scroll_line [0..<VGA_WIDTH] y b; scroll_lines ys b1 }"

fun clear_line :: "nat list \<Rightarrow> nat \<Rightarrow> u8 \<Rightarrow> u16 list \<Rightarrow> u16 list option" where
  "clear_line [] y color b = Some b"
| "clear_line (x # xs) y color b =
     do { b1 \<leftarrow> put_cell (y * VGA_WIDTH + x) (vga_entry (CHR '' '') color) b; clear_line xs y color b1 }"

fun clear_lines :: "nat list \<Rightarrow> u8 \<Rightarrow> u16 list \<Rightarrow> u16 list option" where
  "clear_lines [] color b = Some b"
| "clear_lines (y # ys) color b = do { b1 \<leftarrow> clear_line [0..<VGA_WIDTH] y color b; clear_lines ys color b1 }"

definition terminal_scroll :: "console \<Rightarrow> console option" where
  "terminal_scroll c = do {
     b1 \<leftarrow> scroll_lines [0..<VGA_HEIGHT - 1] (vga_buf c);
     b2 \<leftarrow> clear_line [0..<VGA_WIDTH] (VGA_HEIGHT - 1) (term_color c) b1;
     Some (c\<lparr>vga_buf := b2\<rparr>) }"

definition console_clear :: "console \<Rightarrow> console option" where
  "console_clear c = do {
     b \<leftarrow> clear_lines [0..<VGA_HEIGHT] (term_color c) (vga_buf c);
     Some (c\<lparr>vga_buf := b, term_row := 0, term_col := 0\<rparr>) }"

definition console_init :: "u8 \<Rightarrow> console \<Rightarrow> console option" where
  "console_init echo c = console_clear (serial_init echo c)"

definition console_backspace :: "console \<Rightarrow> console option" where
  "console_backspace c = do {
     let c1 = (if term_col c > 0 then c\<lparr>term_col := term_col c - 1\<rparr>
               else if term_row c > 0 then c\<lparr>term_row := term_row c - 1, term_col := VGA_WIDTH - 1\<rparr> else c);
     b \<leftarrow> put_cell (term_row c1 * VGA_WIDTH + term_col c1) (vga_entry (CHR '' '') (term_color c1)) (vga_buf c1);
     Some (c1\<lparr>vga_buf := b\<rparr>) }"

text \<open>The start of a new line, which both branches of \<open>console_put_char\<close> contain.\<close>

definition next_line :: "console \<Rightarrow> console option" where
  "next_line c =
     (let c1 = c\<lparr>term_col := 0, term_row := term_row c + 1\<rparr>
      in if term_row c1 \<ge> VGA_HEIGHT
         then do { c2 \<leftarrow> terminal_scroll c1; Some (c2\<lparr>term_row := VGA_HEIGHT - 1\<rparr>) }
         else Some c1)"

definition console_put_char :: "(nat \<Rightarrow> u8) \<Rightarrow> char \<Rightarrow> console \<Rightarrow> console option" where
  "console_put_char lsr ch c = do {
     c1 \<leftarrow> (if ch = CHR 0x0A then serial_write_char lsr (CHR 0x0D) c else Some c);
     c2 \<leftarrow> serial_write_char lsr ch c1;
     if ch = CHR 0x0A then next_line c2
     else do {
       b \<leftarrow> put_cell (term_row c2 * VGA_WIDTH + term_col c2) (vga_entry ch (term_color c2)) (vga_buf c2);
       let c3 = c2\<lparr>vga_buf := b, term_col := term_col c2 + 1\<rparr>;
       if term_col c3 \<ge> VGA_WIDTH then next_line c3 else Some c3 } }"

fun console_write :: "(nat \<Rightarrow> u8) \<Rightarrow> string \<Rightarrow> console \<Rightarrow> console option" where
  "console_write lsr [] c = Some c"
| "console_write lsr (x # xs) c = do { c1 \<leftarrow> console_put_char lsr x c; console_write lsr xs c1 }"

definition console_set_color :: "u8 \<Rightarrow> u8 \<Rightarrow> console \<Rightarrow> console" where
  "console_set_color fg bg c = c\<lparr>term_color := fg OR push_bit 4 bg\<rparr>"

definition terminal_put_char :: "(nat \<Rightarrow> u8) \<Rightarrow> char \<Rightarrow> console \<Rightarrow> console option" where
  "terminal_put_char lsr ch c = console_put_char lsr ch c"

definition terminal_backspace :: "console \<Rightarrow> console option" where
  "terminal_backspace c = console_backspace c"

text \<open>The screen that the panic handlers leave before they halt.\<close>

definition kernel_panic :: "(nat \<Rightarrow> u8) \<Rightarrow> string \<Rightarrow> console \<Rightarrow> console option" where
  "kernel_panic lsr message c = do {
     c1 \<leftarrow> console_write lsr ''\<newline>\<newline>*** KERNEL PANIC ***\<newline>'' (console_set_color 0x0F 0x04 c);
     c2 \<leftarrow> console_write lsr message c1;
     console_write lsr ''\<newline>\<newline>System halted.\<newline>'' c2 }"

definition kernel_panic_ext :: "(nat \<Rightarrow> u8) \<Rightarrow> string \<Rightarrow> string \<Rightarrow> console \<Rightarrow> console option" where
  "kernel_panic_ext lsr message file c = do {
     c1 \<leftarrow> console_write lsr ''\<newline>\<newline>*** KERNEL PANIC ***\<newline>'' (console_set_color 0x0F 0x04 c);
     c2 \<leftarrow> console_write lsr message c1;
     c3 \<leftarrow> console_write lsr ''\<newline>\<newline>File: '' c2;
     c4 \<leftarrow> console_write lsr file c3;
     c5 \<leftarrow> console_write lsr ''\<newline>'' c4;
     console_write lsr ''System halted.\<newline>'' c5 }"

section \<open>Scrolling and clearing\<close>

lemma put_cell_Some [simp]: "i < length b \<Longrightarrow> put_cell i v b = Some (b[i := v])"
  by (simp add: put_cell_def)

lemma scroll_line_nth:
  assumes "set xs \<subseteq> {..<80}" and "(y + 2) * 80 \<le> length b"
  shows "\<exists>b'. scroll_line xs y b = Some b' \<and> length b' = length b \<and>
    (\<forall>j. b' ! j = (if \<exists>x\<in>set xs. j = y * 80 + x then b ! (j + 80) else b ! j))"
  using assms
proof (induction xs arbitrary: b)
  case Nil
  then show ?case by simp
next
  case (Cons x xs)
  let ?b = "b[y * 80 + x := b ! ((y + 1) * 80 + x)]"
  have x: "x < 80" "set xs \<subseteq> {..<80}" using Cons.prems by auto
  obtain b' where b': "scroll_line xs y ?b = Some b'" "length b' = length b"
    "\<forall>j. b' ! j = (if \<exists>x\<in>set xs. j = y * 80 + x then ?b ! (j + 80) else ?b ! j)"
    using Cons.IH [of ?b] x Cons.prems(2) by auto
  have "scroll_line (x # xs) y b = Some b'" using b'(1) x Cons.prems(2) by simp
  moreover have "b' ! j = (if \<exists>x'\<in>set (x # xs). j = y * 80 + x' then b ! (j + 80) else b ! j)" for j
  proof -
    have e: "(y + 1) * 80 + x = y * 80 + x + 80" by simp
    have n: "?b ! (j + 80) = b ! (j + 80)" if "x' \<in> set xs" "j = y * 80 + x'" for x'
      using that x by (simp add: nth_list_update)
    show ?thesis
    proof (cases "\<exists>x'\<in>set xs. j = y * 80 + x'")
      case True
      then show ?thesis using b'(3) n by auto
    next
      case False
      then show ?thesis using b'(3) Cons.prems(2) x e by (auto simp: nth_list_update ac_simps)
    qed
  qed
  ultimately show ?case using b'(2) by auto
qed

lemma in_line_iff: "(\<exists>x\<in>set [0..<n]. j = m + x) \<longleftrightarrow> m \<le> j \<and> j < m + n" for m n j :: nat
  by (auto simp: Bex_def intro!: exI [of _ "j - m"])

lemma scroll_lines_nth:
  assumes "y \<le> 24" and "length b = 2000"
  shows "\<exists>b'. scroll_lines [y..<24] b = Some b' \<and> length b' = 2000 \<and>
    (\<forall>j. b' ! j = (if y * 80 \<le> j \<and> j < 1920 then b ! (j + 80) else b ! j))"
  using assms
proof (induction "24 - y" arbitrary: y b)
  case 0
  then have "y = 24" by simp
  then show ?case using 0 by auto
next
  case (Suc d)
  then have y: "y < 24" "d = 24 - Suc y" by auto
  have len: "(y + 2) * 80 \<le> length b" using y(1) Suc.prems(2) by simp
  have sub: "set [0..<80] \<subseteq> {..<80 :: nat}" by auto
  obtain b1 where b1: "scroll_line [0..<80] y b = Some b1" "length b1 = 2000"
    "\<forall>j. b1 ! j = (if y * 80 \<le> j \<and> j < y * 80 + 80 then b ! (j + 80) else b ! j)"
    using scroll_line_nth [OF sub len] Suc.prems(2) unfolding in_line_iff by auto
  obtain b' where b': "scroll_lines [Suc y..<24] b1 = Some b'" "length b' = 2000"
    "\<forall>j. b' ! j = (if Suc y * 80 \<le> j \<and> j < 1920 then b1 ! (j + 80) else b1 ! j)"
    using Suc.hyps(1) [OF y(2) _ b1(2)] y(1) by auto
  have "[y..<24] = y # [Suc y..<24]" using y(1) by (rule upt_conv_Cons)
  then have "scroll_lines [y..<24] b = Some b'" using b1(1) b'(1) by simp
  moreover have "b' ! j = (if y * 80 \<le> j \<and> j < 1920 then b ! (j + 80) else b ! j)" for j
    using b'(3) b1(3) y(1) by auto
  ultimately show ?case using b'(2) by auto
qed

lemma clear_line_nth:
  assumes "set xs \<subseteq> {..<80}" and "(y + 1) * 80 \<le> length b"
  shows "\<exists>b'. clear_line xs y color b = Some b' \<and> length b' = length b \<and>
    (\<forall>j. b' ! j = (if \<exists>x\<in>set xs. j = y * 80 + x then vga_entry (CHR '' '') color else b ! j))"
  using assms
proof (induction xs arbitrary: b)
  case Nil
  then show ?case by simp
next
  case (Cons x xs)
  let ?b = "b[y * 80 + x := vga_entry (CHR '' '') color]"
  have x: "y * 80 + x < length b" "set xs \<subseteq> {..<80}" using Cons.prems by auto
  obtain b' where "clear_line xs y color ?b = Some b'" "length b' = length b"
    "\<forall>j. b' ! j = (if \<exists>x\<in>set xs. j = y * 80 + x then vga_entry (CHR '' '') color else ?b ! j)"
    using Cons.IH [of ?b] x Cons.prems(2) by auto
  then show ?case using x by (auto simp: nth_list_update)
qed

lemma clear_lines_nth:
  assumes "y \<le> 25" and "length b = 2000"
  shows "\<exists>b'. clear_lines [y..<25] color b = Some b' \<and> length b' = 2000 \<and>
    (\<forall>j<2000. b' ! j = (if y * 80 \<le> j then vga_entry (CHR '' '') color else b ! j))"
  using assms
proof (induction "25 - y" arbitrary: y b)
  case 0
  then have "y = 25" by simp
  then show ?case using 0 by simp
next
  case (Suc d)
  then have y: "y < 25" "d = 25 - Suc y" by auto
  have len: "(y + 1) * 80 \<le> length b" using y(1) Suc.prems(2) by simp
  have sub: "set [0..<80] \<subseteq> {..<80 :: nat}" by auto
  obtain b1 where b1: "clear_line [0..<80] y color b = Some b1" "length b1 = 2000"
    "\<forall>j. b1 ! j = (if y * 80 \<le> j \<and> j < y * 80 + 80 then vga_entry (CHR '' '') color else b ! j)"
    using clear_line_nth [OF sub len, of color] Suc.prems(2) unfolding in_line_iff by auto
  obtain b' where b': "clear_lines [Suc y..<25] color b1 = Some b'" "length b' = 2000"
    "\<forall>j<2000. b' ! j = (if Suc y * 80 \<le> j then vga_entry (CHR '' '') color else b1 ! j)"
    using Suc.hyps(1) [OF y(2) _ b1(2)] y(1) by auto
  have "[y..<25] = y # [Suc y..<25]" using y(1) by (rule upt_conv_Cons)
  then have "clear_lines [y..<25] color b = Some b'" using b1(1) b'(1) by simp
  moreover have "b' ! j = (if y * 80 \<le> j then vga_entry (CHR '' '') color else b ! j)" if "j < 2000" for j
    using that b'(3) b1(3) by auto
  ultimately show ?case using b'(2) by auto
qed

lemma terminal_scroll_spec:
  assumes "length (vga_buf c) = 2000"
  shows "terminal_scroll c =
    Some (c\<lparr>vga_buf := drop 80 (vga_buf c) @ replicate 80 (vga_entry (CHR '' '') (term_color c))\<rparr>)"
proof -
  let ?e = "vga_entry (CHR '' '') (term_color c)"
  obtain b1 where b1: "scroll_lines [0..<24] (vga_buf c) = Some b1" "length b1 = 2000"
    "\<forall>j. b1 ! j = (if j < 1920 then vga_buf c ! (j + 80) else vga_buf c ! j)"
    using scroll_lines_nth [OF _ assms, of 0] by auto
  have sub: "set [0..<80] \<subseteq> {..<80 :: nat}" by auto
  have len: "(24 + 1) * 80 \<le> length b1" using b1(2) by simp
  obtain b2 where b2: "clear_line [0..<80] 24 (term_color c) b1 = Some b2" "length b2 = 2000"
    "\<forall>j. b2 ! j = (if 24 * 80 \<le> j \<and> j < 24 * 80 + 80 then ?e else b1 ! j)"
    using clear_line_nth [OF sub len, of "term_color c"] b1(2) unfolding in_line_iff by auto
  have "b2 = drop 80 (vga_buf c) @ replicate 80 ?e"
  proof (rule nth_equalityI)
    fix j assume "j < length b2"
    then show "b2 ! j = (drop 80 (vga_buf c) @ replicate 80 ?e) ! j"
      using b2 b1 assms by (auto simp: nth_append add.commute)
  qed (use b2 assms in simp)
  then show ?thesis unfolding terminal_scroll_def using b1(1) b2(1) by (simp del: upt_rec_numeral upt_conv_Cons)
qed

section \<open>The reference terminal\<close>

text \<open>
  The screen as one sequence of 2000 cells with a position: a character is stored and the position
  advances, a newline moves it to the next multiple of 80; at the end the first 80 cells are dropped and a
  blank line is appended.
\<close>

type_synonym tty = "u16 list \<times> nat"

definition tty_put :: "u8 \<Rightarrow> char \<Rightarrow> tty \<Rightarrow> tty" where
  "tty_put color ch t =
     (let (b, p) = t;
          (b1, p1) = (if ch = CHR 0x0A then (b, (p div 80 + 1) * 80) else (b[p := vga_entry ch color], p + 1))
      in if p1 = 2000 then (drop 80 b1 @ replicate 80 (vga_entry (CHR '' '') color), 1920) else (b1, p1))"

definition tty_of :: "console \<Rightarrow> tty" where
  "tty_of c = (vga_buf c, term_row c * 80 + term_col c)"

definition console_ok :: "console \<Rightarrow> bool" where
  "console_ok c \<longleftrightarrow> length (vga_buf c) = 2000 \<and> term_row c < VGA_HEIGHT \<and> term_col c < VGA_WIDTH"

text \<open>What the serial line carries: a carriage return before each newline.\<close>

fun crlf :: "string \<Rightarrow> string" where
  "crlf [] = []"
| "crlf (x # xs) = (if x = CHR 0x0A then [CHR 0x0D, x] else [x]) @ crlf xs"

definition sent :: "string \<Rightarrow> (u16 \<times> u8) list" where
  "sent s = map (\<lambda>x. (SERIAL_COM1_BASE, of_char x)) s"

lemma serial_write_char_console:
  assumes "uart_live lsr"
  obtains n where "serial_write_char lsr ch c =
    Some (c\<lparr>lsr_reads := n, port_log := port_log c @ (if serial_available c then sent [ch] else [])\<rparr>)"
proof -
  obtain k where "tx_wait lsr (lsr_reads c) = Some k" using tx_wait_returns [OF assms] by blast
  then show ?thesis
    using that [of k] that [of "lsr_reads c"]
    by (cases "serial_available c") (simp_all add: serial_write_char_def outb_def sent_def)
qed

lemma next_line_spec:
  assumes "console_ok c"
  obtains c' where "next_line c = Some c'" "console_ok c'" "port_log c' = port_log c" "serial_available c' = serial_available c"
    "term_color c' = term_color c"
    "tty_of c' = (if term_row c = 24
       then (drop 80 (vga_buf c) @ replicate 80 (vga_entry (CHR '' '') (term_color c)), 1920)
       else (vga_buf c, (term_row c + 1) * 80))"
proof (cases "term_row c = 24")
  case True
  let ?c1 = "c\<lparr>term_col := 0, term_row := 25\<rparr>"
  have "length (vga_buf ?c1) = 2000" using assms by (simp add: console_ok_def)
  note t = terminal_scroll_spec [OF this]
  have "next_line c = Some (?c1\<lparr>vga_buf := drop 80 (vga_buf c) @ replicate 80 (vga_entry (CHR '' '') (term_color c)), term_row := 24\<rparr>)"
    using True t by (simp add: next_line_def Let_def)
  then show ?thesis using that assms True by (simp add: tty_of_def console_ok_def)
next
  case False
  then have "next_line c = Some (c\<lparr>term_col := 0, term_row := term_row c + 1\<rparr>)"
    using assms by (simp add: next_line_def console_ok_def)
  then show ?thesis using that assms False by (simp add: tty_of_def console_ok_def)
qed

lemma console_put_char_spec:
  assumes ok: "console_ok c" and "uart_live lsr"
  obtains c' where "console_put_char lsr ch c = Some c'" "console_ok c'"
    "tty_of c' = tty_put (term_color c) ch (tty_of c)"
    "port_log c' = port_log c @ (if serial_available c then sent (crlf [ch]) else [])"
    "serial_available c' = serial_available c" "term_color c' = term_color c"
proof -
  define c2 where "c2 n = c\<lparr>lsr_reads := n, port_log := port_log c @ (if serial_available c then sent (crlf [ch]) else [])\<rparr>" for n
  obtain n where n: "(do { c1 \<leftarrow> (if ch = CHR 0x0A then serial_write_char lsr (CHR 0x0D) c else Some c);
      serial_write_char lsr ch c1 }) = Some (c2 n)"
  proof (cases "ch = CHR 0x0A")
    case True
    obtain k where k: "serial_write_char lsr (CHR 0x0D) c =
        Some (c\<lparr>lsr_reads := k, port_log := port_log c @ (if serial_available c then sent [CHR 0x0D] else [])\<rparr>)"
      by (rule serial_write_char_console [OF assms(2)])
    let ?c1 = "c\<lparr>lsr_reads := k, port_log := port_log c @ (if serial_available c then sent [CHR 0x0D] else [])\<rparr>"
    obtain n' where n': "serial_write_char lsr ch ?c1 =
        Some (?c1\<lparr>lsr_reads := n', port_log := port_log ?c1 @ (if serial_available ?c1 then sent [ch] else [])\<rparr>)"
      by (rule serial_write_char_console [OF assms(2)])
    have "(do { c1 \<leftarrow> (if ch = CHR 0x0A then serial_write_char lsr (CHR 0x0D) c else Some c);
      serial_write_char lsr ch c1 }) = serial_write_char lsr ch ?c1" using True k by simp
    also have "\<dots> = Some (c2 n')" unfolding n' using True by (simp add: c2_def sent_def)
    finally show ?thesis by (rule that)
  next
    case False
    obtain n' where n': "serial_write_char lsr ch c =
        Some (c\<lparr>lsr_reads := n', port_log := port_log c @ (if serial_available c then sent [ch] else [])\<rparr>)"
      by (rule serial_write_char_console [OF assms(2)])
    show ?thesis by (rule that [of n']) (use False n' in \<open>simp add: c2_def\<close>)
  qed
  have b: "length (vga_buf c) = 2000" "term_row c < 25" "term_col c < 80" using ok by (simp_all add: console_ok_def)
  have p: "term_row c * 80 + term_col c < 2000" "(term_row c * 80 + term_col c) div 80 = term_row c" using b by auto
  have put: "console_put_char lsr ch c = (if ch = CHR 0x0A then next_line (c2 n)
     else let c3 = (c2 n)\<lparr>vga_buf := (vga_buf c)[term_row c * 80 + term_col c := vga_entry ch (term_color c)], term_col := term_col c + 1\<rparr>
          in if term_col c3 \<ge> VGA_WIDTH then next_line c3 else Some c3)"
  proof -
    have "console_put_char lsr ch c = (do { c1 \<leftarrow> (if ch = CHR 0x0A then serial_write_char lsr (CHR 0x0D) c else Some c);
        serial_write_char lsr ch c1 }) \<bind> (\<lambda>c2. if ch = CHR 0x0A then next_line c2
        else do {
          b \<leftarrow> put_cell (term_row c2 * VGA_WIDTH + term_col c2) (vga_entry ch (term_color c2)) (vga_buf c2);
          let c3 = c2\<lparr>vga_buf := b, term_col := term_col c2 + 1\<rparr>;
          if term_col c3 \<ge> VGA_WIDTH then next_line c3 else Some c3 })"
      by (simp add: console_put_char_def)
    then show ?thesis unfolding n using p b by (simp add: c2_def)
  qed
  have okn: "console_ok (c2 n)" using ok by (simp add: c2_def console_ok_def)
  show ?thesis
  proof (cases "ch = CHR 0x0A")
    case True
    then have e: "console_put_char lsr ch c = next_line (c2 n)" using put by simp
    obtain c' where x: "next_line (c2 n) = Some c'" "console_ok c'" "port_log c' = port_log (c2 n)"
      "serial_available c' = serial_available (c2 n)" "term_color c' = term_color (c2 n)"
      "tty_of c' = (if term_row (c2 n) = 24
         then (drop 80 (vga_buf (c2 n)) @ replicate 80 (vga_entry (CHR '' '') (term_color (c2 n))), 1920)
         else (vga_buf (c2 n), (term_row (c2 n) + 1) * 80))"
      by (rule next_line_spec [OF okn])
    have t: "tty_of c' = tty_put (term_color c) ch (tty_of c)"
      unfolding x(6) using True p by (simp add: c2_def tty_of_def tty_put_def)
    show ?thesis by (rule that [OF _ x(2) t]) (use e x True in \<open>simp_all add: c2_def\<close>)
  next
    case False
    let ?c3 = "(c2 n)\<lparr>vga_buf := (vga_buf c)[term_row c * 80 + term_col c := vga_entry ch (term_color c)], term_col := term_col c + 1\<rparr>"
    show ?thesis
    proof (cases "term_col c = 79")
      case True
      let ?c4 = "(c2 n)\<lparr>vga_buf := (vga_buf c)[term_row c * 80 + term_col c := vga_entry ch (term_color c)]\<rparr>"
      have e: "console_put_char lsr ch c = next_line ?c4"
        using put False True by (simp add: next_line_def Let_def)
      have ok4: "console_ok ?c4" using okn b by (simp add: console_ok_def)
      obtain c' where x: "next_line ?c4 = Some c'" "console_ok c'" "port_log c' = port_log ?c4"
        "serial_available c' = serial_available ?c4" "term_color c' = term_color ?c4"
        "tty_of c' = (if term_row ?c4 = 24
           then (drop 80 (vga_buf ?c4) @ replicate 80 (vga_entry (CHR '' '') (term_color ?c4)), 1920)
           else (vga_buf ?c4, (term_row ?c4 + 1) * 80))"
        by (rule next_line_spec [OF ok4])
      have q: "term_row c * 80 + term_col c + 1 = 2000 \<longleftrightarrow> term_row c = 24" using True b by auto
      have t: "tty_of c' = tty_put (term_color c) ch (tty_of c)"
        unfolding x(6) using True False q by (auto simp: c2_def tty_of_def tty_put_def)
      show ?thesis by (rule that [OF _ x(2) t]) (use e x False in \<open>simp_all add: c2_def\<close>)
    next
      case ne: False
      then have "console_put_char lsr ch c = Some ?c3" using put False b by simp
      then show ?thesis using that [of ?c3] ne False b ok p by (auto simp: c2_def console_ok_def tty_of_def tty_put_def)
    qed
  qed
qed

lemma console_write_spec:
  assumes "console_ok c" and "uart_live lsr"
  shows "\<exists>c'. console_write lsr s c = Some c' \<and> console_ok c' \<and> tty_of c' = fold (tty_put (term_color c)) s (tty_of c) \<and>
    port_log c' = port_log c @ (if serial_available c then sent (crlf s) else []) \<and>
    serial_available c' = serial_available c \<and> term_color c' = term_color c"
  using assms(1)
proof (induction s arbitrary: c)
  case Nil
  then show ?case by (simp add: sent_def)
next
  case (Cons ch s)
  obtain c1 where x: "console_put_char lsr ch c = Some c1" "console_ok c1"
    "tty_of c1 = tty_put (term_color c) ch (tty_of c)"
    "port_log c1 = port_log c @ (if serial_available c then sent (crlf [ch]) else [])"
    "serial_available c1 = serial_available c" "term_color c1 = term_color c"
    by (rule console_put_char_spec [OF Cons.prems assms(2)])
  show ?case using Cons.IH [OF x(2)] x by (auto simp: sent_def)
qed

lemma console_ok_init:
  assumes "length (vga_buf c) = 2000"
  shows "\<exists>c'. console_init echo c = Some c' \<and> console_ok c' \<and> term_color c' = term_color c \<and>
    tty_of c' = (replicate 2000 (vga_entry (CHR '' '') (term_color c)), 0)"
proof -
  have l: "length (vga_buf (serial_init echo c)) = 2000" "term_color (serial_init echo c) = term_color c"
    using assms by (simp_all add: serial_init_def Let_def outb_def)
  obtain b' where b': "clear_lines [0..<25] (term_color c) (vga_buf (serial_init echo c)) = Some b'" "length b' = 2000"
    "\<forall>j<2000. b' ! j = vga_entry (CHR '' '') (term_color c)"
    using clear_lines_nth [OF _ l(1), of 0 "term_color c"] by auto
  have "b' = replicate 2000 (vga_entry (CHR '' '') (term_color c))"
    using b'(2,3) by (intro nth_equalityI) auto
  then show ?thesis
    using b'(1) l unfolding console_init_def console_clear_def
    by (simp add: console_ok_def tty_of_def del: upt_rec_numeral upt_conv_Cons)
qed

lemma console_backspace_ok:
  assumes "console_ok c"
  shows "\<exists>c'. console_backspace c = Some c' \<and> console_ok c' \<and> port_log c' = port_log c \<and>
    serial_available c' = serial_available c \<and> snd (tty_of c') = snd (tty_of c) - 1"
proof -
  have b: "length (vga_buf c) = 2000" "term_row c < 25" "term_col c < 80" using assms by (simp_all add: console_ok_def)
  show ?thesis
  proof (cases "term_col c > 0")
    case True
    then have "term_row c * 80 + (term_col c - 1) < 2000" using b by simp
    then show ?thesis using True b by (simp add: console_backspace_def console_ok_def tty_of_def)
  next
    case False
    have "term_row c > 0 \<Longrightarrow> (term_row c - 1) * 80 + 79 < 2000" using b by simp
    then show ?thesis using False b
      by (cases "term_row c") (simp_all add: console_backspace_def console_ok_def tty_of_def)
  qed
qed

text \<open>
  C35. With a UART that becomes ready again and again, writing a string to a console whose cursor is on the
  screen returns and never touches memory outside the video buffer: the screen and the cursor are those of the
  reference terminal with wrapping and scrolling, the cursor is on the screen again, and the serial line carries
  exactly the string with a carriage return before each newline (nothing if no UART was found).
\<close>

theorem console_write_terminal:
  assumes "console_ok c" and "uart_live lsr"
  shows "\<exists>c'. console_write lsr s c = Some c' \<and> console_ok c' \<and>
    tty_of c' = fold (tty_put (term_color c)) s (tty_of c) \<and>
    port_log c' = port_log c @ (if serial_available c then sent (crlf s) else [])"
  using console_write_spec [OF assms, of s] by blast

definition console_zero :: console where
  "console_zero = \<lparr>port_log = [], lsr_reads = 0, serial_available = True, vga_buf = replicate 2000 0, term_row = 24,
     term_col = 79, term_color = 0x0F\<rparr>"

theorem console_write_terminal_witness:
  "\<exists>c'. console_write (\<lambda>n. if even n then 0x20 else 0) ''a\<newline>'' console_zero = Some c' \<and> console_ok c' \<and>
    snd (tty_of c') = 1920 \<and> port_log c' = [(0x3F8, 97), (0x3F8, 13), (0x3F8, 10)]"
proof -
  have ok: "console_ok console_zero" by (simp add: console_ok_def console_zero_def)
  have "tx_ready (\<lambda>n. if even n then 0x20 else 0) (2 * n)" for n by (simp add: tx_ready_def)
  then have live: "uart_live (\<lambda>n. if even n then 0x20 else 0)"
    unfolding uart_live_def by (metis le_add2 mult_2)
  have "snd (fold (tty_put 0x0F) ''a\<newline>'' (tty_of console_zero)) = 1920"
    by (simp add: tty_of_def console_zero_def tty_put_def)
  moreover have "sent (crlf ''a\<newline>'') = [(0x3F8, 97), (0x3F8, 13), (0x3F8, 10)]" by (simp add: sent_def)
  ultimately show ?thesis
    using console_write_terminal [OF ok live, of "''a\<newline>''"] by (auto simp: console_zero_def)
qed

end
