(* ===== verification/Syscall.thy ===== *)
theory Syscall
  imports Process_Safety Console
begin

text \<open>
  System calls, \<^verbatim>\<open>src/kernel/syscall.c\<close>, over the process model and the console. The
  argument of the dispatcher is the address of the register frame on the kernel stack. Memory holds
  words; the byte accesses of \<^verbatim>\<open>write\<close> and of the stack copy in \<^verbatim>\<open>fork\<close> go through the
  little-endian bytes of a word. The address of the assembly stub \<^verbatim>\<open>fork_child_return\<close> is an argument.
\<close>

section \<open>Model\<close>

subsection \<open>Memory accesses\<close>

definition byte_at :: "(u32 \<Rightarrow> u32) \<Rightarrow> u32 \<Rightarrow> u8" where
  "byte_at m a = ucast (drop_bit (8 * unat (a AND 3)) (m (a AND NOT 3)))"

definition set_byte :: "nat \<Rightarrow> u8 \<Rightarrow> u32 \<Rightarrow> u32" where
  "set_byte k b w = (w AND NOT (push_bit (8 * k) (mask 8))) OR push_bit (8 * k) (ucast b)"

definition put_byte :: "u32 \<Rightarrow> u8 \<Rightarrow> (u32 \<Rightarrow> u32) \<Rightarrow> u32 \<Rightarrow> u32" where
  "put_byte a b m = m(a AND NOT 3 := set_byte (unat (a AND 3)) b (m (a AND NOT 3)))"

text \<open>\<^verbatim>\<open>regs_t\<close>, lowest address first.\<close>

record regs =
  gs :: u32
  fs :: u32
  es :: u32
  ds :: u32
  edi :: u32
  esi :: u32
  ebp :: u32
  esp_dummy :: u32
  ebx :: u32
  edx :: u32
  ecx :: u32
  eax :: u32
  eip :: u32
  cs :: u32
  eflags :: u32
  useresp :: u32
  ss :: u32

definition load_regs :: "(u32 \<Rightarrow> u32) \<Rightarrow> u32 \<Rightarrow> regs" where
  "load_regs m a = \<lparr>gs = m a, fs = m (a + 4), es = m (a + 8), ds = m (a + 12), edi = m (a + 16), esi = m (a + 20),
     ebp = m (a + 24), esp_dummy = m (a + 28), ebx = m (a + 32), edx = m (a + 36), ecx = m (a + 40), eax = m (a + 44),
     eip = m (a + 48), cs = m (a + 52), eflags = m (a + 56), useresp = m (a + 60), ss = m (a + 64)\<rparr>"

definition store_regs :: "u32 \<Rightarrow> regs \<Rightarrow> (u32 \<Rightarrow> u32) \<Rightarrow> u32 \<Rightarrow> u32" where
  "store_regs a r m = m(a := gs r, a + 4 := fs r, a + 8 := es r, a + 12 := ds r, a + 16 := edi r, a + 20 := esi r,
     a + 24 := ebp r, a + 28 := esp_dummy r, a + 32 := ebx r, a + 36 := edx r, a + 40 := ecx r, a + 44 := eax r,
     a + 48 := eip r, a + 52 := cs r, a + 56 := eflags r, a + 60 := useresp r, a + 64 := ss r)"

text \<open>\<^verbatim>\<open>r->eax = v\<close>\<close>

definition set_eax :: "u32 \<Rightarrow> u32 \<Rightarrow> system \<Rightarrow> system" where
  "set_eax r v s = s\<lparr>mem := (mem s)(r + 44 := v)\<rparr>"

subsection \<open>Writing\<close>

function write_loop :: "(nat \<Rightarrow> u8) \<Rightarrow> (u32 \<Rightarrow> u32) \<Rightarrow> u32 \<Rightarrow> nat \<Rightarrow> console \<Rightarrow> (nat \<times> console) option" where
  "write_loop lsr m str n c =
     (let b = byte_at m (str + of_nat n)
      in if b \<noteq> 0 \<and> n < 4096
         then do { c1 \<leftarrow> console_put_char lsr (char_of (unat b)) c; write_loop lsr m str (n + 1) c1 }
         else Some (n, c))"
  by pat_completeness auto
termination by (relation "measure (\<lambda>(lsr, m, str, n, c). 4096 - n)") auto

declare write_loop.simps [simp del]

definition sys_write :: "(nat \<Rightarrow> u8) \<Rightarrow> (u32 \<Rightarrow> u32) \<Rightarrow> u32 \<Rightarrow> console \<Rightarrow> (int \<times> console) option" where
  "sys_write lsr m str c =
     (if str = 0 then Some (- 1, c)
      else do { (n, c1) \<leftarrow> write_loop lsr m str 0 c; Some (int n, c1) })"

subsection \<open>Fork\<close>

text \<open>Whether a process other than the new one has the pid, and the search for the first free pid.\<close>

definition pid_taken :: "nat \<Rightarrow> system \<Rightarrow> u32 \<Rightarrow> bool" where
  "pid_taken kid s p \<longleftrightarrow> list_ex (\<lambda>i. i \<noteq> kid \<and> state (proc s i) \<noteq> UNUSED \<and> pid (proc s i) = p) [0..<PROCESS_MAX]"

partial_function (option) free_pid :: "nat \<Rightarrow> system \<Rightarrow> u32 \<Rightarrow> u32 option" where
  "free_pid kid s p = (if pid_taken kid s p then free_pid kid s (p + 1) else Some p)"

definition copy_stack :: "u32 \<Rightarrow> u32 \<Rightarrow> (u32 \<Rightarrow> u32) \<Rightarrow> u32 \<Rightarrow> u32" where
  "copy_stack dst src m = fold (\<lambda>i m. put_byte (dst + of_nat i) (byte_at m (src + of_nat i)) m) [0..<16384] m"

text \<open>The walk along the saved frame pointers; the first argument is \<^verbatim>\<open>guard\<close>.\<close>

fun relocate_chain :: "nat \<Rightarrow> u32 \<Rightarrow> u32 \<Rightarrow> u32 \<Rightarrow> u32 \<Rightarrow> (u32 \<Rightarrow> u32) \<Rightarrow> u32 \<Rightarrow> u32" where
  "relocate_chain 0 lo hi delta bp m = m"
| "relocate_chain (Suc guard) lo hi delta bp m =
     (if lo \<le> bp \<and> bp \<le> hi - 4 \<and> bp AND 3 = 0
      then let slot = bp + delta;
               next_bp = m slot;
               m1 = (if lo \<le> next_bp \<and> next_bp \<le> hi then m(slot := next_bp + delta) else m)
           in if next_bp \<le> bp then m1 else relocate_chain guard lo hi delta next_bp m1
      else m)"

definition child_frame :: "u32 \<Rightarrow> u32 \<Rightarrow> u32 \<Rightarrow> regs \<Rightarrow> regs" where
  "child_frame lo hi delta r =
     (let r1 = r\<lparr>eax := 0, useresp := useresp r + delta\<rparr>
      in if lo \<le> ebp r \<and> ebp r \<le> hi then r1\<lparr>ebp := ebp r + delta\<rparr> else r1)"

definition sys_fork :: "u32 \<Rightarrow> u32 \<Rightarrow> system \<Rightarrow> (int \<times> system) option" where
  "sys_fork fork_child_return parent_regs s =
     (let parent = cur s
      in if \<not> is_user (proc s parent) \<or> ustack (proc s parent) = 0 then Some (- 1, s)
      else do {
        (kst, h1) \<leftarrow> kmalloc PROCESS_KSTACK_SIZE (kheap_st s);
        if kst = 0 then Some (- 1, s\<lparr>kheap_st := h1\<rparr>)
        else do {
          (ust, h2) \<leftarrow> kmalloc PROCESS_USTACK_SIZE h1;
          if ust = 0 then Some (- 1, s\<lparr>kheap_st := kfree kst h2\<rparr>)
          else case find (\<lambda>i. state (proc s i) = UNUSED) [0..<PROCESS_MAX] of
            None \<Rightarrow> Some (- 1, s\<lparr>kheap_st := kfree ust (kfree kst h2)\<rparr>)
          | Some kid \<Rightarrow> do {
              let s1 = upd kid (\<lambda>_. (proc s parent)\<lparr>nxt := None, parent_waiting := False, cpu_ticks := 0, wait_ticks := 0\<rparr>)
                         (s\<lparr>kheap_st := h2\<rparr>);
              p \<leftarrow> free_pid kid s1 1;
              let lo = ustack (proc s1 parent);
              let hi = lo + PROCESS_USTACK_SIZE;
              let delta = ust - lo;
              let s2 = upd kid (\<lambda>q. q\<lparr>pid := p, ppid := pid (proc s1 parent), kstack := kst,
                         kstack_top := kst + PROCESS_KSTACK_SIZE, ustack := ust,
                         ustack_top := ust + PROCESS_USTACK_SIZE - (lo + PROCESS_USTACK_SIZE - ustack_top (proc s1 parent))\<rparr>) s1;
              let m1 = copy_stack ust lo (mem s2);
              let m2 = relocate_chain 64 lo hi delta (ebp (load_regs m1 parent_regs)) m1;
              let sp = kstack_top (proc s2 kid) - 68;
              let m3 = store_regs sp (child_frame lo hi delta (load_regs m2 parent_regs)) m2;
              let (csp, m4) = fold stack_push [fork_child_return, 0x002, 0, 0, 0, 0] (sp, m3);
              let s3 = upd kid (\<lambda>q. q\<lparr>esp := csp, state := READY\<rparr>) (s2\<lparr>mem := m4\<rparr>);
              Some (sint p, scheduler_enqueue (Some kid) s3) } } })"

subsection \<open>Dispatch\<close>

text \<open>
  The values that \<^verbatim>\<open>wait\<close> stores when it returns. The code stores the status through EBX without a check; the process
  table, the heap and the stacks lie in the same address space, so what the store does is known only when EBX is a
  word of the user stack of the caller (at \<open>lo\<close>). Everywhere else its outcome is undefined, \<open>None\<close>. A process that has to
  wait is switched away and finishes the call with \<open>syscall_wait_resume\<close> when it runs again.
\<close>

definition own_word :: "u32 \<Rightarrow> u32 \<Rightarrow> bool" where
  "own_word lo a \<longleftrightarrow> lo \<noteq> 0 \<and> a - lo < PROCESS_USTACK_SIZE \<and> (a - lo) AND 3 = 0"

definition store_status :: "u32 \<Rightarrow> u32 \<Rightarrow> int \<Rightarrow> system \<Rightarrow> system option" where
  "store_status lo a status s =
     (if a = 0 then Some s
      else if own_word lo a then Some (s\<lparr>mem := (mem s)(a := word_of_int status)\<rparr>)
      else None)"

definition wait_finish :: "u32 \<Rightarrow> u32 \<Rightarrow> wait_result \<times> system \<Rightarrow> system option" where
  "wait_finish r lo = (\<lambda>(w, s).
     case w of
       Waiting \<Rightarrow> Some s
     | Reaped p code \<Rightarrow> map_option (set_eax r p) (store_status lo (mem s (r + 32)) code s)
     | No_Children \<Rightarrow> map_option (set_eax r (- 1)) (store_status lo (mem s (r + 32)) 0 s))"

definition syscall_wait_resume :: "u32 \<Rightarrow> system \<Rightarrow> system option" where
  "syscall_wait_resume r s = wait_finish r (ustack (proc s (cur s))) (process_wait_resume s)"

definition syscall_dispatch ::
    "(nat \<Rightarrow> u8) \<Rightarrow> u32 \<Rightarrow> u32 \<Rightarrow> system \<times> console \<Rightarrow> (system \<times> console) option" where
  "syscall_dispatch lsr fork_child_return r = (\<lambda>(s, c).
     let n = mem s (r + 44); arg1 = mem s (r + 32)
     in if n = 0 then Some (process_exit (sint arg1) s, c)
        else if n = 1 then do { (k, c1) \<leftarrow> sys_write lsr (mem s) arg1 c; Some (set_eax r (word_of_int k) s, c1) }
        else if n = 2 then Some (set_eax r (process_getpid s) s, c)
        else if n = 3 then do { (k, s1) \<leftarrow> sys_fork fork_child_return r s; Some (set_eax r (word_of_int k) s1, c) }
        else if n = 4 then Some (scheduler_yield (set_eax r 0 s), c)
        else if n = 5 then Some (process_sleep arg1 (set_eax r 0 s), c)
        else if n = 6 then Some (set_eax r (process_getppid s) s, c)
        else if n = 7 then map_option (\<lambda>s'. (s', c)) (wait_finish r (ustack (proc s (cur s))) (process_wait s))
        else Some (set_eax r (- 1) s, c))"

section \<open>The search for a pid\<close>

lemma free_pid_run:
  assumes "\<not> pid_taken kid s (p + of_nat k)"
  shows "\<exists>j\<le>k. free_pid kid s p = Some (p + of_nat j) \<and> \<not> pid_taken kid s (p + of_nat j)"
  using assms
proof (induction k arbitrary: p)
  case 0
  then show ?case by (subst free_pid.simps) simp
next
  case (Suc k)
  show ?case
  proof (cases "pid_taken kid s p")
    case True
    have "\<not> pid_taken kid s ((p + 1) + of_nat k)" using Suc.prems by (simp add: add.assoc)
    from Suc.IH [OF this] obtain j where "j \<le> k" "free_pid kid s (p + 1) = Some (p + 1 + of_nat j)"
        "\<not> pid_taken kid s (p + 1 + of_nat j)" by blast
    then show ?thesis using True by (intro exI [of _ "Suc j"]) (subst free_pid.simps, simp add: add.assoc)
  next
    case False
    then show ?thesis by (intro exI [of _ 0]) (subst free_pid.simps, simp)
  qed
qed

text \<open>The 63 other slots cannot take all of the pids 1 to 64.\<close>

lemma free_pid_returns:
  assumes "kid < 64"
  obtains p where "free_pid kid s 1 = Some p" "0 < unat p" "unat p \<le> 64" "\<not> pid_taken kid s p"
proof -
  have "\<exists>k<64. \<not> pid_taken kid s (1 + of_nat k)"
  proof (rule ccontr)
    assume "\<not> ?thesis"
    then have "pid_taken kid s (1 + of_nat k)" if "k < 64" for k using that by blast
    then have "\<exists>i. i < 64 \<and> i \<noteq> kid \<and> pid (proc s i) = 1 + of_nat k" if "k < 64" for k
      using that by (fastforce simp: pid_taken_def list_ex_iff)
    then obtain f where f: "\<And>k. k < 64 \<Longrightarrow> f k < 64 \<and> f k \<noteq> kid \<and> pid (proc s (f k)) = 1 + of_nat k" by metis
    have "inj_on f {..<64}"
    proof (rule inj_onI)
      fix a b assume "a \<in> {..<64}" "b \<in> {..<64}" "f a = f b"
      then have "a < 64" "b < 64" "(of_nat a :: u32) = of_nat b" using f [of a] f [of b] by auto
      then have "unat (of_nat a :: u32) = unat (of_nat b :: u32)" "a < 64" "b < 64" by simp_all
      then show "a = b" by (simp add: unat_of_nat take_bit_nat_eq_self)
    qed
    moreover have "f ` {..<64} \<subseteq> {..<64} - {kid}" using f by auto
    ultimately have "card {..<64 :: nat} \<le> card ({..<64} - {kid})" by (intro card_inj_on_le) simp_all
    then show False using assms by simp
  qed
  then obtain k where k: "k < 64" "\<not> pid_taken kid s (1 + of_nat k)" by blast
  from free_pid_run [OF k(2)] obtain j where j: "j \<le> k" "free_pid kid s 1 = Some (1 + of_nat j)"
      "\<not> pid_taken kid s (1 + of_nat j)" by blast
  have "unat (1 + of_nat j :: u32) = Suc j"
    using j(1) k(1) by (simp add: unat_word_ariths unat_of_nat take_bit_nat_eq_self)
  then show thesis using that [OF j(2) _ _ j(3)] j(1) k(1) by simp
qed

section \<open>What fork does\<close>

definition fork_pcb :: "process \<Rightarrow> u32 \<Rightarrow> u32 \<Rightarrow> u32 \<Rightarrow> process" where
  "fork_pcb q p kst ust = q\<lparr>nxt := None, parent_waiting := False, cpu_ticks := 0, wait_ticks := 0, pid := p, ppid := pid q,
     kstack := kst, kstack_top := kst + 16384, ustack := ust,
     ustack_top := ust + 16384 - (ustack q + 16384 - ustack_top q), esp := kst + 16292, state := READY\<rparr>"

definition fork_mem :: "u32 \<Rightarrow> u32 \<Rightarrow> u32 \<Rightarrow> u32 \<Rightarrow> u32 \<Rightarrow> (u32 \<Rightarrow> u32) \<Rightarrow> u32 \<Rightarrow> u32" where
  "fork_mem ret r lo kst ust m =
     (let m1 = copy_stack ust lo m;
          m2 = relocate_chain 64 lo (lo + 16384) (ust - lo) (ebp (load_regs m1 r)) m1
      in (store_regs (kst + 16316) (child_frame lo (lo + 16384) (ust - lo) (load_regs m2 r)) m2)
           (kst + 16312 := ret, kst + 16308 := 2, kst + 16304 := 0, kst + 16300 := 0, kst + 16296 := 0, kst + 16292 := 0))"

lemma sys_fork_made:
  assumes c: "current_process s = Some c" "is_user (proc s c)" "ustack (proc s c) \<noteq> 0" "state (proc s c) \<noteq> UNUSED"
    and k: "kmalloc 16384 (kheap_st s) = Some (kst, h1)" "kst \<noteq> 0" "kmalloc 16384 h1 = Some (ust, h2)" "ust \<noteq> 0"
    and i: "find (\<lambda>i. state (proc s i) = UNUSED) [0..<64] = Some i"
    and p: "free_pid i (upd i (\<lambda>_. (proc s c)\<lparr>nxt := None, parent_waiting := False, cpu_ticks := 0, wait_ticks := 0\<rparr>)
         (s\<lparr>kheap_st := h2\<rparr>)) 1 = Some p"
  shows "sys_fork ret r s = Some (sint p, scheduler_enqueue (Some i) (upd i (\<lambda>_. fork_pcb (proc s c) p kst ust)
    (s\<lparr>kheap_st := h2, next_pid := next_pid s, mem := fork_mem ret r (ustack (proc s c)) kst ust (mem s)\<rparr>)))"
proof -
  have ci: "c \<noteq> i" using c(4) i by (auto simp: find_upt_Some_iff)
  define s1 where "s1 = upd i (\<lambda>_. (proc s c)\<lparr>nxt := None, parent_waiting := False, cpu_ticks := 0, wait_ticks := 0\<rparr>)
         (s\<lparr>kheap_st := h2\<rparr>)"
  have s1: "proc s1 c = proc s c" "mem s1 = mem s" using ci by (simp_all add: s1_def)
  define m4 where "m4 = fork_mem ret r (ustack (proc s c)) kst ust (mem s)"
  let ?d = "upd i (\<lambda>q. q\<lparr>pid := p, ppid := pid (proc s c), kstack := kst, kstack_top := kst + 16384, ustack := ust,
      ustack_top := ust + 16384 - (ustack (proc s c) + 16384 - ustack_top (proc s c))\<rparr>) s1"
  have push: "fold stack_push [ret, 2, 0, 0, 0, 0] (kst + 16384 - 68, m) =
      (kst + 16292, m(kst + 16312 := ret, kst + 16308 := 2, kst + 16304 := 0, kst + 16300 := 0, kst + 16296 := 0, kst + 16292 := 0))" for m
    by (simp add: stack_push_def add.commute)
  have "sys_fork ret r s = Some (sint p, scheduler_enqueue (Some i) (upd i (\<lambda>q. q\<lparr>esp := kst + 16292, state := READY\<rparr>) (?d\<lparr>mem := m4\<rparr>)))"
    using c k i p push ci unfolding sys_fork_def m4_def fork_mem_def add.commute [of kst 16316]
    by (simp add: Let_def s1 s1_def [symmetric] del: fold_simps)
  also have "upd i (\<lambda>q. q\<lparr>esp := kst + 16292, state := READY\<rparr>) (?d\<lparr>mem := m4\<rparr>) =
      upd i (\<lambda>_. fork_pcb (proc s c) p kst ust) (s\<lparr>kheap_st := h2, next_pid := next_pid s, mem := m4\<rparr>)"
    by (auto simp: s1_def fork_pcb_def intro!: system_eqI)
  finally show ?thesis by (simp add: m4_def)
qed

lemma sys_fork_cases:
  assumes wf: "sched_wf s Q" and m: "mem_inv s U"
  obtains (refused) h where "sys_fork ret r s = Some (- 1, s\<lparr>kheap_st := h\<rparr>)" "owns h (stack_of s) U"
    | (made) c i p kst ust h where "current_process s = Some c" "is_user (proc s c)" "ustack (proc s c) \<noteq> 0" "c \<noteq> i"
        "sys_fork ret r s = Some (sint p, scheduler_enqueue (Some i) (upd i (\<lambda>_. fork_pcb (proc s c) p kst ust)
           (s\<lparr>kheap_st := h, next_pid := next_pid s, mem := fork_mem ret r (ustack (proc s c)) kst ust (mem s)\<rparr>)))"
        "i < 64" "state (proc s i) = UNUSED" "0 < unat p" "unat p \<le> 64"
        "\<And>j. j < 64 \<Longrightarrow> state (proc s j) \<noteq> UNUSED \<Longrightarrow> pid (proc s j) \<noteq> p"
        "kst \<noteq> 0" "ust \<noteq> 0" "owns h ((stack_of s)((i, True) := ust, (i, False) := kst)) U"
proof -
  obtain c where c: "current_process s = Some c" "slot_ok c Q c (proc s c)" using wf by (rule sched_wfD)
  have cu: "state (proc s c) \<noteq> UNUSED" using c(2) by (auto simp: slot_ok_def)
  have o: "owns (kheap_st s) (stack_of s) U" using m by (simp add: mem_inv_def)
  show thesis
  proof (cases "is_user (proc s c) \<and> ustack (proc s c) \<noteq> 0")
    case False
    then show thesis using refused [of "kheap_st s"] o c(1) by (auto simp: sys_fork_def)
  next
    case True
    from o show thesis
    proof (cases rule: owns_stack_cases)
      case null
      then show thesis using refused [of "kheap_st s"] o c(1) True by (auto simp: sys_fork_def)
    next
      case K: (block kst h1 n1)
      from K(4) show thesis
      proof (cases rule: owns_stack_cases)
        case null
        then show thesis using refused [OF _ owns_drop [OF K(4,5)]] K(1,2) c(1) True by (auto simp: sys_fork_def)
      next
        case B: (block ust h2 n2)
        have o2: "owns h2 (stack_of s) (insert (unat kst, n1) (insert (unat ust, n2) U))" using B(4) by (simp add: insert_commute)
        have k2: "unat kst \<notin> fst ` insert (unat ust, n2) U" "unat ust \<notin> fst ` U" using B(5) K(5) by auto
        show thesis
        proof (cases "find (\<lambda>i. state (proc s i) = UNUSED) [0..<64]")
          case None
          have "owns (kfree ust (kfree kst h2)) (stack_of s) U" by (rule owns_drop [OF owns_drop [OF o2 k2(1)] k2(2)])
          then show thesis using refused K(1,2) B(1,2) c(1) True None by (auto simp: sys_fork_def)
        next
          case (Some i)
          then have i: "i < 64" "state (proc s i) = UNUSED" by (simp_all add: find_upt_Some_iff)
          let ?s1 = "upd i (\<lambda>_. (proc s c)\<lparr>nxt := None, parent_waiting := False, cpu_ticks := 0, wait_ticks := 0\<rparr>) (s\<lparr>kheap_st := h2\<rparr>)"
          obtain p where p: "free_pid i ?s1 1 = Some p" "0 < unat p" "unat p \<le> 64" "\<not> pid_taken i ?s1 p"
            by (rule free_pid_returns [OF i(1)])
          have fresh: "pid (proc s j) \<noteq> p" if "j < 64" "state (proc s j) \<noteq> UNUSED" for j
            using p(4) that i(2) by (cases "j = i") (auto simp: pid_taken_def list_ex_iff dest!: bspec [of _ _ j])
          have z: "stack_of s (i, b) = 0" for b using m i by (auto simp: mem_inv_def stack_of_def)
          have a: "owns h2 ((stack_of s)((i, True) := ust)) (insert (unat kst, n1) U)"
            by (rule owns_adopt [OF B(4,5,2,3)]) (use i z in \<open>auto simp: stack_slots_def\<close>)
          have "owns h2 ((stack_of s)((i, True) := ust, (i, False) := kst)) U"
            by (rule owns_adopt [OF a K(5,2,3)]) (use i z in \<open>auto simp: stack_slots_def\<close>)
          then show thesis
            using made [OF c(1) _ _ _ sys_fork_made [OF c(1) _ _ cu K(1,2) B(1,2) Some p(1)] i p(2,3) fresh K(2) B(2)] True cu i(2)
            by auto
        qed
      qed
    qed
  qed
qed

lemma fork_pcb_simps [simp]:
  "pid (fork_pcb q p kst ust) = p" "ppid (fork_pcb q p kst ust) = pid q" "state (fork_pcb q p kst ust) = READY"
  "priority (fork_pcb q p kst ust) = priority q" "base_priority (fork_pcb q p kst ust) = base_priority q"
  "wait_ticks (fork_pcb q p kst ust) = 0" "kstack (fork_pcb q p kst ust) = kst" "ustack (fork_pcb q p kst ust) = ust"
  "is_user (fork_pcb q p kst ust) = is_user q" "esp (fork_pcb q p kst ust) = kst + 16292"
  by (simp_all add: fork_pcb_def)

lemma sint_small: assumes "unat (p :: u32) \<le> 64" shows "sint p = int (unat p)"
proof -
  have L: "LENGTH(32) - Suc 0 = 31" by simp
  have E: "(2 :: int) ^ 31 = 2147483648" by simp
  have "signed_take_bit 31 (int (unat p)) = int (unat p)"
    by (rule signed_take_bit_int_eq_self; unfold E; use assms in linarith)
  then show ?thesis by (simp only: sint_uint L uint_nat)
qed

lemma fork_made_ok:
  assumes wf: "sched_wf s Q" and m: "mem_inv s U" and c: "current_process s = Some c" "c \<noteq> i"
    and i: "i < 64" "state (proc s i) = UNUSED" and p: "0 < unat p"
    and o: "owns h ((stack_of s)((i, True) := ust, (i, False) := kst)) U"
    and s': "s' = scheduler_enqueue (Some i) (upd i (\<lambda>_. fork_pcb (proc s c) p kst ust) (s\<lparr>kheap_st := h, next_pid := next_pid s, mem := mm\<rparr>))"
  shows "\<exists>Q'. sched_wf s' Q'" and "mem_inv s' U" and "same_pcb (proc s' i) (fork_pcb (proc s c) p kst ust)"
    and "j \<noteq> i \<Longrightarrow> same_pcb (proc s' j) (proc s j)"
proof -
  obtain c' where "current_process s = Some c'" "slot_ok c' Q c' (proc s c')" using wf by (rule sched_wfD)
  then have "unat (priority (proc s c)) < 3" "unat (base_priority (proc s c)) < 3" using c(1) by (auto simp: slot_ok_def)
  then have q: "pid (fork_pcb (proc s c) p kst ust) \<noteq> 0" "state (fork_pcb (proc s c) p kst ust) = READY"
      "unat (priority (fork_pcb (proc s c) p kst ust)) < 3" "unat (base_priority (fork_pcb (proc s c) p kst ust)) < 3"
      "wait_ticks (fork_pcb (proc s c) p kst ust) = 0"
    using p by auto
  note A = admit_wf [OF wf i q s']
  show "\<exists>Q'. sched_wf s' Q'" and "same_pcb (proc s' i) (fork_pcb (proc s c) p kst ust)"
    and "j \<noteq> i \<Longrightarrow> same_pcb (proc s' j) (proc s j)" using A(1,2,3) by blast+
  have k: "kstack (proc s' j) = (if j = i then kst else kstack (proc s j))" "ustack (proc s' j) = (if j = i then ust else ustack (proc s j))"
      "state (proc s' j) = (if j = i then READY else state (proc s j))" for j
    using same_pcbD(3,6,7) [OF A(2)] same_pcbD(3,6,7) [OF A(3) [of j]] by simp_all
  have "stack_of s' = (stack_of s)((i, True) := ust, (i, False) := kst)" by (auto simp: stack_of_def fun_eq_iff k)
  then show "mem_inv s' U" using m o A(4) k by (auto simp: mem_inv_def)
qed

lemma process_by_pid_new:
  assumes "i < 64" "state (proc s' i) \<noteq> UNUSED" and "\<And>j. j < 64 \<Longrightarrow> j \<noteq> i \<Longrightarrow> state (proc s' j) \<noteq> UNUSED \<Longrightarrow> pid (proc s' j) \<noteq> pid (proc s' i)"
  shows "process_by_pid (pid (proc s' i)) s' = Some i"
  unfolding process_by_pid_def find_upt_Some_iff using assms by fastforce

text \<open>
  C9. A fork always returns, and does all of its work or none. If the caller is not a ring 3 process, a stack cannot be
  allocated or the table is full, it returns -1 and the only thing that changes is the heap, which holds the same blocks as
  before; otherwise a free slot becomes a READY child of the caller with a pid that no process had and by which
  it is now found, whose pid is the result, and no other control block changes. In both cases the scheduling and
  the memory invariants hold afterwards.
\<close>

theorem sys_fork_all_or_nothing:
  assumes "sched_wf s Q" and "mem_inv s U"
  shows "\<exists>k s' Q'. sys_fork ret r s = Some (k, s') \<and> sched_wf s' Q' \<and> mem_inv s' U \<and>
    (k = - 1 \<and> s' = s\<lparr>kheap_st := kheap_st s'\<rparr> \<or>
     (\<exists>i<64. is_user (proc s (cur s)) \<and> state (proc s i) = UNUSED \<and> state (proc s' i) = READY \<and> is_user (proc s' i) \<and>
        0 < k \<and> k = int (unat (pid (proc s' i))) \<and> ppid (proc s' i) = process_getpid s \<and>
        process_by_pid (pid (proc s' i)) s = None \<and> process_by_pid (pid (proc s' i)) s' = Some i \<and>
        (\<forall>j. j \<noteq> i \<longrightarrow> same_pcb (proc s' j) (proc s j))))"
  using assms
proof (cases rule: sys_fork_cases [where ret = ret and r = r])
  case (refused h)
  let ?s' = "s\<lparr>kheap_st := h\<rparr>"
  have "mem_inv ?s' U" by (rule heap_only(2) [OF assms(2) refused(2)])
  moreover have "sched_wf ?s' Q" using assms(1) by (simp add: heap_only(1))
  ultimately show ?thesis using refused(1) by (intro exI [of _ "- 1"] exI [of _ ?s'] exI [of _ Q]) simp
next
  case (made c i p kst ust h)
  define t where "t = scheduler_enqueue (Some i) (upd i (\<lambda>_. fork_pcb (proc s c) p kst ust)
           (s\<lparr>kheap_st := h, next_pid := next_pid s, mem := fork_mem ret r (ustack (proc s c)) kst ust (mem s)\<rparr>))"
  note F = fork_made_ok [OF assms made(1,4,6,7,8,13) t_def]
  note D = same_pcbD [OF F(3)]
  have d: "pid (proc t i) = p" "state (proc t i) = READY" "is_user (proc t i)" "ppid (proc t i) = process_getpid s"
    using D(1,2,3,15) made(1,2) by (simp_all add: process_getpid_def)
  have none: "process_by_pid (pid (proc t i)) s = None"
    unfolding process_by_pid_def find_upt_None_iff d(1) using made(10) by auto
  have "pid (proc t j) \<noteq> pid (proc t i)" if "j < 64" "j \<noteq> i" "state (proc t j) \<noteq> UNUSED" for j
    using made(10) [of j] same_pcbD(1,3) [OF F(4) [OF that(2)]] that d(1) by simp
  from process_by_pid_new [OF made(6) _ this] have new: "process_by_pid (pid (proc t i)) t = Some i" using d(2) by simp
  have k: "sint p = int (unat (pid (proc t i)))" unfolding d(1) by (rule sint_small [OF made(9)])
  moreover have "0 < sint p" unfolding sint_small [OF made(9)] using made(8) by (simp only: of_nat_0_less_iff)
  moreover have "sys_fork ret r s = Some (sint p, t)" using made(5) by (simp only: t_def)
  moreover have "is_user (proc s (cur s))" using made(1,2) by simp
  ultimately show ?thesis using F(1,2,4) made(6,7) d(2-4) none new by blast
qed

text \<open>
  The pid of a forked child is the first that is free, and creation takes the next one of a counter that a fork
  does not advance: if the counter was at the first free pid, then the next process that is created has the pid of the child.
\<close>

lemma fork_then_create_same_pid:
  assumes wf: "sched_wf s Q" and m: "mem_inv s U" and k: "next_pid s \<noteq> 0"
    and f: "sys_fork ret r s = Some (int (unat (next_pid s)), s')"
    and cr: "process_create te name entry arg prio s' = Some (Some j, s'')"
  shows "\<exists>i<64. i \<noteq> j \<and> state (proc s'' i) = READY \<and> state (proc s'' j) = READY \<and> pid (proc s'' i) = pid (proc s'' j)"
  using wf m
proof (cases rule: sys_fork_cases [where ret = ret and r = r])
  case (refused h)
  then have "- 1 = int (unat (next_pid s))" using f by (metis Pair_inject option.inject)
  then show ?thesis by linarith
next
  case (made c i p kst ust h)
  have s': "s' = scheduler_enqueue (Some i) (upd i (\<lambda>_. fork_pcb (proc s c) p kst ust)
      (s\<lparr>kheap_st := h, next_pid := next_pid s, mem := fork_mem ret r (ustack (proc s c)) kst ust (mem s)\<rparr>))"
    and "sint p = int (unat (next_pid s))" using made(5) f by (metis Pair_inject option.inject)+
  then have p: "p = next_pid s" unfolding sint_small [OF made(9)] by (simp only: of_nat_eq_iff word_unat_eq_iff)
  note F = fork_made_ok [OF wf m made(1,4,6,7,8,13) s']
  obtain Q' where Q': "sched_wf s' Q'" using F(1) by blast
  obtain c' where c': "current_process s' = Some c'" "slot_ok c' Q' c' (proc s' c')" using Q' by (rule sched_wfD)
  have cu: "state (proc s' x) \<noteq> UNUSED" if "current_process s' = Some x" for x using c' that by (auto simp: slot_ok_def)
  have n: "next_pid s' = next_pid s" unfolding s' by simp
  have pi: "pid (proc s' i) = next_pid s" "state (proc s' i) = READY" using same_pcbD(1,3) [OF F(3)] p by simp_all
  obtain V where V: "heap_live (kheap_st s') V" using mem_inv_live [OF F(2)] by blast
  show ?thesis
  proof (rule process_create_cases [OF V cu, where te = te and name = name and entry = entry and arg = arg and prio = prio])
    fix j' stack h' mm
    assume made': "process_create te name entry arg prio s' = Some (Some j', scheduler_enqueue (Some j') (upd j' (\<lambda>_. new_pcb s' name prio stack)
            (s'\<lparr>kheap_st := h', next_pid := next_pid s' + 1, mem := new_frame te entry arg stack (mem s')\<rparr>)))"
      "j' < 64" "state (proc s' j') = UNUSED" "unat prio < 3"
    have e: "j' = j" "s'' = scheduler_enqueue (Some j') (upd j' (\<lambda>_. new_pcb s' name prio stack)
            (s'\<lparr>kheap_st := h', next_pid := next_pid s' + 1, mem := new_frame te entry arg stack (mem s')\<rparr>))"
      using made'(1) cr by simp_all
    note M = create_made_wf [OF Q' made'(2,3,4) _ e(2)]
    have "i \<noteq> j" using pi made'(3) e(1) by auto
    then show ?thesis
      using M(2) M(3) [of i] k n pi made(6) e(1) by (auto simp: same_pcbD intro!: exI [of _ i])
  qed (use cr in auto)
qed

section \<open>Bytes and words\<close>

lemma bit_set_byte:
  "n < 32 \<Longrightarrow> bit (set_byte k b w) n \<longleftrightarrow> (if 8 * k \<le> n \<and> n < 8 * k + 8 then bit b (n - 8 * k) else bit w n)"
  by (auto simp: set_byte_def bit_simps dest: bit_imp_le_length)

lemma word_of_bytes:
  "set_byte 3 (ucast (drop_bit 24 v)) (set_byte 2 (ucast (drop_bit 16 v)) (set_byte 1 (ucast (drop_bit 8 v)) (set_byte 0 (ucast v) w))) = (v :: u32)"
proof (rule bit_eqI)
  fix n assume "possible_bit TYPE(u32) n"
  then have "n < 32" by simp
  then show "bit (set_byte 3 (ucast (drop_bit 24 v)) (set_byte 2 (ucast (drop_bit 16 v)) (set_byte 1 (ucast (drop_bit 8 v)) (set_byte 0 (ucast v) w)))) n \<longleftrightarrow> bit v n"
    by (auto simp: bit_set_byte bit_simps)
qed

lemma and_3: "unat (a AND 3 :: u32) = unat a mod 4" "a AND NOT 3 = a - (a AND 3)"
proof -
  have "(3 :: u32) = mask 2" by (simp add: mask_eq_exp_minus_1)
  then have "a AND 3 = take_bit 2 a" by (simp add: take_bit_eq_mask)
  then show "unat (a AND 3 :: u32) = unat a mod 4" by (simp add: take_bit_eq_mod unat_mod)
  have "a - (a AND 3) = a AND NOT (a AND 3)" by (rule disjunctive_diff_eq_and_not, rule bit_eqI) (auto simp: bit_simps)
  also have "\<dots> = a AND NOT 3" by (rule bit_eqI) (auto simp: bit_simps)
  finally show "a AND NOT 3 = a - (a AND 3)" ..
qed

lemma aligned_offset:
  assumes "4 dvd unat (a :: u32)" and "k < 4"
  shows "unat ((a + of_nat (4 * j + k)) AND 3) = k" and "(a + of_nat (4 * j + k)) AND NOT 3 = a + of_nat (4 * j)"
proof -
  have d: "(4 :: nat) dvd 2 ^ 32" by simp
  have "unat (a + of_nat (4 * j + k)) = (unat a + (4 * j + k)) mod 2 ^ 32"
    by (simp only: unat_word_ariths(1) unat_of_nat take_bit_eq_mod mod_add_right_eq) simp
  then have "unat (a + of_nat (4 * j + k)) mod 4 = (unat a + (4 * j + k)) mod 4"
    by (simp only: mod_mod_cancel [OF d])
  also have "\<dots> = k" using assms by presburger
  finally show u: "unat ((a + of_nat (4 * j + k)) AND 3) = k" by (simp add: and_3(1))
  moreover have "unat (of_nat k :: u32) = k" using assms(2) by (simp add: unat_of_nat take_bit_nat_eq_self)
  ultimately have "(a + of_nat (4 * j + k)) AND 3 = of_nat k" by (simp only: word_unat_eq_iff)
  then show "(a + of_nat (4 * j + k)) AND NOT 3 = a + of_nat (4 * j)" unfolding and_3(2) by (simp only: of_nat_add) simp
qed

lemma copy_word:
  assumes "4 dvd unat (dst :: u32)" and "4 dvd unat src" and "dst + of_nat (4 * j) \<noteq> src + of_nat (4 * j)"
  shows "fold (\<lambda>i m. put_byte (dst + of_nat i) (byte_at m (src + of_nat i)) m) [4 * j..<4 * j + 4] m = m(dst + of_nat (4 * j) := m (src + of_nat (4 * j)))"
proof -
  have l: "[4 * j..<4 * j + 4] = [4 * j + 0, 4 * j + 1, 4 * j + 2, 4 * j + 3]" by (simp add: upt_conv_Cons)
  have b: "put_byte (dst + of_nat (4 * j + k)) (byte_at m (src + of_nat (4 * j + k))) m =
      m(dst + of_nat (4 * j) := set_byte k (ucast (drop_bit (8 * k) (m (src + of_nat (4 * j))))) (m (dst + of_nat (4 * j))))" if "k < 4" for k m
    unfolding put_byte_def byte_at_def aligned_offset [OF assms(1) that] aligned_offset [OF assms(2) that] ..
  have z: "(0 :: nat) < 4" "(1 :: nat) < 4" "(2 :: nat) < 4" "(3 :: nat) < 4" by simp_all
  have ne: "src + of_nat (4 * j) \<noteq> dst + of_nat (4 * j)" using assms(3) by simp
  show ?thesis
    unfolding l fold_simps b [OF z(1)] b [OF z(2)] b [OF z(3)] b [OF z(4)] fun_upd_same fun_upd_other [OF ne] fun_upd_upd
    using word_of_bytes [of "m (src + of_nat (4 * j))" "m (dst + of_nat (4 * j))"] by simp
qed

definition stack_word :: "u32 \<Rightarrow> u32 \<Rightarrow> bool" where
  "stack_word base x \<longleftrightarrow> (\<exists>j<4096. x = base + of_nat (4 * j))"

lemma copy_stack_words:
  assumes "4 dvd unat dst" and "4 dvd unat src" and ap: "\<And>x. stack_word dst x \<Longrightarrow> \<not> stack_word src x"
  shows "copy_stack dst src m = (\<lambda>x. if stack_word dst x then m (src + (x - dst)) else m x)"
proof -
  let ?f = "\<lambda>i m. put_byte (dst + of_nat i) (byte_at m (src + of_nat i)) m"
  have "k \<le> 4096 \<Longrightarrow> fold ?f [0..<4 * k] m = (\<lambda>x. if \<exists>j<k. x = dst + of_nat (4 * j) then m (src + (x - dst)) else m x)" for k
  proof (induction k)
    case 0
    then show ?case by simp
  next
    case (Suc k)
    let ?m = "\<lambda>x. if \<exists>j<k. x = dst + of_nat (4 * j) then m (src + (x - dst)) else m x"
    have s: "stack_word src (src + of_nat (4 * k))" "stack_word dst (dst + of_nat (4 * k))"
      using Suc.prems unfolding stack_word_def by (intro exI [of _ k]; simp)+
    have ne: "dst + of_nat (4 * k) \<noteq> src + of_nat (4 * k)" using s ap by metis
    have "\<not> (\<exists>j<k. src + of_nat (4 * k) = dst + of_nat (4 * j))"
    proof
      assume "\<exists>j<k. src + of_nat (4 * k) = dst + of_nat (4 * j)"
      then have "stack_word dst (src + of_nat (4 * k))" using Suc.prems unfolding stack_word_def by (meson less_trans Suc_le_lessD)
      then show False using ap s(1) by blast
    qed
    then have src: "?m (src + of_nat (4 * k)) = m (src + of_nat (4 * k))" by (rule if_not_P)
    have "[0..<4 * Suc k] = [0..<4 * k] @ [4 * k..<4 * k + 4]" using upt_add_eq_append [of 0 "4 * k" 4] by (simp add: add.commute)
    then have "fold ?f [0..<4 * Suc k] m = fold ?f [4 * k..<4 * k + 4] ?m" using Suc by simp
    also have "\<dots> = ?m(dst + of_nat (4 * k) := m (src + of_nat (4 * k)))" unfolding copy_word [OF assms(1,2) ne] src ..
    also have "\<dots> = (\<lambda>x. if \<exists>j<Suc k. x = dst + of_nat (4 * j) then m (src + (x - dst)) else m x)"
      by (rule ext) (auto simp: less_Suc_eq)
    finally show ?case .
  qed
  note copied = this [of 4096, OF order_refl]
  have e: "4 * 4096 = (16384 :: nat)" by simp
  show ?thesis unfolding copy_stack_def stack_word_def by (rule copied [unfolded e])
qed

section \<open>The chain of frame pointers\<close>

text \<open>The addresses of the saved frame pointers, from \<open>bp\<close> up, that lie in the stack.\<close>

fun frame_chain :: "nat \<Rightarrow> u32 \<Rightarrow> u32 \<Rightarrow> u32 \<Rightarrow> (u32 \<Rightarrow> u32) \<Rightarrow> u32 list" where
  "frame_chain 0 lo hi bp m = []"
| "frame_chain (Suc n) lo hi bp m =
     (if lo \<le> bp \<and> bp \<le> hi - 4 \<and> bp AND 3 = 0
      then bp # (if m bp \<le> bp then [] else frame_chain n lo hi (m bp) m) else [])"

lemma frame_chain_range: "x \<in> set (frame_chain n lo hi bp m) \<Longrightarrow> bp \<le> x \<and> lo \<le> x \<and> x \<le> hi - 4 \<and> x AND 3 = 0"
  by (induction n arbitrary: bp) (fastforce split: if_splits)+

text \<open>
  Walking the chain in a copy that is shifted by \<open>delta\<close> shifts the links that point into the
  stack, and nothing else: the chain ascends, so no link is read after it has been changed.
\<close>

lemma relocate_chain_eq:
  assumes "\<And>x. bp \<le> x \<Longrightarrow> x \<le> hi - 4 \<Longrightarrow> lo \<le> x \<Longrightarrow> x AND 3 = 0 \<Longrightarrow> c (x + delta) = m x"
  shows "relocate_chain n lo hi delta bp c y =
    (if y - delta \<in> set (frame_chain n lo hi bp m) \<and> lo \<le> m (y - delta) \<and> m (y - delta) \<le> hi then m (y - delta) + delta else c y)"
  using assms
proof (induction n arbitrary: bp c)
  case 0
  then show ?case by simp
next
  case (Suc n)
  show ?case
  proof (cases "lo \<le> bp \<and> bp \<le> hi - 4 \<and> bp AND 3 = 0")
    case True
    let ?c = "if lo \<le> m bp \<and> m bp \<le> hi then c(bp + delta := m bp + delta) else c"
    have cb: "c (bp + delta) = m bp" using Suc.prems True by simp
    have y: "y - delta = bp \<longleftrightarrow> y = bp + delta" by (auto simp: algebra_simps)
    show ?thesis
    proof (cases "m bp \<le> bp")
      case stop: True
      then show ?thesis using True cb y by (auto simp: Let_def)
    next
      case False
      have IH: "relocate_chain n lo hi delta (m bp) ?c y =
          (if y - delta \<in> set (frame_chain n lo hi (m bp) m) \<and> lo \<le> m (y - delta) \<and> m (y - delta) \<le> hi
           then m (y - delta) + delta else ?c y)"
        by (rule Suc.IH) (use False Suc.prems in auto)
      have bp: "bp \<notin> set (frame_chain n lo hi (m bp) m)" using frame_chain_range False by (meson not_le)
      have R: "relocate_chain (Suc n) lo hi delta bp c y = relocate_chain n lo hi delta (m bp) ?c y"
        using True False cb by (simp add: Let_def)
      have C: "set (frame_chain (Suc n) lo hi bp m) = insert bp (set (frame_chain n lo hi (m bp) m))" using True False by simp
      show ?thesis
      proof (cases "y = bp + delta")
        case hit: True
        have "relocate_chain (Suc n) lo hi delta bp c y = ?c y" by (rule trans [OF R], rule trans [OF IH]) (simp add: hit bp)
        then show ?thesis unfolding C by (simp add: hit cb del: relocate_chain.simps)
      next
        case ne: False
        then have "y - delta \<noteq> bp" using y by simp
        then have "y - delta \<in> insert bp (set (frame_chain n lo hi (m bp) m)) \<longleftrightarrow> y - delta \<in> set (frame_chain n lo hi (m bp) m)" by simp
        moreover have "?c y = c y" using ne by simp
        ultimately show ?thesis unfolding trans [OF R IH] C by simp
      qed
    qed
  next
    case False
    then have "relocate_chain (Suc n) lo hi delta bp c = c" "frame_chain (Suc n) lo hi bp m = []"
      unfolding relocate_chain.simps frame_chain.simps by (simp_all only: if_False)
    then show ?thesis by simp
  qed
qed

lemma stack_word_iff:
  assumes "4 dvd unat lo" and "unat lo + 16384 \<le> 2 ^ 32"
  shows "stack_word lo x \<longleftrightarrow> unat lo \<le> unat x \<and> unat x < unat lo + 16384 \<and> 4 dvd unat x"
proof
  assume "stack_word lo x"
  then obtain j where j: "j < 4096" "x = lo + of_nat (4 * j)" by (auto simp: stack_word_def)
  have "unat x = unat lo + 4 * j"
    unfolding j(2) using j(1) assms(2) by (simp add: unat_word_ariths(1) unat_of_nat take_bit_eq_mod del: of_nat_mult)
  then show "unat lo \<le> unat x \<and> unat x < unat lo + 16384 \<and> 4 dvd unat x" using j(1) assms(1) by simp
next
  assume a: "unat lo \<le> unat x \<and> unat x < unat lo + 16384 \<and> 4 dvd unat x"
  then obtain j where j: "unat x = unat lo + 4 * j" using assms(1) by (metis dvd_diff_nat dvdE le_add_diff_inverse)
  have "unat (lo + of_nat (4 * j)) = unat lo + 4 * j"
    using a j assms(2) by (simp add: unat_word_ariths(1) unat_of_nat take_bit_eq_mod del: of_nat_mult)
  then have "x = lo + of_nat (4 * j)" using j by (simp only: word_unat_eq_iff)
  then show "stack_word lo x" unfolding stack_word_def using a j by (intro exI [of _ j]) simp
qed
section \<open>The memory of a forked child\<close>

lemma load_regs_cong:
  assumes "\<And>i. i < 17 \<Longrightarrow> m (a + of_nat (4 * i)) = m' (a + of_nat (4 * i))"
  shows "load_regs m a = load_regs m' a"
  unfolding load_regs_def
  using assms [of 0] assms [of 1] assms [of 2] assms [of 3] assms [of 4] assms [of 5] assms [of 6] assms [of 7] assms [of 8]
    assms [of 9] assms [of 10] assms [of 11] assms [of 12] assms [of 13] assms [of 14] assms [of 15] assms [of 16]
  by simp

lemma stack_word_offset: "j < 4096 \<Longrightarrow> stack_word a (a + of_nat (4 * j))"
  by (auto simp: stack_word_def)

lemma stack_word_shift: "stack_word ust (x + (ust - lo)) = stack_word lo x"
  by (auto simp: stack_word_def algebra_simps)

lemma store_regs_other:
  assumes "\<And>i. i < 17 \<Longrightarrow> x \<noteq> a + of_nat (4 * i)"
  shows "store_regs a v m x = m x"
  unfolding store_regs_def
  using assms [of 0] assms [of 1] assms [of 2] assms [of 3] assms [of 4] assms [of 5] assms [of 6] assms [of 7] assms [of 8]
    assms [of 9] assms [of 10] assms [of 11] assms [of 12] assms [of 13] assms [of 14] assms [of 15] assms [of 16]
  by simp

text \<open>The copied and relocated user stack.\<close>

definition child_stack :: "u32 \<Rightarrow> u32 \<Rightarrow> u32 \<Rightarrow> (u32 \<Rightarrow> u32) \<Rightarrow> u32 \<Rightarrow> u32" where
  "child_stack r lo delta m x =
     (if x \<in> set (frame_chain 64 lo (lo + 16384) (ebp (load_regs m r)) m) \<and> lo \<le> m x \<and> m x \<le> lo + 16384
      then m x + delta else m x)"

text \<open>Where the stacks and the register frame at \<open>r\<close> lie: word-aligned, and the new stacks apart from the rest.\<close>

definition fork_layout :: "u32 \<Rightarrow> u32 \<Rightarrow> u32 \<Rightarrow> u32 \<Rightarrow> bool" where
  "fork_layout kst ust lo r \<longleftrightarrow> 4 dvd unat ust \<and> 4 dvd unat lo \<and> unat lo + 16384 < 2 ^ 32 \<and>
     (\<forall>x. stack_word ust x \<longrightarrow> \<not> stack_word lo x \<and> \<not> stack_word kst x) \<and> (\<forall>i<17. \<not> stack_word ust (r + of_nat (4 * i)))"

lemma aligned_and: "(x :: u32) AND 3 = 0 \<longleftrightarrow> 4 dvd unat x"
  using and_3(1) [of x] by (auto simp: word_unat_eq_iff dvd_eq_mod_eq_0)

lemma chain_words:
  assumes "4 dvd unat lo" "unat lo + 16384 < 2 ^ 32" and "lo \<le> x" "x \<le> lo + 16384 - 4" "x AND 3 = 0"
  shows "stack_word lo x"
proof -
  have "unat (lo + 16384 - 4) = unat lo + 16380" using assms(2) by (simp add: unat_word_ariths)
  then have "unat x \<le> unat lo + 16380" using assms(4) by (simp add: word_le_nat_alt)
  then show ?thesis using assms by (simp add: stack_word_iff aligned_and word_le_nat_alt)
qed

lemma fork_mem_stack:
  fixes m :: "u32 \<Rightarrow> u32"
  assumes L: "fork_layout kst ust lo r"
  defines "m1 \<equiv> copy_stack ust lo m"
  defines "m2 \<equiv> relocate_chain 64 lo (lo + 16384) (ust - lo) (ebp (load_regs m1 r)) m1"
  shows "load_regs m2 r = load_regs m r"
    and "m2 = (\<lambda>x. if stack_word ust x then child_stack r lo (ust - lo) m (x - (ust - lo)) else m x)"
proof -
  have l: "4 dvd unat ust" "4 dvd unat lo" "unat lo + 16384 < 2 ^ 32" "\<And>x. stack_word ust x \<Longrightarrow> \<not> stack_word lo x"
      "\<And>i. i < 17 \<Longrightarrow> \<not> stack_word ust (r + of_nat (4 * i))"
    using L by (auto simp: fork_layout_def)
  have m1: "m1 = (\<lambda>x. if stack_word ust x then m (x - (ust - lo)) else m x)"
  proof -
    have "copy_stack ust lo m = (\<lambda>x. if stack_word ust x then m (lo + (x - ust)) else m x)"
      by (rule copy_stack_words) (use l in auto)
    moreover have "lo + (x - ust) = x - (ust - lo)" for x by (simp add: diff_diff_eq2 add.commute)
    ultimately show ?thesis unfolding m1_def by (simp only:)
  qed
  have r1: "load_regs m1 r = load_regs m r" by (rule load_regs_cong) (use l(5) in \<open>simp only: m1 if_False\<close>)
  have "m2 y = (if y - (ust - lo) \<in> set (frame_chain 64 lo (lo + 16384) (ebp (load_regs m r)) m) \<and>
      lo \<le> m (y - (ust - lo)) \<and> m (y - (ust - lo)) \<le> lo + 16384 then m (y - (ust - lo)) + (ust - lo) else m1 y)" for y
    unfolding m2_def r1
    by (rule relocate_chain_eq) (use chain_words [OF l(2,3)] stack_word_shift [of ust _ lo] in \<open>simp add: m1\<close>)
  moreover have "y - (ust - lo) \<notin> set (frame_chain 64 lo (lo + 16384) (ebp (load_regs m r)) m)" if "\<not> stack_word ust y" for y
    using frame_chain_range chain_words [OF l(2,3)] stack_word_shift [of ust "y - (ust - lo)" lo] that
    by (metis diff_add_cancel)
  ultimately show m2: "m2 = (\<lambda>x. if stack_word ust x then child_stack r lo (ust - lo) m (x - (ust - lo)) else m x)"
    unfolding m1 by (intro ext) (auto simp: child_stack_def)
  show "load_regs m2 r = load_regs m r" by (rule load_regs_cong) (use l(5) in \<open>simp only: m2 if_False\<close>)
qed

lemma fork_mem_spec:
  assumes L: "fork_layout kst ust lo r"
  shows "fork_mem ret r lo kst ust m (kst + 16312) = ret"
    and "load_regs (fork_mem ret r lo kst ust m) (kst + 16316) = child_frame lo (lo + 16384) (ust - lo) (load_regs m r)"
    and "stack_word lo x \<Longrightarrow> fork_mem ret r lo kst ust m (x + (ust - lo)) = child_stack r lo (ust - lo) m x"
    and "\<not> stack_word ust y \<Longrightarrow> \<not> stack_word kst y \<Longrightarrow> fork_mem ret r lo kst ust m y = m y"
proof -
  define m2 where "m2 = relocate_chain 64 lo (lo + 16384) (ust - lo) (ebp (load_regs (copy_stack ust lo m) r)) (copy_stack ust lo m)"
  note S = fork_mem_stack [OF L, of m, folded m2_def]
  let ?R = "child_frame lo (lo + 16384) (ust - lo) (load_regs m r)"
  have F: "fork_mem ret r lo kst ust m = (store_regs (kst + 16316) ?R m2)
      (kst + 16312 := ret, kst + 16308 := 2, kst + 16304 := 0, kst + 16300 := 0, kst + 16296 := 0, kst + 16292 := 0)"
    unfolding fork_mem_def Let_def m2_def [symmetric] S(1) ..
  show "fork_mem ret r lo kst ust m (kst + 16312) = ret" unfolding F by simp
  show "load_regs (fork_mem ret r lo kst ust m) (kst + 16316) = ?R"
    unfolding F by (simp add: load_regs_def store_regs_def)
  have O: "fork_mem ret r lo kst ust m y = m2 y" if "\<not> stack_word kst y" for y
  proof -
    have k: "y \<noteq> kst + of_nat (4 * j)" if "j < 4096" for j using \<open>\<not> stack_word kst y\<close> stack_word_offset [OF that] by metis
    have "y \<noteq> kst + 16316 + of_nat (4 * i)" if "i < 17" for i using k [of "4079 + i"] that by (simp add: add.assoc)
    then have "store_regs (kst + 16316) ?R m2 y = m2 y" by (rule store_regs_other)
    then show ?thesis
      unfolding F using k [of 4078] k [of 4077] k [of 4076] k [of 4075] k [of 4074] k [of 4073] by simp
  qed
  show "fork_mem ret r lo kst ust m (x + (ust - lo)) = child_stack r lo (ust - lo) m x" if "stack_word lo x"
  proof -
    have "stack_word ust (x + (ust - lo))" using that by (simp only: stack_word_shift)
    moreover from this have "\<not> stack_word kst (x + (ust - lo))" using L by (auto simp: fork_layout_def)
    ultimately show ?thesis using O [of "x + (ust - lo)"] by (simp add: S(2))
  qed
  show "fork_mem ret r lo kst ust m y = m y" if "\<not> stack_word ust y" "\<not> stack_word kst y" using O [OF that(2)] that(1) by (simp add: S(2))
qed

lemma child_frame_eq:
  "child_frame lo hi delta (load_regs m r) = (load_regs m r)
     \<lparr>eax := 0, useresp := m (r + 60) + delta,
      ebp := (if lo \<le> m (r + 24) \<and> m (r + 24) \<le> hi then m (r + 24) + delta else m (r + 24))\<rparr>"
  by (simp add: child_frame_def Let_def load_regs_def)

lemma stacks_apart:
  assumes "mem_inv s U" and x: "x \<in> stack_slots" "stack_of s x \<noteq> 0" "4 dvd unat (stack_of s x)"
    and y: "y \<in> stack_slots" "stack_of s y \<noteq> 0" "4 dvd unat (stack_of s y)" and "x \<noteq> y"
  shows "stack_word (stack_of s x) w \<Longrightarrow> \<not> stack_word (stack_of s y) w" and "unat (stack_of s x) + 16384 < 2 ^ 32"
proof -
  obtain sz where l: "heap_live (kheap_st s) (U \<union> stack_blocks (stack_of s) sz)" and ok: "owns_ok (stack_of s) sz U"
    using assms(1) by (auto simp: mem_inv_def owns_def)
  have m: "(unat (stack_of s z), sz z) \<in> U \<union> stack_blocks (stack_of s) sz" "16384 \<le> sz z"
    if "z \<in> stack_slots" "stack_of s z \<noteq> 0" for z using that ok by (auto simp: stack_blocks_def owns_ok_def)
  have b: "unat (stack_of s z) + 16384 < 2 ^ 32" if "z \<in> stack_slots" "stack_of s z \<noteq> 0" for z
    using heap_live_bound [OF l m(1) [OF that]] m(2) [OF that] by simp
  show "unat (stack_of s x) + 16384 < 2 ^ 32" by (rule b [OF x(1,2)])
  have "stack_of s x \<noteq> stack_of s y" using ok x(1,2) y(1,2) \<open>x \<noteq> y\<close> unfolding owns_ok_def inj_on_def by blast
  then have "apart (unat (stack_of s x), sz x) (unat (stack_of s y), sz y)"
    by (intro heap_live_apart [OF l m(1) [OF x(1,2)] m(1) [OF y(1,2)]]) (simp add: word_unat_eq_iff)
  then show "stack_word (stack_of s x) w \<Longrightarrow> \<not> stack_word (stack_of s y) w"
    using m(2) [OF x(1,2)] m(2) [OF y(1,2)] b [OF x(1,2)] b [OF y(1,2)] x(3) y(3) by (auto simp: apart_def stack_word_iff)
qed

lemma fork_layout_stacks:
  assumes "mem_inv s U" and "c < 64" "i < 64" "c \<noteq> i" and nz: "\<And>b. stack_of s (c, b) \<noteq> 0" "\<And>b. stack_of s (i, b) \<noteq> 0"
    and al: "\<And>x. x \<in> stack_slots \<Longrightarrow> 4 dvd unat (stack_of s x)"
  shows "fork_layout (kstack (proc s i)) (ustack (proc s i)) (ustack (proc s c)) (kstack (proc s c) + 16316)"
proof -
  have sl: "(c, b) \<in> stack_slots" "(i, b) \<in> stack_slots" for b using assms(2,3) by (auto simp: stack_slots_def)
  have A: "stack_word (stack_of s (i, True)) w \<Longrightarrow> \<not> stack_word (stack_of s (j, b)) w"
    if "j = c \<or> j = i \<and> \<not> b" for j b w
    using stacks_apart(1) [OF assms(1) sl(2) nz(2) al [OF sl(2)], of "(j, b)" True w] that sl nz al assms(4) by auto
  have e: "stack_of s (j, True) = ustack (proc s j)" "stack_of s (j, False) = kstack (proc s j)" for j by (simp_all add: stack_of_def)
  have r: "stack_word (kstack (proc s c)) (kstack (proc s c) + 16316 + of_nat (4 * k))" if "k < 17" for k
    using stack_word_offset [of "4079 + k" "kstack (proc s c)"] that by (simp add: add.assoc)
  have "unat (ustack (proc s c)) + 16384 < 2 ^ 32"
    using stacks_apart(2) [OF assms(1) sl(1) nz(1) al [OF sl(1)] sl(2) nz(2) al [OF sl(2)], of True] assms(4) by (auto simp: e)
  then show ?thesis
    unfolding fork_layout_def using A [of c True] A [of i False] A [of c False] r al [OF sl(1), of True] al [OF sl(2), of True] by (auto simp: e)
qed


section \<open>An example\<close>

text \<open>Stacks that are allocated one after the other from an empty arena.\<close>

lemma kmalloc_stack_run:
  assumes wf: "heap_wf s (replicate k (16384, False) @ [(m, True)])" and m: "16416 \<le> m"
  shows "\<exists>s'. kmalloc 16384 s = Some (of_nat (unat (heap_base s) + 16400 * k + 16), s') \<and>
    heap_wf s' (replicate (Suc k) (16384, False) @ [(m - 16400, True)]) \<and> heap_base s' = heap_base s"
proof -
  have n: "(16384 :: u32) \<noteq> 0" "unat (16384 :: u32) + 7 < 2 ^ 32" by simp_all
  have r: "round8 16384 = 16384" by simp
  have ext: "extent (replicate k (16384, False)) = 16400 * k" by (induction k) simp_all
  from wf n show ?thesis
  proof (cases rule: kmalloc_cases)
    case Full
    then show ?thesis using Full(1) [of "(m, True)"] m by (simp add: fits_def)
  next
    case (Block xs j ys s')
    have "xs = replicate k (16384, False) \<and> j = m \<and> ys = []"
    proof (cases ys rule: rev_cases)
      case Nil
      then show ?thesis using Block(1) by simp
    next
      case (snoc zs z)
      then have "replicate k (16384, False) = xs @ (j, True) # zs" using Block(1) by simp
      then have "(j, True) \<in> set (replicate k (16384, False))" by simp
      then show ?thesis by auto
    qed
    then show ?thesis using Block(4-6) m ext by (auto simp: carve_def replicate_app_Cons_same)
  qed
qed

primrec stack_heap :: "nat \<Rightarrow> heap" where
  "stack_heap 0 = heap_init 0x200000 0x300000 0x20000 heap_example"
| "stack_heap (Suc k) = snd (the (kmalloc 16384 (stack_heap k)))"

lemma stack_heap_wf:
  "k \<le> 6 \<Longrightarrow> heap_wf (stack_heap k) (replicate k (16384, False) @ [(131056 - 16400 * k, True)]) \<and> heap_base (stack_heap k) = 0x300000"
proof (induction k)
  case 0
  then show ?case using heap_init_wf(1,2) [of "0x300000" "0x20000" "0x200000" heap_example] by simp
next
  case (Suc k)
  then have "heap_wf (stack_heap k) (replicate k (16384, False) @ [(131056 - 16400 * k, True)])" "heap_base (stack_heap k) = 0x300000"
    by simp_all
  moreover have "16416 \<le> 131056 - 16400 * k" using Suc.prems by simp
  ultimately show ?case using kmalloc_stack_run [of "stack_heap k" k "131056 - 16400 * k"] by auto
qed

declare stack_heap.simps [simp del]

lemma stack_heap_kmalloc:
  assumes "k \<le> 5"
  shows "kmalloc 16384 (stack_heap k) = Some (of_nat (0x300010 + 16400 * k), stack_heap (Suc k))"
proof -
  have "16416 \<le> 131056 - 16400 * k" using assms by simp
  then obtain s' where "kmalloc 16384 (stack_heap k) = Some (of_nat (0x300000 + 16400 * k + 16), s')"
    using kmalloc_stack_run [of "stack_heap k" k "131056 - 16400 * k"] stack_heap_wf [of k] assms by auto
  then show ?thesis by (simp add: stack_heap.simps)
qed

lemma stack_heap_first:
  "kmalloc 16384 (stack_heap 0) = Some (0x300010, stack_heap 1)" "kmalloc 16384 (stack_heap 1) = Some (0x304020, stack_heap 2)"
  "kmalloc 16384 (stack_heap 2) = Some (0x308030, stack_heap 3)" "kmalloc 16384 (stack_heap 3) = Some (0x30C040, stack_heap 4)"
  using stack_heap_kmalloc [of 0] stack_heap_kmalloc [of 1, unfolded Suc_1] stack_heap_kmalloc [of 2] stack_heap_kmalloc [of 3]
  by simp_all

text \<open>A ring 3 process that runs on the first two stacks.\<close>

definition fork_example :: system where
  "fork_example = (boot_state (stack_heap 2))\<lparr>process_table := (\<lambda>_. pcb_zero)(0 := idle_pcb\<lparr>state := READY\<rparr>,
       1 := pcb_zero\<lparr>pid := 1, state := RUNNING, is_user := True, kstack := 0x300010, kstack_top := 0x304010,
              ustack := 0x304020, ustack_top := 0x308010\<rparr>),
     next_pid := 2, current_process := Some 1, started := True\<rparr>"

lemma fork_example_simps [simp]:
  "current_process fork_example = Some 1" "kheap_st fork_example = stack_heap 2" "mem fork_example = (\<lambda>_. 0)" "next_pid fork_example = 2"
  "proc fork_example (Suc 0) = pcb_zero\<lparr>pid := 1, state := RUNNING, is_user := True, kstack := 0x300010, kstack_top := 0x304010,
              ustack := 0x304020, ustack_top := 0x308010\<rparr>"
  "proc fork_example 0 = idle_pcb\<lparr>state := READY\<rparr>" "1 < i \<Longrightarrow> proc fork_example i = pcb_zero"
  by (simp_all add: fork_example_def boot_state_def)

lemma fork_example_wf: "sched_wf fork_example (\<lambda>_. [])"
proof -
  have "slot_ok 1 (\<lambda>_. []) i (proc fork_example i)" for i
    by (cases "i = 0 \<or> i = 1") (auto simp: slot_ok_def idle_pcb_def pcb_zero_def)
  moreover have "queues fork_example (\<lambda>_. [])"
    by (simp add: ready_queues_def fork_example_def boot_state_def)
  ultimately show ?thesis by (simp add: sched_wf_def sched_inv_def sched_but_def pcb_zero_def)
qed

lemma fork_example_mem: "mem_inv fork_example {}"
proof -
  have "heap_live (stack_heap 0) {}" using stack_heap_wf [of 0] by (auto simp: heap_live_def intro!: exI [of _ "[(131056, True)]"])
  then have o0: "owns (stack_heap 0) (\<lambda>_. 0) {}" by (simp add: owns_def owns_ok_def stack_blocks_def)
  obtain n1 where n1: "16384 \<le> n1" "owns (stack_heap 1) (\<lambda>_. 0) {(unat (0x300010 :: u32), n1)}"
    using owns_kmalloc [OF o0, of 16384 "0x300010" "stack_heap 1"] stack_heap_first(1) by auto
  have o1: "owns (stack_heap 1) ((\<lambda>_. 0)((1, False) := 0x300010)) {}"
    by (rule owns_adopt [OF n1(2) _ _ n1(1)]) (simp_all add: stack_slots_def)
  obtain n2 where n2: "16384 \<le> n2" "owns (stack_heap 2) ((\<lambda>_. 0)((1, False) := 0x300010)) {(unat (0x304020 :: u32), n2)}"
    using owns_kmalloc [OF o1, of 16384 "0x304020" "stack_heap 2"] stack_heap_first(2) by auto
  have "owns (stack_heap 2) ((\<lambda>_. 0)((1, False) := 0x300010, (1, True) := 0x304020)) {}"
    by (rule owns_adopt [OF n2(2) _ _ n2(1)]) (simp_all add: stack_slots_def)
  moreover have "stack_of fork_example = (\<lambda>_. 0)((1, False) := 0x300010, (1, True) := 0x304020)"
    by (auto simp: stack_of_def fun_eq_iff fork_example_def boot_state_def idle_pcb_def pcb_zero_def)
  moreover have "kstack (proc fork_example i) = 0 \<and> ustack (proc fork_example i) = 0" if "state (proc fork_example i) = UNUSED" for i
    using that by (auto simp: fork_example_def boot_state_def idle_pcb_def pcb_zero_def split: if_splits)
  ultimately show ?thesis by (simp add: mem_inv_def)
qed

definition fork_done :: system where
  "fork_done = snd (the (sys_fork 0x100300 0x303FCC fork_example))"

lemma fork_done_eq:
  "sys_fork 0x100300 0x303FCC fork_example = Some (2, fork_done)"
  "fork_done = scheduler_enqueue (Some 2) (upd 2 (\<lambda>_. fork_pcb (proc fork_example 1) 2 0x308030 0x30C040) (fork_example\<lparr>kheap_st := stack_heap 4,
     next_pid := next_pid fork_example, mem := fork_mem 0x100300 0x303FCC (ustack (proc fork_example 1)) 0x308030 0x30C040 (mem fork_example)\<rparr>))"
proof -
  let ?s1 = "upd 2 (\<lambda>_. (proc fork_example 1)\<lparr>nxt := None, parent_waiting := False, cpu_ticks := 0, wait_ticks := 0\<rparr>)
         (fork_example\<lparr>kheap_st := stack_heap 4\<rparr>)"
  have lt2: "j = 0 \<or> j = Suc 0" if "j < 2" for j :: nat using that by auto
  have i: "find (\<lambda>i. state (proc fork_example i) = UNUSED) [0..<64] = Some 2"
    unfolding find_upt_Some_iff by (auto simp: pcb_zero_def dest!: lt2)
  have "pid_taken 2 ?s1 1" unfolding pid_taken_def list_ex_iff by (rule bexI [of _ 1]) (simp_all add: pcb_zero_def)
  moreover have "\<not> pid_taken 2 ?s1 2"
  proof -
    have "pid (proc fork_example j) \<noteq> 2" for j
      by (cases "1 < j") (auto simp: pcb_zero_def idle_pcb_def not_less le_Suc_eq)
    then show ?thesis by (auto simp: pid_taken_def list_ex_iff)
  qed
  ultimately have p: "free_pid 2 ?s1 1 = Some 2" by (simp add: free_pid.simps [of _ _ 1] free_pid.simps [of _ _ 2])
  have e: "sys_fork 0x100300 0x303FCC fork_example = Some (sint (2 :: u32), scheduler_enqueue (Some 2)
     (upd 2 (\<lambda>_. fork_pcb (proc fork_example 1) 2 0x308030 0x30C040) (fork_example\<lparr>kheap_st := stack_heap 4,
     next_pid := next_pid fork_example, mem := fork_mem 0x100300 0x303FCC (ustack (proc fork_example 1)) 0x308030 0x30C040 (mem fork_example)\<rparr>)))"
    by (rule sys_fork_made [OF _ _ _ _ _ _ stack_heap_first(4) _ i p]) (simp_all add: stack_heap_first pcb_zero_def)
  show d: "fork_done = scheduler_enqueue (Some 2) (upd 2 (\<lambda>_. fork_pcb (proc fork_example 1) 2 0x308030 0x30C040) (fork_example\<lparr>kheap_st := stack_heap 4,
     next_pid := next_pid fork_example, mem := fork_mem 0x100300 0x303FCC (ustack (proc fork_example 1)) 0x308030 0x30C040 (mem fork_example)\<rparr>))"
    unfolding fork_done_def e option.sel snd_conv ..
  show "sys_fork 0x100300 0x303FCC fork_example = Some (2, fork_done)" unfolding e d by simp
qed

lemma fork_done_aligned: "4 dvd unat (stack_of fork_done x)"
proof -
  obtain j b where x: "x = (j, b)" by (cases x)
  have "kstack (proc fork_done j) = (if j = 2 then 0x308030 else kstack (proc fork_example j))"
      "ustack (proc fork_done j) = (if j = 2 then 0x30C040 else ustack (proc fork_example j))"
    unfolding fork_done_eq(2) by simp_all
  then show ?thesis
    unfolding x by (cases "1 < j") (auto simp: stack_of_def pcb_zero_def idle_pcb_def not_less le_Suc_eq)
qed

theorem sys_fork_all_or_nothing_witness:
  "\<exists>Q'. sched_wf fork_done Q' \<and> mem_inv fork_done {} \<and> (\<exists>i<64. state (proc fork_example i) = UNUSED \<and>
     state (proc fork_done i) = READY \<and> uint (pid (proc fork_done i)) = 2)"
  using sys_fork_all_or_nothing [OF fork_example_wf fork_example_mem, of "0x100300" "0x303FCC"] fork_done_eq(1) by fastforce


section \<open>The dispatcher\<close>

text \<open>The bytes of memory from \<open>str + n\<close> on that \<^verbatim>\<open>write\<close> prints.\<close>

definition user_string :: "(u32 \<Rightarrow> u32) \<Rightarrow> u32 \<Rightarrow> nat \<Rightarrow> string" where
  "user_string m str n = map (\<lambda>b. char_of (unat b)) (takeWhile (\<lambda>b. b \<noteq> 0) (map (\<lambda>i. byte_at m (str + of_nat i)) [n..<4096]))"

lemma write_loop_eq:
  "n \<le> 4096 \<Longrightarrow> write_loop lsr m str n c =
     map_option (Pair (n + length (user_string m str n))) (console_write lsr (user_string m str n) c)"
proof (induction lsr m str n c rule: write_loop.induct)
  case (1 lsr m str n c)
  let ?b = "byte_at m (str + of_nat n)"
  show ?case
  proof (cases "?b \<noteq> 0 \<and> n < 4096")
    case True
    then have u: "user_string m str n = char_of (unat ?b) # user_string m str (Suc n)"
      by (simp add: user_string_def upt_conv_Cons)
    have "write_loop lsr m str (n + 1) c1 =
        map_option (Pair (n + 1 + length (user_string m str (n + 1)))) (console_write lsr (user_string m str (n + 1)) c1)"
      if "console_put_char lsr (char_of (unat ?b)) c = Some c1" for c1
      using 1(1) [OF refl True that] True by simp
    then show ?thesis
      using True by (cases "console_put_char lsr (char_of (unat ?b)) c") (simp_all add: write_loop.simps [of lsr m str n] Let_def u)
  next
    case False
    then have "user_string m str n = []" using 1(2) by (cases "n < 4096") (simp_all add: user_string_def upt_conv_Cons)
    then show ?thesis using False by (subst write_loop.simps) (auto simp: Let_def)
  qed
qed

lemma sys_write_eq:
  "str \<noteq> 0 \<Longrightarrow> sys_write lsr m str c =
     map_option (Pair (int (length (user_string m str 0)))) (console_write lsr (user_string m str 0) c)"
  by (cases "console_write lsr (user_string m str 0) c") (simp_all add: sys_write_def write_loop_eq)

lemma sys_write_returns:
  assumes "console_ok c" and "uart_live lsr"
  shows "\<exists>k c'. sys_write lsr m str c = Some (k, c') \<and> console_ok c' \<and> - 1 \<le> k \<and> k \<le> 4096"
proof (cases "str = 0")
  case True
  then show ?thesis using assms(1) by (simp add: sys_write_def)
next
  case False
  have "length (user_string m str 0) \<le> 4096"
    unfolding user_string_def length_map by (rule order_trans [OF length_takeWhile_le]) (simp only: length_map length_upt)
  then show ?thesis
    using False console_write_spec [OF assms, of "user_string m str 0"] by (auto simp: sys_write_eq)
qed

lemma mem_only:
  "sched_wf (s\<lparr>mem := mm\<rparr>) Q = sched_wf s Q" "mem_inv (s\<lparr>mem := mm\<rparr>) U = mem_inv s U"
proof -
  show "sched_wf (s\<lparr>mem := mm\<rparr>) Q = sched_wf s Q" by (simp add: sched_wf_def sched_inv_def)
  have "stack_of (s\<lparr>mem := mm\<rparr>) = stack_of s" by (simp add: stack_of_def fun_eq_iff)
  then show "mem_inv (s\<lparr>mem := mm\<rparr>) U = mem_inv s U" by (simp add: mem_inv_def)
qed

lemma set_eax_ok [simp]:
  "sched_wf (set_eax r v s) Q = sched_wf s Q" "mem_inv (set_eax r v s) U = mem_inv s U" "started (set_eax r v s) = started s"
  by (simp_all add: set_eax_def mem_only)

lemma wait_same_mem:
  "fst (process_wait s) \<noteq> Waiting \<Longrightarrow> mem (snd (process_wait s)) = mem s"
  by (cases rule: process_wait_cases [of s]) (simp_all add: process_release_def Let_def)

lemma wait_finish_cases:
  assumes "a = 0 \<or> own_word lo a" and "w \<noteq> Waiting \<Longrightarrow> mem s (r + 32) = a"
  obtains s' where "wait_finish r lo (w, s) = Some s'" "\<And>Q. sched_wf s' Q = sched_wf s Q" "\<And>U. mem_inv s' U = mem_inv s U"
proof -
  have st: "\<exists>s'. map_option (set_eax r v) (store_status lo a k s) = Some s' \<and> (\<forall>Q. sched_wf s' Q = sched_wf s Q) \<and> (\<forall>U. mem_inv s' U = mem_inv s U)"
    for v k using assms(1) by (auto simp: store_status_def mem_only)
  show thesis
  proof (cases "w = Waiting")
    case True
    then show thesis using that [of s] by (simp add: wait_finish_def)
  next
    case False
    then obtain v k where "wait_finish r lo (w, s) = map_option (set_eax r v) (store_status lo a k s)"
      using assms(2) by (cases w) (auto simp: wait_finish_def)
    then show thesis using st [of v k] that by auto
  qed
qed


definition wait_example :: system where
  "wait_example = fork_example\<lparr>mem := (mem fork_example)(0x303FEC := 0x304020 + 16, 0x303FF8 := 7)\<rparr>"


text \<open>
  The status pointer of \<^verbatim>\<open>wait\<close> is not checked: with any other pointer the call of a process without children stores there.
\<close>

lemma syscall_wait_any_address:
  assumes "mem s (r + 44) = 7" and "mem s (r + 32) \<noteq> 0" "\<not> own_word (ustack (proc s (cur s))) (mem s (r + 32))"
    and "process_wait s = (No_Children, s)"
  shows "syscall_dispatch lsr ret r (s, c) = None"
  using assms by (simp add: syscall_dispatch_def wait_finish_def store_status_def)

end
