(* ===== verification/VFS.thy ===== *)
theory VFS
  imports CString
begin

text \<open>
  The in-memory file system of \<^verbatim>\<open>fs/vfs.c\<close>: a static pool of 128 nodes, directories that
  hold up to 32 pointers to nodes, and files of at most 4096 bytes.

  A node pointer is an index into the pool, \<open>None\<close> is \<^verbatim>\<open>NULL\<close>. As in the string library an access
  outside an array, or through \<^verbatim>\<open>NULL\<close>, is the result \<open>None\<close> of the operation. The five function
  pointers of a node are set together and always to the \<^verbatim>\<open>ramfs\<close> routines, so that one flag says
  whether they are set. A local array is filled with NULs: the code writes what it reads.
\<close>

section \<open>State\<close>

datatype vfs_node_type = NODE_FILE | NODE_DIRECTORY

record vfs_node =
  vname :: cbuf
  vtype :: vfs_node_type
  inode :: u32
  vlength :: u32
  flags :: u32
  parent :: "nat option"
  children :: "nat option list"
  child_count :: u32
  content :: "u8 list"
  ops :: bool

record vfs_dirent =
  dname :: cbuf
  dinode :: u32

record vfs =
  node_pool :: "nat \<Rightarrow> vfs_node"
  node_pool_bitmap :: "nat \<Rightarrow> bool"
  next_inode :: u32
  vfs_root :: "nat option"
  static_dirent :: vfs_dirent

abbreviation VFS_MAX_NODES :: nat where "VFS_MAX_NODES \<equiv> 128"
abbreviation VFS_MAX_CHILDREN :: u32 where "VFS_MAX_CHILDREN \<equiv> 32"
abbreviation VFS_MAX_FILE_SIZE :: u32 where "VFS_MAX_FILE_SIZE \<equiv> 4096"
abbreviation VFS_NAME_LENGTH :: nat where "VFS_NAME_LENGTH \<equiv> 128"
abbreviation VFS_MAX_PATH_LENGTH :: nat where "VFS_MAX_PATH_LENGTH \<equiv> 256"

definition upd_node :: "nat \<Rightarrow> (vfs_node \<Rightarrow> vfs_node) \<Rightarrow> vfs \<Rightarrow> vfs" where
  "upd_node i f s = s\<lparr>node_pool := (node_pool s)(i := f (node_pool s i))\<rparr>"

text \<open>A string literal and an uninitialised local array.\<close>

definition cstr :: "string \<Rightarrow> cbuf" where
  "cstr t = t @ [NUL]"

abbreviation local_path :: cbuf where
  "local_path \<equiv> replicate VFS_MAX_PATH_LENGTH NUL"

section \<open>The node pool\<close>

definition fresh_node :: "u32 \<Rightarrow> vfs_node" where
  "fresh_node ino =
     \<lparr>vname = replicate VFS_NAME_LENGTH NUL, vtype = NODE_FILE, inode = ino, vlength = 0, flags = 0, parent = None,
      children = replicate 32 None, child_count = 0, content = replicate 4096 0, ops = True\<rparr>"

definition allocate_node :: "vfs \<Rightarrow> nat option \<times> vfs" where
  "allocate_node s =
     (case find (\<lambda>i. \<not> node_pool_bitmap s i) [0..<VFS_MAX_NODES] of
        None \<Rightarrow> (None, s)
      | Some i \<Rightarrow> (Some i, s\<lparr>node_pool_bitmap := (node_pool_bitmap s)(i := True),
                             node_pool := (node_pool s)(i := fresh_node (next_inode s)),
                             next_inode := next_inode s + 1\<rparr>))"

definition free_node :: "nat option \<Rightarrow> vfs \<Rightarrow> vfs" where
  "free_node n s =
     (case find (\<lambda>i. Some i = n) [0..<VFS_MAX_NODES] of
        None \<Rightarrow> s
      | Some i \<Rightarrow> s\<lparr>node_pool_bitmap := (node_pool_bitmap s)(i := False)\<rparr>)"

section \<open>Files\<close>

text \<open>The copying loops; the index \<^verbatim>\<open>offset + i\<close> is computed on 32 bits.\<close>

fun read_loop :: "nat list \<Rightarrow> u32 \<Rightarrow> u8 list \<Rightarrow> u8 list \<Rightarrow> u8 list option" where
  "read_loop [] offset src buffer = Some buffer"
| "read_loop (i # is) offset src buffer =
     (let j = unat (offset + of_nat i)
      in if j < length src \<and> i < length buffer then read_loop is offset src (buffer[i := src ! j]) else None)"

definition ramfs_read :: "nat option \<Rightarrow> u32 \<Rightarrow> u32 \<Rightarrow> u8 list \<Rightarrow> vfs \<Rightarrow> (int \<times> u8 list) option" where
  "ramfs_read n offset sz buffer s =
     (case n of
        None \<Rightarrow> Some (- 1, buffer)
      | Some i \<Rightarrow>
          let p = node_pool s i
          in if vtype p \<noteq> NODE_FILE then Some (- 1, buffer)
             else if offset \<ge> vlength p then Some (0, buffer)
             else let bytes_to_read = (if offset + sz > vlength p then vlength p - offset else sz)
                  in do {
                       b \<leftarrow> read_loop [0..<unat bytes_to_read] offset (content p) buffer;
                       Some (sint bytes_to_read, b) })"

fun write_loop :: "nat list \<Rightarrow> u32 \<Rightarrow> u8 list \<Rightarrow> u8 list \<Rightarrow> u8 list option" where
  "write_loop [] offset dst buffer = Some dst"
| "write_loop (i # is) offset dst buffer =
     (let j = unat (offset + of_nat i)
      in if j < length dst \<and> i < length buffer then write_loop is offset (dst[j := buffer ! i]) buffer else None)"

definition ramfs_write :: "nat option \<Rightarrow> u32 \<Rightarrow> u32 \<Rightarrow> u8 list \<Rightarrow> vfs \<Rightarrow> (int \<times> vfs) option" where
  "ramfs_write n offset sz buffer s =
     (case n of
        None \<Rightarrow> Some (- 1, s)
      | Some i \<Rightarrow>
          if vtype (node_pool s i) \<noteq> NODE_FILE then Some (- 1, s)
          else let sz = (if offset + sz > VFS_MAX_FILE_SIZE then VFS_MAX_FILE_SIZE - offset else sz)
               in do {
                    c \<leftarrow> write_loop [0..<unat sz] offset (content (node_pool s i)) buffer;
                    let s1 = upd_node i (\<lambda>p. p\<lparr>content := c\<rparr>) s;
                    Some (sint sz,
                      if offset + sz > vlength (node_pool s1 i)
                      then upd_node i (\<lambda>p. p\<lparr>vlength := offset + sz\<rparr>) s1 else s1) })"

definition vfs_read :: "nat option \<Rightarrow> u32 \<Rightarrow> u32 \<Rightarrow> u8 list \<Rightarrow> vfs \<Rightarrow> (int \<times> u8 list) option" where
  "vfs_read n offset sz buffer s =
     (if n = None \<or> \<not> ops (node_pool s (the n)) then Some (- 1, buffer) else ramfs_read n offset sz buffer s)"

definition vfs_write :: "nat option \<Rightarrow> u32 \<Rightarrow> u32 \<Rightarrow> u8 list \<Rightarrow> vfs \<Rightarrow> (int \<times> vfs) option" where
  "vfs_write n offset sz buffer s =
     (if n = None \<or> \<not> ops (node_pool s (the n)) then Some (- 1, s) else ramfs_write n offset sz buffer s)"

section \<open>Directories\<close>

definition vfs_get_root :: "vfs \<Rightarrow> nat option" where
  "vfs_get_root s = vfs_root s"

definition vfs_create_node :: "cbuf \<Rightarrow> vfs_node_type \<Rightarrow> vfs \<Rightarrow> (nat option \<times> vfs) option" where
  "vfs_create_node name type s =
     (case allocate_node s of
        (None, s1) \<Rightarrow> Some (None, s1)
      | (Some i, s1) \<Rightarrow> do {
          nm \<leftarrow> string_copy (vname (node_pool s1 i)) name;
          Some (Some i, upd_node i (\<lambda>p. p\<lparr>vname := nm, vtype := type\<rparr>) s1) })"

text \<open>The search loop of \<^verbatim>\<open>vfs_find_node\<close> and \<^verbatim>\<open>vfs_remove_child\<close>: the first matching index.\<close>

fun find_child :: "nat list \<Rightarrow> vfs_node \<Rightarrow> cbuf \<Rightarrow> vfs \<Rightarrow> (nat \<times> nat) option option" where
  "find_child [] p name s = Some None"
| "find_child (i # is) p name s =
     (if length (children p) \<le> i then None
      else case children p ! i of
             None \<Rightarrow> find_child is p name s
           | Some c \<Rightarrow> do {
               r \<leftarrow> string_compare (vname (node_pool s c)) name;
               if r = 0 then Some (Some (i, c)) else find_child is p name s })"

definition vfs_find_node :: "nat option \<Rightarrow> cbuf \<Rightarrow> vfs \<Rightarrow> nat option option" where
  "vfs_find_node n name s =
     (case n of
        None \<Rightarrow> Some None
      | Some d \<Rightarrow>
          let p = node_pool s d
          in if vtype p \<noteq> NODE_DIRECTORY then Some None
             else map_option (map_option snd) (find_child [0..<unat (child_count p)] p name s))"

definition vfs_add_child :: "nat option \<Rightarrow> nat option \<Rightarrow> vfs \<Rightarrow> int \<times> vfs" where
  "vfs_add_child par chi s =
     (case (par, chi) of
        (Some d, Some c) \<Rightarrow>
          if vtype (node_pool s d) \<noteq> NODE_DIRECTORY then (- 1, s)
          else if child_count (node_pool s d) \<ge> VFS_MAX_CHILDREN then (- 1, s)
          else let s1 = upd_node d (\<lambda>p. p\<lparr>children := (children p)[unat (child_count p) := Some c]\<rparr>) s;
                   s2 = upd_node d (\<lambda>p. p\<lparr>child_count := child_count p + 1\<rparr>) s1
               in (0, upd_node c (\<lambda>p. p\<lparr>parent := Some d\<rparr>) s2)
      | _ \<Rightarrow> (- 1, s))"

text \<open>The loop that closes the gap at \<open>i\<close>: \<^verbatim>\<open>for (j = i; j < count - 1; j++) a[j] = a[j + 1]\<close>.\<close>

fun shift_loop :: "nat list \<Rightarrow> 'a list \<Rightarrow> 'a list" where
  "shift_loop [] a = a"
| "shift_loop (j # js) a = shift_loop js (a[j := a ! Suc j])"

definition vfs_remove_child :: "nat option \<Rightarrow> cbuf \<Rightarrow> vfs \<Rightarrow> (int \<times> vfs) option" where
  "vfs_remove_child n name s =
     (case n of
        None \<Rightarrow> Some (- 1, s)
      | Some d \<Rightarrow>
          let p = node_pool s d
          in if vtype p \<noteq> NODE_DIRECTORY then Some (- 1, s)
             else do {
               r \<leftarrow> find_child [0..<unat (child_count p)] p name s;
               case r of
                 None \<Rightarrow> Some (- 1, s)
               | Some (i, c) \<Rightarrow>
                   let s1 = free_node (Some c) s;
                       k = unat (child_count p) - 1
                   in Some (0, upd_node d (\<lambda>p. p\<lparr>children := (shift_loop [i..<k] (children p))[k := None],
                                                  child_count := child_count p - 1\<rparr>) s1) })"

definition ramfs_readdir :: "nat option \<Rightarrow> u32 \<Rightarrow> vfs \<Rightarrow> (bool \<times> vfs) option" where
  "ramfs_readdir n index s =
     (case n of
        None \<Rightarrow> Some (False, s)
      | Some d \<Rightarrow>
          let p = node_pool s d
          in if vtype p \<noteq> NODE_DIRECTORY then Some (False, s)
             else if index \<ge> child_count p then Some (False, s)
             else if length (children p) \<le> unat index then None
             else case children p ! unat index of
                    None \<Rightarrow> Some (False, s)
                  | Some c \<Rightarrow> do {
                      nm \<leftarrow> string_copy (dname (static_dirent s)) (vname (node_pool s c));
                      Some (True, s\<lparr>static_dirent := \<lparr>dname = nm, dinode = inode (node_pool s c)\<rparr>\<rparr>) })"

definition vfs_readdir :: "nat option \<Rightarrow> u32 \<Rightarrow> vfs \<Rightarrow> (bool \<times> vfs) option" where
  "vfs_readdir n index s =
     (if n = None \<or> \<not> ops (node_pool s (the n)) then Some (False, s) else ramfs_readdir n index s)"

text \<open>What \<^verbatim>\<open>console_write\<close> prints of a buffer, and the listing of a directory.\<close>

definition printed :: "cbuf \<Rightarrow> string option" where
  "printed b = (if terminated b then Some (cstring b) else None)"

fun list_loop :: "nat list \<Rightarrow> vfs_node \<Rightarrow> vfs \<Rightarrow> string option" where
  "list_loop [] p s = Some []"
| "list_loop (i # is) p s =
     (if length (children p) \<le> i then None
      else case children p ! i of
             None \<Rightarrow> list_loop is p s
           | Some c \<Rightarrow> do {
               t \<leftarrow> printed (vname (node_pool s c));
               rest \<leftarrow> list_loop is p s;
               Some (t @ (if vtype (node_pool s c) = NODE_DIRECTORY then ''/'' else []) @ ''\<newline>'' @ rest) })"

definition vfs_list_directory :: "nat option \<Rightarrow> vfs \<Rightarrow> string option" where
  "vfs_list_directory n s =
     (if n = None \<or> vtype (node_pool s (the n)) \<noteq> NODE_DIRECTORY then Some ''Not a directory\<newline>''
      else list_loop [0..<unat (child_count (node_pool s (the n)))] (node_pool s (the n)) s)"

section \<open>Paths\<close>

text \<open>
  One component: whether the walk goes on, and from which node. The parent of \<^verbatim>\<open>NULL\<close> is an access
  through \<^verbatim>\<open>NULL\<close>.
\<close>

definition resolve_step :: "vfs \<Rightarrow> nat option \<Rightarrow> cbuf \<Rightarrow> (bool \<times> nat option) option" where
  "resolve_step s current token = do {
     dot \<leftarrow> string_compare token (cstr ''.'');
     if dot = 0 then Some (True, current)
     else do {
       dotdot \<leftarrow> string_compare token (cstr ''..'');
       if dotdot = 0 then
         (case current of
            None \<Rightarrow> None
          | Some c \<Rightarrow> Some (True, if parent (node_pool s c) \<noteq> None then parent (node_pool s c) else current))
       else do {
         next \<leftarrow> vfs_find_node current token s;
         Some (next \<noteq> None, next) } } }"

partial_function (option) resolve_loop :: "vfs \<Rightarrow> nat option \<Rightarrow> nat option \<Rightarrow> tokenizer \<Rightarrow> nat option option" where
  "resolve_loop s token current st =
     (case token of
        None \<Rightarrow> Some current
      | Some p \<Rightarrow>
          Option.bind (resolve_step s current (drop p (tok_buf st)))
            (\<lambda>r. if fst r
                 then Option.bind (string_tokenize None ''/'' st) (\<lambda>t. resolve_loop s (fst t) (snd r) (snd t))
                 else Some None))"

definition vfs_resolve_path :: "cbuf option \<Rightarrow> vfs \<Rightarrow> nat option option" where
  "vfs_resolve_path path s =
     (case path of
        None \<Rightarrow> Some None
      | Some [] \<Rightarrow> None
      | Some (c # cs) \<Rightarrow>
          if c = NUL then Some None
          else if c \<noteq> CHR ''/'' then Some None
          else if cs = [] then None
          else if hd cs = NUL then Some (vfs_root s)
          else do {
            path_copy \<leftarrow> string_copy local_path cs;
            (token, st) \<leftarrow> string_tokenize (Some 0) ''/'' \<lparr>tok_buf = path_copy, tokenize_last = None\<rparr>;
            resolve_loop s token (vfs_root s) st })"

section \<open>Initialisation\<close>

definition motd_text :: string where
  "motd_text = ''Welcome to OpenOS!'' @ [CHR 0x0A] @ ''This is a test file in the filesystem.'' @ [CHR 0x0A]"

text \<open>\<^verbatim>\<open>if (n) vfs_add_child(vfs_root, n);\<close>\<close>

definition add_if :: "nat option \<Rightarrow> vfs \<Rightarrow> vfs" where
  "add_if n s = (if n = None then s else snd (vfs_add_child (vfs_root s) n s))"

definition init_motd :: "nat option \<Rightarrow> vfs \<Rightarrow> vfs option" where
  "init_motd etc s =
     (if etc = None then Some s
      else do {
        (motd, s1) \<leftarrow> vfs_create_node (cstr ''motd.txt'') NODE_FILE s;
        if motd = None then Some s1
        else do {
          len \<leftarrow> string_length (cstr motd_text);
          (w, s2) \<leftarrow> vfs_write motd 0 (of_nat len) (map of_char (cstr motd_text)) s1;
          Some (snd (vfs_add_child etc motd s2)) } })"

definition vfs_init :: "vfs \<Rightarrow> vfs option" where
  "vfs_init s =
     (case allocate_node (s\<lparr>node_pool_bitmap := fold (\<lambda>i b. b(i := False)) [0..<VFS_MAX_NODES] (node_pool_bitmap s)\<rparr>) of
        (None, s1) \<Rightarrow> Some (s1\<lparr>vfs_root := None\<rparr>)
      | (Some r, s1) \<Rightarrow> do {
          nm \<leftarrow> string_copy (vname (node_pool s1 r)) (cstr ''/'');
          let s2 = upd_node r (\<lambda>p. p\<lparr>vname := nm, vtype := NODE_DIRECTORY, parent := Some r\<rparr>) (s1\<lparr>vfs_root := Some r\<rparr>);
          (bin, s3) \<leftarrow> vfs_create_node (cstr ''bin'') NODE_DIRECTORY s2;
          (etc, s4) \<leftarrow> vfs_create_node (cstr ''etc'') NODE_DIRECTORY s3;
          (home, s5) \<leftarrow> vfs_create_node (cstr ''home'') NODE_DIRECTORY s4;
          (tmp, s6) \<leftarrow> vfs_create_node (cstr ''tmp'') NODE_DIRECTORY s5;
          init_motd etc (add_if tmp (add_if home (add_if etc (add_if bin s6)))) })"

section \<open>File contents\<close>

lemma unat_offset: "unat off + i < 2 ^ 32 \<Longrightarrow> unat (off + of_nat i) = unat off + i" for off :: u32
  by (simp add: unat_word_ariths unat_of_nat)

lemma read_loop_upt:
  assumes "n \<le> length buffer" and "unat off + n \<le> length src" and "length src < 2 ^ 32"
  shows "\<exists>b. read_loop [k..<n] off src buffer = Some b \<and> length b = length buffer \<and>
    (\<forall>i < length buffer. b ! i = (if k \<le> i \<and> i < n then src ! (unat off + i) else buffer ! i))"
  using assms(1)
proof (induction "n - k" arbitrary: k buffer)
  case (Suc d)
  then have k: "k < n" "[k..<n] = k # [Suc k..<n]" and d: "d = n - Suc k" by (simp_all add: upt_conv_Cons)
  let ?b = "buffer[k := src ! (unat off + k)]"
  have j: "unat (off + of_nat k) = unat off + k" using k(1) assms(2,3) by (intro unat_offset) simp
  obtain b where b: "read_loop [Suc k..<n] off src ?b = Some b" "length b = length buffer"
      "\<And>i. i < length buffer \<Longrightarrow> b ! i = (if Suc k \<le> i \<and> i < n then src ! (unat off + i) else ?b ! i)"
    using Suc.hyps(1) [OF d, of ?b] Suc.prems by auto
  have "read_loop [k..<n] off src buffer = Some b"
    using b(1) j k assms(2) Suc.prems by (simp add: Let_def)
  then show ?case using b(2,3) k(1) by (auto simp: nth_list_update Suc_le_eq le_eq_less_or_eq [of k])
qed auto

lemma write_loop_upt:
  assumes "n \<le> length buffer" and "unat off + n \<le> length dst" and "length dst < 2 ^ 32"
  shows "\<exists>c. write_loop [k..<n] off dst buffer = Some c \<and> length c = length dst \<and>
    (\<forall>j < length dst. c ! j = (if unat off + k \<le> j \<and> j < unat off + n then buffer ! (j - unat off) else dst ! j))"
  using assms(2,3)
proof (induction "n - k" arbitrary: k dst)
  case (Suc d)
  then have k: "k < n" "[k..<n] = k # [Suc k..<n]" and d: "d = n - Suc k" by (simp_all add: upt_conv_Cons)
  let ?d = "dst[unat off + k := buffer ! k]"
  have j: "unat (off + of_nat k) = unat off + k" using k(1) Suc.prems by (intro unat_offset) simp
  obtain c where c: "write_loop [Suc k..<n] off ?d buffer = Some c" "length c = length dst"
      "\<And>j. j < length dst \<Longrightarrow> c ! j = (if unat off + Suc k \<le> j \<and> j < unat off + n then buffer ! (j - unat off) else ?d ! j)"
    using Suc.hyps(1) [OF d, of ?d] Suc.prems by auto
  have "write_loop [k..<n] off dst buffer = Some c"
    using c(1) j k assms(1) Suc.prems by (simp add: Let_def)
  then show ?case using c(2,3) k(1) by (auto simp: nth_list_update Suc_le_eq le_eq_less_or_eq [of "unat off + k"])
qed auto

text \<open>The shape of a node of the pool: the sizes of its arrays, and the counters within them.\<close>

definition node_ok :: "vfs_node \<Rightarrow> bool" where
  "node_ok p \<longleftrightarrow> length (vname p) = 128 \<and> terminated (vname p) \<and> length (children p) = 32 \<and> unat (child_count p) \<le> 32 \<and>
     length (content p) = 4096 \<and> unat (vlength p) \<le> 4096 \<and> ops p"

lemma upd_node_simps [simp]:
  "node_pool (upd_node i f s) j = (if j = i then f (node_pool s i) else node_pool s j)"
  "node_pool_bitmap (upd_node i f s) = node_pool_bitmap s" "vfs_root (upd_node i f s) = vfs_root s"
  "next_inode (upd_node i f s) = next_inode s" "static_dirent (upd_node i f s) = static_dirent s"
  by (simp_all add: upd_node_def)

lemma sint_u32_small: "unat w < 2 ^ 31 \<Longrightarrow> sint w = int (unat w)" for w :: u32
proof -
  assume "unat w < 2 ^ 31"
  then have "unat w < 2147483648" by simp
  then have "int (unat w) < 2147483648" by linarith
  then have "signed_take_bit 31 (int (unat w)) = int (unat w)"
    by (intro signed_take_bit_int_eq_self) (simp_all del: of_nat_unat)
  then show ?thesis unfolding sint_uint uint_nat by (simp del: of_nat_unat)
qed

text \<open>A write inside the file: the bytes that fit are stored, the file grows at most to the limit.\<close>

lemma ramfs_write_spec:
  assumes p: "node_ok (node_pool s i)" "vtype (node_pool s i) = NODE_FILE"
    and off: "unat off \<le> 4096" "unat off + unat n < 2 ^ 32" "unat n \<le> length buf"
  defines "m \<equiv> min (unat n) (4096 - unat off)"
  obtains c where "vfs_write (Some i) off n buf s =
      Some (int m, upd_node i (\<lambda>p. p\<lparr>content := c, vlength := (if unat off + m > unat (vlength p) then of_nat (unat off + m) else vlength p)\<rparr>) s)"
    "length c = 4096"
    "\<And>j. j < 4096 \<Longrightarrow> c ! j = (if unat off \<le> j \<and> j < unat off + m then buf ! (j - unat off) else content (node_pool s i) ! j)"
proof -
  let ?p = "node_pool s i"
  define w where "w = (if off + n > 4096 then 4096 - off else n)"
  have add: "unat (off + n) = unat off + unat n" using off(2) by (simp add: unat_word_ariths)
  have w: "unat w = m" using off(1) add by (auto simp: w_def m_def word_less_nat_alt unat_sub word_le_nat_alt)
  have m: "unat off + m \<le> 4096" "m \<le> length buf" using off(1,3) by (auto simp: m_def)
  have l: "length (content ?p) = 4096" using p(1) by (simp add: node_ok_def)
  obtain c where c: "write_loop [0..<m] off (content ?p) buf = Some c" "length c = 4096"
      "\<And>j. j < 4096 \<Longrightarrow> c ! j = (if unat off \<le> j \<and> j < unat off + m then buf ! (j - unat off) else content ?p ! j)"
    using write_loop_upt [OF m(2), of off "content ?p" 0] l m(1) by auto
  have ow: "off + w = of_nat (unat off + m)" using w by (metis of_nat_add of_nat_unat ucast_id)
  have uow: "unat (off + w) = unat off + m" using w m(1) by (simp add: unat_word_ariths)
  have s: "sint w = int m" using w m(1) by (simp add: sint_u32_small)
  let ?f = "\<lambda>p. p\<lparr>content := c, vlength := (if unat off + m > unat (vlength p) then of_nat (unat off + m) else vlength p)\<rparr>"
  have "ramfs_write (Some i) off n buf s = Some (int m, upd_node i ?f s)"
    using p(2) c(1) s w uow ow unfolding ramfs_write_def w_def [symmetric]
    by (simp add: Let_def word_less_nat_alt upd_node_def)
  then show thesis using that [OF _ c(2,3)] p(1) by (simp add: vfs_write_def node_ok_def)
qed

text \<open>A read: what the file holds from the offset on, up to its end.\<close>

lemma ramfs_read_spec:
  assumes p: "node_ok (node_pool s i)" "vtype (node_pool s i) = NODE_FILE"
    and off: "unat off + unat n < 2 ^ 32"
  defines "m \<equiv> min (unat n) (unat (vlength (node_pool s i)) - unat off)"
  assumes b: "m \<le> length b"
  shows "vfs_read (Some i) off n b s = Some (int m, take m (drop (unat off) (content (node_pool s i))) @ drop m b)"
proof -
  let ?p = "node_pool s i"
  have l: "length (content ?p) = 4096" "unat (vlength ?p) \<le> 4096" "ops ?p" using p(1) by (simp_all add: node_ok_def)
  show ?thesis
  proof (cases "off \<ge> vlength ?p")
    case True
    then have "m = 0" by (simp add: m_def word_le_nat_alt)
    then show ?thesis using True p(2) l(3) by (simp add: vfs_read_def ramfs_read_def)
  next
    case False
    define w where "w = (if off + n > vlength ?p then vlength ?p - off else n)"
    have add: "unat (off + n) = unat off + unat n" using off by (simp add: unat_word_ariths)
    have w: "unat w = m" using False add
      by (auto simp: w_def m_def word_less_nat_alt unat_sub word_le_nat_alt)
    have m: "unat off + m \<le> 4096" using l(2) False by (auto simp: m_def word_le_nat_alt)
    obtain c where c: "read_loop [0..<m] off (content ?p) b = Some c" "length c = length b"
        "\<And>j. j < length b \<Longrightarrow> c ! j = (if j < m then content ?p ! (unat off + j) else b ! j)"
      using read_loop_upt [OF b, of off "content ?p" 0] l(1) m by auto
    have "length (take m (drop (unat off) (content ?p))) = m" using m l(1) by simp
    then have "c = take m (drop (unat off) (content ?p)) @ drop m b"
      using c(2,3) b m l(1) by (intro nth_equalityI) (simp_all add: nth_append del: length_take)
    moreover have "sint w = int m" using w m by (simp add: sint_u32_small)
    ultimately show ?thesis using c(1) False p(2) l(3) w
      unfolding vfs_read_def ramfs_read_def option.case Let_def w_def [symmetric] by simp
  qed
qed

text \<open>
  C17. What is written is read back: a write at an offset inside the file limit stores the bytes that fit
  below 4096, returns their number, changes no other node, and a read of as many bytes at the same
  offset returns exactly them.
\<close>

theorem vfs_write_read:
  assumes "node_ok (node_pool s i)" and "vtype (node_pool s i) = NODE_FILE"
    and "unat off \<le> 4096" and "unat off + unat n < 2 ^ 32" and "unat n \<le> length buf"
    and "min (unat n) (4096 - unat off) \<le> length b"
  shows "\<exists>s'. let m = min (unat n) (4096 - unat off) in
    vfs_write (Some i) off n buf s = Some (int m, s') \<and> node_ok (node_pool s' i) \<and>
    (\<forall>j. j \<noteq> i \<longrightarrow> node_pool s' j = node_pool s j) \<and>
    vfs_read (Some i) off (of_nat m) b s' = Some (int m, take m buf @ drop m b)"
proof -
  define m where "m = min (unat n) (4096 - unat off)"
  obtain c where c: "vfs_write (Some i) off n buf s =
      Some (int m, upd_node i (\<lambda>p. p\<lparr>content := c, vlength := (if unat off + m > unat (vlength p) then of_nat (unat off + m) else vlength p)\<rparr>) s)"
    "length c = 4096"
    "\<And>j. j < 4096 \<Longrightarrow> c ! j = (if unat off \<le> j \<and> j < unat off + m then buf ! (j - unat off) else content (node_pool s i) ! j)"
    unfolding m_def by (rule ramfs_write_spec [OF assms(1-5)]) blast
  let ?s = "upd_node i (\<lambda>p. p\<lparr>content := c, vlength := (if unat off + m > unat (vlength p) then of_nat (unat off + m) else vlength p)\<rparr>) s"
  have m: "unat off + m \<le> 4096" "m \<le> length buf" using assms(3,5) by (auto simp: m_def)
  then have um: "unat (of_nat m :: u32) = m" "unat (of_nat (unat off + m) :: u32) = unat off + m"
    by (simp_all add: unat_of_nat unat_offset)
  have ok: "node_ok (node_pool ?s i)" using assms(1) c(2) m um(2) by (simp add: node_ok_def)
  have vl: "unat off + m \<le> unat (vlength (node_pool ?s i))" using um(2) by simp
  then have "min (unat (of_nat m :: u32)) (unat (vlength (node_pool ?s i)) - unat off) = m" using um(1) by linarith
  moreover have "take m (drop (unat off) c) = take m buf" using c(2,3) m by (intro nth_equalityI) auto
  ultimately have "vfs_read (Some i) off (of_nat m) b ?s = Some (int m, take m buf @ drop m b)"
    using ramfs_read_spec [OF ok, of off "of_nat m" b] assms(2,6) m um(1) by (simp add: m_def [symmetric])
  then show ?thesis using c(1) ok by (intro exI [of _ ?s]) (simp add: m_def [symmetric] Let_def)
qed

section \<open>Directories as lists of named entries\<close>

definition kids :: "vfs \<Rightarrow> nat \<Rightarrow> nat option list" where
  "kids s d = take (unat (child_count (node_pool s d))) (children (node_pool s d))"

definition nname :: "vfs \<Rightarrow> nat \<Rightarrow> string" where
  "nname s i = cstring (vname (node_pool s i))"

definition entries :: "vfs \<Rightarrow> nat \<Rightarrow> (string \<times> nat) list" where
  "entries s d = (if vtype (node_pool s d) = NODE_DIRECTORY then map (\<lambda>x. (nname s (the x), the x)) (kids s d) else [])"

definition live :: "vfs \<Rightarrow> nat \<Rightarrow> bool" where
  "live s i \<longleftrightarrow> i < 128 \<and> node_pool_bitmap s i"

text \<open>
  Well-formedness. The root is a directory and its own parent; every node in use has the shape of a
  node; the entries of a directory in use have different names and are nodes in use whose parent is
  that directory. A node in use may be in no directory: a failed \<^verbatim>\<open>vfs_add_child\<close> and the removal
  of a directory that is not empty leave such nodes behind.
\<close>

definition dir_ok :: "vfs \<Rightarrow> nat \<Rightarrow> bool" where
  "dir_ok s d \<longleftrightarrow> None \<notin> set (kids s d) \<and> distinct (map fst (entries s d)) \<and>
     (\<forall>c \<in> snd ` set (entries s d). live s c \<and> parent (node_pool s c) = Some d \<and> vfs_root s \<noteq> Some c)"

definition root_ok :: "vfs \<Rightarrow> nat \<Rightarrow> bool" where
  "root_ok s r \<longleftrightarrow> vfs_root s = Some r \<and> live s r \<and> vtype (node_pool s r) = NODE_DIRECTORY \<and> parent (node_pool s r) = Some r"

definition vfs_wf :: "vfs \<Rightarrow> bool" where
  "vfs_wf s \<longleftrightarrow> (\<exists>r. root_ok s r) \<and> length (dname (static_dirent s)) = 128 \<and>
     (\<forall>i. live s i \<longrightarrow> node_ok (node_pool s i)) \<and>
     (\<forall>d. live s d \<longrightarrow> vtype (node_pool s d) = NODE_DIRECTORY \<longrightarrow> dir_ok s d)"

lemma vfs_wfD:
  assumes "vfs_wf s"
  shows "live s i \<Longrightarrow> node_ok (node_pool s i)"
    and "live s d \<Longrightarrow> vtype (node_pool s d) = NODE_DIRECTORY \<Longrightarrow> dir_ok s d"
  using assms by (simp_all add: vfs_wf_def)

lemma kids_nth:
  assumes "node_ok (node_pool s d)" and "dir_ok s d" and "i < unat (child_count (node_pool s d))"
  shows "i < length (children (node_pool s d))" and "children (node_pool s d) ! i = Some (the (kids s d ! i))"
    and "kids s d ! i = Some (the (kids s d ! i))"
proof -
  show i: "i < length (children (node_pool s d))" using assms(1,3) by (simp add: node_ok_def)
  then have k: "children (node_pool s d) ! i = kids s d ! i" "i < length (kids s d)" using assms(1,3) by (simp_all add: kids_def)
  then have "kids s d ! i \<noteq> None" using assms(2) unfolding dir_ok_def by (metis nth_mem)
  then show "children (node_pool s d) ! i = Some (the (kids s d ! i))" "kids s d ! i = Some (the (kids s d ! i))"
    using k(1) by auto
qed

lemma length_kids: "node_ok (node_pool s d) \<Longrightarrow> length (kids s d) = unat (child_count (node_pool s d))"
  by (simp add: kids_def node_ok_def)

lemma find_child_spec:
  assumes "terminated name" and "\<And>i. i \<in> set is \<Longrightarrow> i < length (children p) \<and> children p ! i = Some (f i) \<and> terminated (vname (node_pool s (f i)))"
  shows "find_child is p name s = Some (map_option (\<lambda>i. (i, f i)) (find (\<lambda>i. nname s (f i) = cstring name) is))"
  using assms(2)
proof (induction "is")
  case (Cons i "is")
  have i: "i < length (children p)" "children p ! i = Some (f i)" "terminated (vname (node_pool s (f i)))" using Cons.prems by auto
  obtain r where r: "string_compare (vname (node_pool s (f i))) name = Some r" using string_compare_Some [OF i(3) assms(1)] by auto
  then have "r = 0 \<longleftrightarrow> nname s (f i) = cstring name" using string_compare_zero [OF i(3) assms(1)] by (auto simp: nname_def)
  moreover have "find_child is p name s = Some (map_option (\<lambda>i. (i, f i)) (find (\<lambda>i. nname s (f i) = cstring name) is))"
    by (rule Cons.IH) (use Cons.prems in auto)
  ultimately show ?case using i(1,2) r by simp
qed simp

text \<open>The entry that a name selects: the index found is that of the first entry with the name.\<close>

lemma find_child_dir:
  assumes wf: "vfs_wf s" and d: "live s d" "vtype (node_pool s d) = NODE_DIRECTORY" and "terminated name"
  shows "find_child [0..<unat (child_count (node_pool s d))] (node_pool s d) name s =
    Some (map_option (\<lambda>i. (i, snd (entries s d ! i))) (find (\<lambda>i. fst (entries s d ! i) = cstring name) [0..<length (entries s d)]))"
proof -
  note n = vfs_wfD(1) [OF wf d(1)] and o = vfs_wfD(2) [OF wf d]
  let ?n = "unat (child_count (node_pool s d))" and ?f = "\<lambda>i. the (kids s d ! i)"
  have l: "length (kids s d) = ?n" by (rule length_kids [OF n])
  have e: "entries s d = map (\<lambda>x. (nname s (the x), the x)) (kids s d)" using d(2) by (simp add: entries_def)
  have t: "terminated (vname (node_pool s (?f i)))" if "i < ?n" for i
  proof -
    have "?f i \<in> snd ` set (entries s d)" using that l by (force simp: e)
    then have "live s (?f i)" using o unfolding dir_ok_def by blast
    then show ?thesis using vfs_wfD(1) [OF wf] by (simp add: node_ok_def)
  qed
  have f: "find_child [0..<?n] (node_pool s d) name s =
      Some (map_option (\<lambda>i. (i, ?f i)) (find (\<lambda>i. nname s (?f i) = cstring name) [0..<?n]))"
    by (rule find_child_spec [OF assms(4)]) (use kids_nth [OF n o] t in auto)
  have "find (\<lambda>i. nname s (?f i) = cstring name) [0..<?n] = find (\<lambda>i. fst (entries s d ! i) = cstring name) [0..<length (entries s d)]"
    using l by (intro find_cong) (auto simp: e)
  moreover have "map_option (\<lambda>i. (i, ?f i)) (find P [0..<?n]) = map_option (\<lambda>i. (i, snd (entries s d ! i))) (find P [0..<?n])" for P
    using l find_upt_Some_iff [of P ?n] by (intro option.map_cong refl) (auto simp: e)
  ultimately show ?thesis using f l by (simp add: e)
qed

lemma map_of_find:
  "map_of xs k = map_option (\<lambda>i. snd (xs ! i)) (find (\<lambda>i. fst (xs ! i) = k) [0..<length xs])"
proof (cases "find (\<lambda>i. fst (xs ! i) = k) [0..<length xs]")
  case None
  then have "\<forall>i<length xs. fst (xs ! i) \<noteq> k" by (simp add: find_upt_None_iff)
  then have "k \<notin> fst ` set xs" by (metis imageE in_set_conv_nth)
  then show ?thesis using None by (simp add: map_of_eq_None_iff)
next
  case (Some i)
  then have i: "i < length xs" "fst (xs ! i) = k" "\<And>j. j < i \<Longrightarrow> fst (xs ! j) \<noteq> k" by (auto simp: find_upt_Some_iff)
  have x: "take i xs @ xs ! i # drop (Suc i) xs = xs" by (rule id_take_nth_drop [OF i(1), symmetric])
  have "k \<notin> fst ` set (take i xs)"
    by (metis (no_types, lifting) i(3) imageE in_set_conv_nth length_take min_less_iff_conj nth_take)
  then have "map_of (take i xs) k = None" by (simp add: map_of_eq_None_iff)
  then have "map_of (take i xs @ xs ! i # drop (Suc i) xs) k = Some (snd (xs ! i))"
    using i(2) by (cases "xs ! i") (simp add: map_add_def)
  then have "map_of xs k = Some (snd (xs ! i))" by (simp only: x)
  then show ?thesis using Some by simp
qed

lemma vfs_find_node_spec:
  assumes "vfs_wf s" and "live s d" and "terminated name"
  shows "vfs_find_node (Some d) name s = Some (map_of (entries s d) (cstring name))"
proof (cases "vtype (node_pool s d) = NODE_DIRECTORY")
  case True
  then show ?thesis using find_child_dir [OF assms(1,2) True assms(3)] map_of_find [of "entries s d" "cstring name"]
    by (simp add: vfs_find_node_def option.map_comp comp_def)
qed (simp add: vfs_find_node_def entries_def)

section \<open>The operations keep the tree\<close>

text \<open>Two states with the same entries and nodes, as far as well-formedness can see.\<close>

lemma entries_cong:
  assumes "vtype (node_pool t d) = vtype (node_pool s d)" and "child_count (node_pool t d) = child_count (node_pool s d)"
    and "children (node_pool t d) = children (node_pool s d)" and "\<And>c. Some c \<in> set (kids s d) \<Longrightarrow> nname t c = nname s c"
    and "None \<notin> set (kids s d)"
  shows "kids t d = kids s d" and "entries t d = entries s d"
proof -
  show k: "kids t d = kids s d" using assms(2,3) by (simp add: kids_def)
  have "nname t (the x) = nname s (the x)" if "x \<in> set (kids s d)" for x
    using assms(4) [of "the x"] assms(5) that by (cases x) auto
  then show "entries t d = entries s d" using assms(1) k by (simp add: entries_def)
qed

lemma kids_entries: "vtype (node_pool s d) = NODE_DIRECTORY \<Longrightarrow> Some c \<in> set (kids s d) \<Longrightarrow> c \<in> snd ` set (entries s d)"
  by (force simp: entries_def)

lemma entries_name: "(n, x) \<in> set (entries s d) \<Longrightarrow> n = nname s x"
  by (auto simp: entries_def split: if_splits)

text \<open>Changing the contents of a file, or any node's length, flags and content.\<close>

lemma update_node_wf:
  assumes wf: "vfs_wf s" and f: "vname (f (node_pool s i)) = vname (node_pool s i)" "vtype (f (node_pool s i)) = vtype (node_pool s i)"
      "parent (f (node_pool s i)) = parent (node_pool s i)" "children (f (node_pool s i)) = children (node_pool s i)"
      "child_count (f (node_pool s i)) = child_count (node_pool s i)" "node_ok (node_pool s i) \<Longrightarrow> node_ok (f (node_pool s i))"
  shows "vfs_wf (upd_node i f s)" and "entries (upd_node i f s) d = entries s d"
proof -
  let ?t = "upd_node i f s"
  have nn: "nname ?t c = nname s c" for c using f(1) by (simp add: nname_def)
  have k: "kids ?t d = kids s d" for d using f(4,5) by (simp add: kids_def)
  show e: "entries ?t d = entries s d" for d using f(2) k nn by (simp add: entries_def)
  have l: "live ?t c = live s c" for c by (simp add: live_def)
  have p: "parent (node_pool ?t c) = parent (node_pool s c)" "vtype (node_pool ?t c) = vtype (node_pool s c)"
    "node_ok (node_pool s c) \<Longrightarrow> node_ok (node_pool ?t c)" for c using f by auto
  have D: "dir_ok ?t d = dir_ok s d" "root_ok ?t r = root_ok s r" for d r
    unfolding dir_ok_def root_ok_def e l k p by simp_all
  show "vfs_wf ?t" using wf p(3) unfolding vfs_wf_def l D p(2) by simp
qed

lemma vfs_write_wf:
  assumes "vfs_wf s" and "live s i" and "unat off \<le> 4096" "unat off + unat n < 2 ^ 32" "unat n \<le> length buf"
  obtains r s' where "vfs_write (Some i) off n buf s = Some (r, s')" "vfs_wf s'" "\<And>d. entries s' d = entries s d"
    "\<And>j. live s' j = live s j"
proof (cases "vtype (node_pool s i)")
  case NODE_FILE
  note ok = vfs_wfD(1) [OF assms(1,2)]
  define m where "m = min (unat n) (4096 - unat off)"
  let ?f = "\<lambda>c p. p\<lparr>content := c, vlength := (if unat off + m > unat (vlength p) then of_nat (unat off + m) else vlength p)\<rparr>"
  obtain c where c: "vfs_write (Some i) off n buf s = Some (int m, upd_node i (?f c) s)" "length c = 4096"
    unfolding m_def by (rule ramfs_write_spec [OF ok NODE_FILE assms(3-5)]) blast
  have "unat off + m \<le> 4096" using assms(3) by (auto simp: m_def)
  then have "unat (of_nat (unat off + m) :: u32) \<le> 4096" by (simp add: unat_offset)
  then have "node_ok (?f c (node_pool s i))" using c(2) ok by (simp add: node_ok_def)
  then show thesis using update_node_wf [OF assms(1), of "?f c" i] by (intro that [OF c(1)]) (simp_all add: live_def)
next
  case NODE_DIRECTORY
  then have "vfs_write (Some i) off n buf s = Some (- 1, s)" by (simp add: vfs_write_def ramfs_write_def)
  then show thesis by (rule that) (simp_all add: assms(1))
qed

lemma allocate_cases:
  obtains (full) "allocate_node s = (None, s)" "\<And>i. i < 128 \<Longrightarrow> live s i"
    | (slot) i where "i < 128" "\<not> live s i" "\<And>j. j < i \<Longrightarrow> live s j"
        "allocate_node s = (Some i, s\<lparr>node_pool_bitmap := (node_pool_bitmap s)(i := True),
           node_pool := (node_pool s)(i := fresh_node (next_inode s)), next_inode := next_inode s + 1\<rparr>)"
proof (cases "find (\<lambda>i. \<not> node_pool_bitmap s i) [0..<128]")
  case None
  then have "\<And>i. i < 128 \<Longrightarrow> live s i" by (simp add: find_upt_None_iff live_def)
  then show thesis using full None by (simp add: allocate_node_def)
next
  case (Some i)
  then have "i < 128" "\<not> live s i" "\<And>j. j < i \<Longrightarrow> live s j" by (auto simp: find_upt_Some_iff live_def)
  then show thesis using slot Some by (simp add: allocate_node_def)
qed

lemma fresh_node_simps [simp]:
  "vname (fresh_node k) = replicate 128 NUL" "children (fresh_node k) = replicate 32 None" "child_count (fresh_node k) = 0"
  "parent (fresh_node k) = None" "vtype (fresh_node k) = NODE_FILE" "inode (fresh_node k) = k" "vlength (fresh_node k) = 0"
  "content (fresh_node k) = replicate 4096 0" "ops (fresh_node k)"
  by (simp_all add: fresh_node_def)

text \<open>A node in use that is in no directory.\<close>

definition orphan :: "vfs \<Rightarrow> nat \<Rightarrow> bool" where
  "orphan s c \<longleftrightarrow> live s c \<and> vfs_root s \<noteq> Some c \<and> (\<forall>d. live s d \<longrightarrow> c \<notin> snd ` set (entries s d))"

definition created :: "vfs \<Rightarrow> nat \<Rightarrow> cbuf \<Rightarrow> vfs_node_type \<Rightarrow> vfs" where
  "created s c nm type = s\<lparr>node_pool_bitmap := (node_pool_bitmap s)(c := True),
     node_pool := (node_pool s)(c := (fresh_node (next_inode s))\<lparr>vname := nm, vtype := type\<rparr>), next_inode := next_inode s + 1\<rparr>"

lemma create_cases:
  assumes "terminated name" and "length (cstring name) < 128"
  obtains (full) "vfs_create_node name type s = Some (None, s)" "\<And>i. i < 128 \<Longrightarrow> live s i"
    | (node) c nm where "vfs_create_node name type s = Some (Some c, created s c nm type)" "c < 128" "\<not> live s c"
        "\<And>j. j < c \<Longrightarrow> live s j" "terminated nm" "length nm = 128" "cstring nm = cstring name"
proof (cases s rule: allocate_cases)
  case full
  then show thesis using that(1) by (simp add: vfs_create_node_def)
next
  case (slot c)
  define nm where "nm = cstring name @ NUL # drop (Suc (length (cstring name))) (replicate 128 NUL)"
  have nm: "string_copy (replicate 128 NUL) name = Some nm"
    using string_copy_eq [OF assms(1), of "replicate 128 NUL"] assms(2) by (simp add: nm_def)
  have "vfs_create_node name type s = Some (Some c, created s c nm type)"
    using slot(4) nm by (simp add: vfs_create_node_def created_def upd_node_def)
  then show thesis
    by (rule that(2)) (use slot assms(2) in \<open>simp_all add: nm_def\<close>)
qed

lemma created_wf:
  fixes type :: vfs_node_type
  assumes wf: "vfs_wf s" and c: "c < 128" "\<not> live s c" and nm: "terminated nm" "length nm = 128"
  defines "t \<equiv> created s c nm type"
  shows "vfs_wf t" "orphan t c" "nname t c = cstring nm" "live t i \<longleftrightarrow> i = c \<or> live s i" "entries t c = []"
    "i \<noteq> c \<Longrightarrow> node_pool t i = node_pool s i" "live s d \<Longrightarrow> entries t d = entries s d" "vfs_root t = vfs_root s"
    "vtype (node_pool t c) = type" "child_count (node_pool t c) = 0" "vlength (node_pool t c) = 0"
proof -
  obtain r where r: "root_ok s r" using wf by (auto simp: vfs_wf_def)
  show live: "live t i \<longleftrightarrow> i = c \<or> live s i" for i using c(1) by (auto simp: t_def created_def live_def)
  show other: "i \<noteq> c \<Longrightarrow> node_pool t i = node_pool s i" for i by (simp add: t_def created_def)
  have nc: "i \<noteq> c" if "live s i" for i using that c(2) by auto
  have node: "node_pool t c = (fresh_node (next_inode s))\<lparr>vname := nm, vtype := type\<rparr>" by (simp add: t_def created_def)
  then show "nname t c = cstring nm" "vtype (node_pool t c) = type" "child_count (node_pool t c) = 0" "vlength (node_pool t c) = 0"
    and kc: "entries t c = []" by (simp_all add: nname_def entries_def kids_def)
  have dc: "dir_ok t c" using node kc by (simp add: dir_ok_def kids_def)
  have okc: "node_ok (node_pool t c)" using node nm by (simp add: node_ok_def)
  show root: "vfs_root t = vfs_root s" by (simp add: t_def created_def)
  have ke: "kids t d = kids s d" "entries t d = entries s d" if "live s d" for d
  proof -
    show "kids t d = kids s d" using other [OF nc [OF that]] by (simp add: kids_def)
    show "entries t d = entries s d"
    proof (cases "vtype (node_pool s d) = NODE_DIRECTORY")
      case True
      then have o: "dir_ok s d" by (rule vfs_wfD(2) [OF wf that])
      show ?thesis
      proof (rule entries_cong(2))
        fix x assume "Some x \<in> set (kids s d)"
        then have "live s x" using kids_entries [OF True] o unfolding dir_ok_def by blast
        then show "nname t x = nname s x" using other [OF nc] by (simp add: nname_def)
      qed (use other [OF nc [OF that]] o in \<open>simp_all add: dir_ok_def\<close>)
    next
      case False
      then show ?thesis using other [OF nc [OF that]] by (simp add: entries_def)
    qed
  qed
  then show "live s d \<Longrightarrow> entries t d = entries s d" by simp
  have dok: "dir_ok t d" if "live s d" "vtype (node_pool s d) = NODE_DIRECTORY" for d
    using vfs_wfD(2) [OF wf that] live other nc ke [OF that(1)] root unfolding dir_ok_def by (metis (full_types))
  have "root_ok t r" using r live other [OF nc] root by (simp add: root_ok_def)
  moreover have "length (dname (static_dirent t)) = 128" using wf by (simp add: vfs_wf_def t_def created_def)
  moreover have "node_ok (node_pool t i)" if "live t i" for i
    using that live okc other vfs_wfD(1) [OF wf] by (cases "i = c") auto
  moreover have "dir_ok t d" if "live t d" "vtype (node_pool t d) = NODE_DIRECTORY" for d
    using that live dc other dok by (cases "d = c") auto
  ultimately show "vfs_wf t" unfolding vfs_wf_def by blast
  have "c \<notin> snd ` set (entries t d)" if "live t d" for d
  proof (cases "d = c \<or> vtype (node_pool s d) \<noteq> NODE_DIRECTORY")
    case True
    then show ?thesis using kc ke(2) [of d] live [of d] that by (auto simp: entries_def)
  next
    case False
    then have "live s d" using that live by simp
    then show ?thesis using vfs_wfD(2) [OF wf, of d] False ke(2) c(2) unfolding dir_ok_def by auto
  qed
  moreover have "vfs_root t \<noteq> Some c" using r root c(2) by (auto simp: root_ok_def)
  ultimately show "orphan t c" using live by (simp add: orphan_def)
qed

text \<open>Linking an orphan into a directory that has room and no entry of that name.\<close>

lemma add_child_wf:
  assumes wf: "vfs_wf s" and d: "live s d" "vtype (node_pool s d) = NODE_DIRECTORY" and c: "orphan s c" "c \<noteq> d"
    and room: "child_count (node_pool s d) < 32" and new: "nname s c \<notin> fst ` set (entries s d)"
  obtains t where "vfs_add_child (Some d) (Some c) s = (0, t)" "vfs_wf t" "entries t d = entries s d @ [(nname s c, c)]"
    "\<And>e. live s e \<Longrightarrow> e \<noteq> d \<Longrightarrow> entries t e = entries s e" "\<And>i. live t i = live s i" "vfs_root t = vfs_root s"
    "\<And>i. nname t i = nname s i" "\<And>i. vtype (node_pool t i) = vtype (node_pool s i)"
    "\<And>i. content (node_pool t i) = content (node_pool s i) \<and> vlength (node_pool t i) = vlength (node_pool s i)"
    "\<And>i. i \<noteq> d \<Longrightarrow> child_count (node_pool t i) = child_count (node_pool s i)"
proof -
  define t where "t = upd_node c (\<lambda>p. p\<lparr>parent := Some d\<rparr>)
    (upd_node d (\<lambda>p. p\<lparr>children := (children p)[unat (child_count p) := Some c], child_count := child_count p + 1\<rparr>) s)"
  have add: "vfs_add_child (Some d) (Some c) s = (0, t)"
    using d(2) room c(2) by (simp add: vfs_add_child_def t_def Let_def upd_node_def)
  let ?p = "node_pool s d" and ?n = "unat (child_count (node_pool s d))"
  have ok: "node_ok ?p" by (rule vfs_wfD(1) [OF wf d(1)])
  have n: "?n < 32" "length (children ?p) = 32" using room ok by (simp_all add: word_less_nat_alt node_ok_def)
  then have n1: "unat (child_count ?p + 1) = Suc ?n" by (simp add: unat_word_ariths)
  have node: "node_pool t i = (if i = c then (node_pool s c)\<lparr>parent := Some d\<rparr> else if i = d then
      ?p\<lparr>children := (children ?p)[?n := Some c], child_count := child_count ?p + 1\<rparr> else node_pool s i)" for i
    using c(2) by (simp add: t_def)
  have nn: "nname t i = nname s i" and ty: "vtype (node_pool t i) = vtype (node_pool s i)"
    and lv: "live t i = live s i" and rt: "vfs_root t = vfs_root s"
    and cc: "i \<noteq> d \<Longrightarrow> child_count (node_pool t i) = child_count (node_pool s i)" for i
    using c(2) by (auto simp: nname_def node t_def live_def)
  have kd: "kids t d = kids s d @ [Some c]"
    using c(2) n by (simp add: kids_def node n1 take_Suc_conv_app_nth)
  have ke: "kids t e = kids s e" if "e \<noteq> d" for e using that by (simp add: kids_def node)
  have ed: "entries t d = entries s d @ [(nname s c, c)]" using kd d(2) nn ty by (simp add: entries_def)
  have ee: "entries t e = entries s e" if "e \<noteq> d" for e using ke [OF that] nn ty by (simp add: entries_def)
  have pp: "parent (node_pool t i) = (if i = c then Some d else parent (node_pool s i))" for i by (simp add: node)
  obtain r where r: "root_ok s r" using wf by (auto simp: vfs_wf_def)
  have "r \<noteq> c" using c(1) r by (auto simp: orphan_def root_ok_def)
  then have "root_ok t r" using r pp by (simp add: root_ok_def lv rt ty)
  moreover have "length (dname (static_dirent t)) = 128" using wf by (simp add: vfs_wf_def t_def)
  moreover have "node_ok (node_pool t i)" if "live t i" for i
    using vfs_wfD(1) [OF wf that [unfolded lv]] n n1 by (auto simp: node node_ok_def)
  moreover have "dir_ok t e" if "live t e" "vtype (node_pool t e) = NODE_DIRECTORY" for e
  proof -
    have e: "live s e" "vtype (node_pool s e) = NODE_DIRECTORY" using that lv ty by auto
    note o = vfs_wfD(2) [OF wf e]
    have nc: "c \<notin> snd ` set (entries s e)" using c(1) e(1) by (simp add: orphan_def)
    show ?thesis
    proof (cases "e = d")
      case True
      then show ?thesis using o new nc c(1) unfolding dir_ok_def True ed kd by (auto simp: lv pp rt orphan_def)
    next
      case False
      then show ?thesis using o nc unfolding dir_ok_def ee [OF False] ke [OF False] lv rt pp by auto
    qed
  qed
  ultimately have "vfs_wf t" unfolding vfs_wf_def by blast
  then show thesis using that [OF add _ ed ee lv rt nn ty _ cc] by (simp add: node)
qed

lemma add_child_full:
  "vtype (node_pool s d) = NODE_DIRECTORY \<Longrightarrow> \<not> child_count (node_pool s d) < 32 \<Longrightarrow> vfs_add_child (Some d) (Some c) s = (- 1, s)"
  by (simp add: vfs_add_child_def not_less)

text \<open>Closing the gap in the array of children.\<close>

lemma shift_loop_upt:
  "i \<le> k \<Longrightarrow> k < length a \<Longrightarrow> length (shift_loop [i..<k] a) = length a \<and>
    (\<forall>j<length a. shift_loop [i..<k] a ! j = (if i \<le> j \<and> j < k then a ! Suc j else a ! j))"
proof (induction "k - i" arbitrary: i a)
  case (Suc m)
  then have k: "i < k" "[i..<k] = i # [Suc i..<k]" and m: "m = k - Suc i" by (simp_all add: upt_conv_Cons)
  have "length (shift_loop [Suc i..<k] (a[i := a ! Suc i])) = length a \<and>
      (\<forall>j<length a. shift_loop [Suc i..<k] (a[i := a ! Suc i]) ! j = (if Suc i \<le> j \<and> j < k then a[i := a ! Suc i] ! Suc j else a[i := a ! Suc i] ! j))"
    using Suc.hyps(1) [OF m, of "a[i := a ! Suc i]"] Suc.prems k(1) by simp
  then show ?case using k by (auto simp: nth_list_update Suc_le_eq le_eq_less_or_eq [of i])
qed auto

lemma shift_loop_take:
  assumes "i \<le> k" and "k < length a"
  shows "take k ((shift_loop [i..<k] a)[k := x]) = take i a @ drop (Suc i) (take (Suc k) a)"
proof -
  note S = shift_loop_upt [OF assms]
  show ?thesis using S assms by (intro nth_equalityI) (auto simp: nth_append)
qed

lemma free_node_simps [simp]:
  "node_pool (free_node n s) = node_pool s" "vfs_root (free_node n s) = vfs_root s"
  "static_dirent (free_node n s) = static_dirent s"
  by (simp_all add: free_node_def split: option.split)

lemma live_free: "live (free_node (Some c) s) i \<longleftrightarrow> live s i \<and> i \<noteq> c"
proof (cases "find (\<lambda>i. Some i = Some c) [0..<128]")
  case None
  then have "\<not> c < 128" by (auto simp: find_upt_None_iff)
  then show ?thesis using None by (auto simp: free_node_def live_def)
next
  case (Some j)
  then have "j = c" by (simp add: find_upt_Some_iff)
  then show ?thesis using Some by (auto simp: free_node_def live_def)
qed

lemma distinct_keys_remove:
  assumes "distinct (map fst xs)" and "i < length xs"
  shows "take i xs @ drop (Suc i) xs = filter (\<lambda>e. fst e \<noteq> fst (xs ! i)) xs"
proof -
  have x: "xs = take i xs @ xs ! i # drop (Suc i) xs" by (rule id_take_nth_drop [OF assms(2)])
  have "distinct (map fst (take i xs @ xs ! i # drop (Suc i) xs))" using assms(1) x by simp
  then have "filter (\<lambda>e. fst e \<noteq> fst (xs ! i)) (take i xs) = take i xs"
      "filter (\<lambda>e. fst e \<noteq> fst (xs ! i)) (drop (Suc i) xs) = drop (Suc i) xs"
    by (auto intro!: filter_True simp: rev_image_eqI)
  then have "filter (\<lambda>e. fst e \<noteq> fst (xs ! i)) (take i xs @ xs ! i # drop (Suc i) xs) = take i xs @ drop (Suc i) xs"
    by simp
  then show ?thesis by (simp only: x [symmetric])
qed

text \<open>Removing an entry: it disappears from its directory, its node is free again, all else is as before.\<close>

lemma remove_child_wf:
  assumes wf: "vfs_wf s" and d: "live s d" "vtype (node_pool s d) = NODE_DIRECTORY" and tn: "terminated name"
    and c: "map_of (entries s d) (cstring name) = Some c"
  obtains t where "vfs_remove_child (Some d) name s = Some (0, t)" "vfs_wf t"
    "entries t d = filter (\<lambda>e. fst e \<noteq> cstring name) (entries s d)"
    "\<And>e. e \<noteq> d \<Longrightarrow> entries t e = entries s e" "\<And>i. live t i \<longleftrightarrow> live s i \<and> i \<noteq> c" "vfs_root t = vfs_root s"
    "\<And>i. i \<noteq> d \<Longrightarrow> node_pool t i = node_pool s i"
proof -
  let ?p = "node_pool s d" and ?n = "unat (child_count (node_pool s d))" and ?E = "entries s d"
  note ok = vfs_wfD(1) [OF wf d(1)] and o = vfs_wfD(2) [OF wf d]
  have E: "?E = map (\<lambda>x. (nname s (the x), the x)) (kids s d)" using d(2) by (simp add: entries_def)
  have len: "length ?E = ?n" using length_kids [OF ok] E by simp
  obtain i where i: "find (\<lambda>i. fst (?E ! i) = cstring name) [0..<length ?E] = Some i" "snd (?E ! i) = c"
    using c by (auto simp: map_of_find)
  then have ib: "i < length ?E" "fst (?E ! i) = cstring name" by (simp_all add: find_upt_Some_iff)
  define k where "k = ?n - 1"
  have k: "i \<le> k" "Suc k = ?n" "k < length (children ?p)" using ib(1) len ok by (auto simp: k_def node_ok_def)
  define t where "t = upd_node d (\<lambda>p. p\<lparr>children := (shift_loop [i..<k] (children p))[k := None], child_count := child_count p - 1\<rparr>) (free_node (Some c) s)"
  have rm: "vfs_remove_child (Some d) name s = Some (0, t)"
    using d(2) find_child_dir [OF wf d tn] i by (simp add: vfs_remove_child_def t_def k_def Let_def)
  have cn: "unat (child_count ?p - 1) = k" using k(2) by (simp add: unat_sub word_le_nat_alt)
  have kd: "kids t d = take i (kids s d) @ drop (Suc i) (kids s d)"
    using shift_loop_take [OF k(1,3), of None] k(1,2) by (simp add: kids_def t_def cn min_absorb1)
  have nn: "nname t j = nname s j" and ty: "vtype (node_pool t j) = vtype (node_pool s j)"
    and pp: "parent (node_pool t j) = parent (node_pool s j)" and rt: "vfs_root t = vfs_root s"
    and lv: "live t j \<longleftrightarrow> live s j \<and> j \<noteq> c" and other: "j \<noteq> d \<Longrightarrow> node_pool t j = node_pool s j" for j
    using live_free [of c s j] by (simp_all add: nname_def t_def live_def)
  have ed: "entries t d = filter (\<lambda>e. fst e \<noteq> cstring name) ?E"
    using distinct_keys_remove [OF _ ib(1)] o ib(2) d(2) kd nn ty
    by (simp add: dir_ok_def) (simp add: entries_def take_map drop_map)
  have ee: "entries t e = entries s e" if "e \<noteq> d" for e using other [OF that] nn by (simp add: entries_def kids_def)
  have cE: "(cstring name, c) \<in> set ?E" using map_of_SomeD [OF c] .
  then have cd: "live s c" "parent (node_pool s c) = Some d" "vfs_root s \<noteq> Some c" using o unfolding dir_ok_def by force+
  obtain r where r: "root_ok s r" using wf by (auto simp: vfs_wf_def)
  then have "root_ok t r" using cd(3) by (auto simp: root_ok_def lv ty pp rt)
  moreover have "length (dname (static_dirent t)) = 128" using wf by (simp add: vfs_wf_def t_def)
  moreover have "node_ok (node_pool t j)" if "live t j" for j
  proof (cases "j = d")
    case True
    have "length (shift_loop [i..<k] (children ?p)) = length (children ?p)" using shift_loop_upt [OF k(1,3)] by simp
    then show ?thesis using True ok cn k(3) by (simp add: node_ok_def t_def)
  next
    case False
    then show ?thesis using vfs_wfD(1) [OF wf] that lv other by simp
  qed
  moreover have "dir_ok t e" if "live t e" "vtype (node_pool t e) = NODE_DIRECTORY" for e
  proof -
    have e: "live s e" "vtype (node_pool s e) = NODE_DIRECTORY" using that lv ty by auto
    note oe = vfs_wfD(2) [OF wf e]
    show ?thesis
    proof (cases "e = d")
      case True
      have "None \<notin> set (kids t d)" using oe True unfolding kd dir_ok_def by (auto dest: in_set_takeD in_set_dropD)
      moreover have "x \<noteq> c" if "x \<in> snd ` set (entries t d)" for x
        using that cE unfolding ed by (auto dest!: entries_name)
      ultimately show ?thesis using oe unfolding dir_ok_def True ed lv pp rt
        by (auto simp: distinct_map_filter)
    next
      case False
      have "c \<notin> snd ` set (entries s e)" using oe cd(2) False unfolding dir_ok_def by auto
      then show ?thesis using oe other [OF False] unfolding dir_ok_def ee [OF False] lv pp rt
        by (auto simp: kids_def)
    qed
  qed
  ultimately have "vfs_wf t" unfolding vfs_wf_def by blast
  then show thesis using that [OF rm _ ed ee lv rt other] by simp
qed

end
