(* ===== verification/VFS_Path.thy ===== *)
theory VFS_Path
  imports VFS Shell
begin

text \<open>
  Paths of the file system: the nodes reachable from the root, path resolution as a walk along a list
  of names, the state after initialisation, and every sequence of file operations.
\<close>

lemma map_of_snoc: "k \<notin> fst ` set xs \<Longrightarrow> map_of (xs @ [(k, v)]) = (map_of xs)(k \<mapsto> v)"
  by (induction xs) (auto simp: fun_upd_twist)

lemma map_of_delete: "map_of (filter (\<lambda>e. fst e \<noteq> k) xs) = (map_of xs)(k := None)"
  by (induction xs) (auto simp: fun_eq_iff)

section \<open>Nodes reachable from the root\<close>

inductive reach :: "vfs \<Rightarrow> nat \<Rightarrow> bool" for s where
  root: "vfs_root s = Some r \<Longrightarrow> reach s r"
| child: "reach s d \<Longrightarrow> (n, c) \<in> set (entries s d) \<Longrightarrow> reach s c"

lemma entry_dir: "(n, c) \<in> set (entries s d) \<Longrightarrow> vtype (node_pool s d) = NODE_DIRECTORY"
  by (auto simp: entries_def split: if_splits)

lemma entry_facts:
  assumes "vfs_wf s" and "live s d" and "(n, c) \<in> set (entries s d)"
  shows "live s c" and "parent (node_pool s c) = Some d" and "vfs_root s \<noteq> Some c" and "n = nname s c"
  using vfs_wfD(2) [OF assms(1,2) entry_dir [OF assms(3)]] assms(3) entries_name [OF assms(3)]
  unfolding dir_ok_def by force+

lemma reach_live:
  assumes "vfs_wf s" and "reach s i"
  shows "live s i"
  using assms(2)
proof (induction rule: reach.induct)
  case (root r)
  then show ?case using assms(1) by (auto simp: vfs_wf_def root_ok_def)
next
  case (child d n c)
  then show ?case using entry_facts(1) [OF assms(1)] by blast
qed

lemma reach_parent:
  assumes "vfs_wf s" and "reach s i"
  obtains p where "parent (node_pool s i) = Some p" "reach s p"
  using assms(2)
proof (cases rule: reach.cases)
  case root
  then have "parent (node_pool s i) = Some i" using assms(1) by (auto simp: vfs_wf_def root_ok_def)
  then show thesis using that assms(2) by blast
next
  case (child d n)
  then show thesis using entry_facts(2) [OF assms(1) reach_live [OF assms(1)]] that by blast
qed

section \<open>Resolution as a walk\<close>

text \<open>The reference: one component, and a list of them.\<close>

definition go :: "vfs \<Rightarrow> nat \<Rightarrow> string \<Rightarrow> nat option" where
  "go s c t = (if t = ''.'' then Some c else if t = ''..'' then parent (node_pool s c) else map_of (entries s c) t)"

fun walk :: "vfs \<Rightarrow> nat \<Rightarrow> string list \<Rightarrow> nat option" where
  "walk s c [] = Some c"
| "walk s c (t # ts) = (case go s c t of None \<Rightarrow> None | Some n \<Rightarrow> walk s n ts)"

lemma walk_append: "walk s c (xs @ ys) = Option.bind (walk s c xs) (\<lambda>d. walk s d ys)"
  by (induction xs arbitrary: c) (auto split: option.split)

lemma go_reach: "vfs_wf s \<Longrightarrow> reach s c \<Longrightarrow> go s c t = Some n \<Longrightarrow> reach s n"
  by (auto simp: go_def elim: reach_parent intro: reach.child dest!: map_of_SomeD split: if_splits)

lemma walk_reach: "vfs_wf s \<Longrightarrow> reach s c \<Longrightarrow> walk s c ts = Some n \<Longrightarrow> reach s n"
  by (induction ts arbitrary: c) (auto split: option.splits intro: go_reach)

lemma cstr_simps [simp]: "NUL \<notin> set t \<Longrightarrow> cstring (cstr t) = t" "terminated (cstr t)" "length (cstr t) = Suc (length t)"
  using cstring_append_NUL [of t "[]"] terminated_append_NUL [of t "[]"] by (simp_all add: cstr_def)

lemma string_compare_cases:
  assumes "terminated a" and "terminated b"
  obtains r where "string_compare a b = Some r" "r = 0 \<longleftrightarrow> cstring a = cstring b"
  using string_compare_Some [OF assms] string_compare_zero [OF assms] by auto

lemma resolve_step_spec:
  assumes wf: "vfs_wf s" and c: "reach s c" and t: "terminated token"
  shows "resolve_step s (Some c) token = Some (go s c (cstring token) \<noteq> None, go s c (cstring token))"
proof -
  obtain a where a: "string_compare token (cstr ''.'') = Some a" "a = 0 \<longleftrightarrow> cstring token = ''.''"
    using string_compare_cases [OF t, of "cstr ''.''"] by auto
  obtain b where b: "string_compare token (cstr ''..'') = Some b" "b = 0 \<longleftrightarrow> cstring token = ''..''"
    using string_compare_cases [OF t, of "cstr ''..''"] by auto
  obtain p where p: "parent (node_pool s c) = Some p" using reach_parent [OF wf c] by blast
  show ?thesis using a b p vfs_find_node_spec [OF wf reach_live [OF wf c] t] by (simp add: resolve_step_def go_def)
qed

lemma resolve_loop_spec:
  assumes wf: "vfs_wf s"
  shows "reach s c \<Longrightarrow> tok_wf st \<Longrightarrow>
    (case token of None \<Rightarrow> ts = []
     | Some q \<Rightarrow> ts = arg (tok_buf st) q # tokens ''/'' (tok_rest st) \<and> terminated (drop q (tok_buf st))) \<Longrightarrow>
    resolve_loop s token (Some c) st = Some (walk s c ts)"
proof (induction ts arbitrary: c token st)
  case Nil
  then have "token = None" by (cases token) auto
  then show ?case by (simp add: resolve_loop.simps)
next
  case (Cons t ts)
  then obtain q where q: "token = Some q" "t = arg (tok_buf st) q" "ts = tokens ''/'' (tok_rest st)" "terminated (drop q (tok_buf st))"
    by (cases token) auto
  have step: "resolve_step s (Some c) (drop q (tok_buf st)) = Some (go s c t \<noteq> None, go s c t)"
    using resolve_step_spec [OF wf Cons.prems(1) q(4)] q(2) by simp
  show ?case
  proof (cases "go s c t")
    case None
    then show ?thesis using step q(1) by (simp add: resolve_loop.simps)
  next
    case (Some n)
    obtain token' st' where n: "string_tokenize None ''/'' st = Some (token', st')"
      "case token' of None \<Rightarrow> ts = []
       | Some q \<Rightarrow> ts = arg (tok_buf st') q # tokens ''/'' (tok_rest st') \<and> tok_wf st' \<and> terminated (drop q (tok_buf st'))"
      using string_tokenize_continue [OF Cons.prems(2), of "''/''"] unfolding q(3) by (force split: option.splits)
    have "resolve_loop s token' (Some n) st' = Some (walk s n ts)"
    proof (cases token')
      case None
      then show ?thesis using n(2) by (simp add: resolve_loop.simps)
    next
      case token': (Some q')
      then show ?thesis using Cons.IH [OF go_reach [OF wf Cons.prems(1) Some], where st = st' and token = token'] n(2) by simp
    qed
    then show ?thesis using Some step q(1) n(1) by (subst resolve_loop.simps) simp
  qed
qed

lemma resolve_path_walk:
  assumes "vfs_wf s" and "vfs_root s = Some r" and "terminated path" and "cstring path = CHR ''/'' # p" and "length p < 256"
  shows "vfs_resolve_path (Some path) s = Some (walk s r (tokens ''/'' p))"
proof -
  obtain cs where path: "path = CHR ''/'' # cs" using assms(4) by (cases path) (auto split: if_splits)
  then have cs: "cstring cs = p" "terminated cs" using assms(3,4) by simp_all
  then have ne: "cs \<noteq> []" by auto
  show ?thesis
  proof (cases "hd cs = NUL")
    case True
    then have "p = []" using cs ne by (cases cs) auto
    then show ?thesis using path ne True assms(2) by (simp add: vfs_resolve_path_def tokens.simps)
  next
    case False
    define pc where "pc = p @ NUL # drop (Suc (length p)) (replicate 256 NUL)"
    have copy: "string_copy local_path cs = Some pc" using string_copy_eq [OF cs(2), of "replicate 256 NUL"] cs(1) assms(5)
      by (simp add: pc_def)
    let ?st = "\<lparr>tok_buf = pc, tokenize_last = None\<rparr>"
    have pc: "cstring pc = p" "terminated pc" using cs(1) NUL_notin_cstring [of cs] by (auto simp: pc_def)
    have start: "tok_start (Some 0) ?st = Some 0" "terminated (drop 0 (tok_buf ?st))" "cstring (drop 0 (tok_buf ?st)) = p"
      using pc by simp_all
    obtain token st where t: "string_tokenize (Some 0) ''/'' ?st = Some (token, st)" "tok_wf st \<or> token = None"
      "case token of None \<Rightarrow> tokens ''/'' p = []
       | Some q \<Rightarrow> tokens ''/'' p = arg (tok_buf st) q # tokens ''/'' (tok_rest st) \<and> terminated (drop q (tok_buf st))"
    proof (cases "tokens ''/'' p")
      case Nil
      obtain st' where "string_tokenize (Some 0) ''/'' ?st = Some (None, st')"
        by (rule string_tokenize_none [OF start(1,2), of "''/''"]) (use Nil start(3) in simp_all)
      then show thesis using that [of None st'] Nil by simp
    next
      case (Cons w ws)
      obtain q st' where "string_tokenize (Some 0) ''/'' ?st = Some (Some q, st')" "cstring (drop q (tok_buf st')) = w"
        "terminated (drop q (tok_buf st'))" "tokens ''/'' (tok_rest st') = ws" "tok_wf st'"
        using string_tokenize_some [OF start(1,2), of "''/''" w ws] start(3) Cons by metis
      then show thesis using that [of "Some q" st'] Cons by simp
    qed
    have "resolve_loop s token (Some r) st = Some (walk s r (tokens ''/'' p))"
    proof (cases token)
      case None
      then show ?thesis using t(3) by (simp add: resolve_loop.simps)
    next
      case (Some q)
      then show ?thesis using t resolve_loop_spec [OF assms(1) reach.root [OF assms(2)], where st = st and token = token] by simp
    qed
    then show ?thesis using path ne False copy t(1) assms(2) by (simp add: vfs_resolve_path_def)
  qed
qed

section \<open>Building the first tree\<close>

lemma orphan_created:
  assumes "vfs_wf s" and "orphan s x" and "c < 128" "\<not> live s c" "terminated nm" "length nm = 128"
  shows "orphan (created s c nm type) x"
proof -
  note C = created_wf [OF assms(1,3-6), where type = type]
  show ?thesis using assms(2) C(5,8) C(4) C(7) unfolding orphan_def by (metis empty_iff image_empty list.set(1))
qed

text \<open>While the nodes in use are those below \<open>n\<close>, the next one created is \<open>n\<close>.\<close>

definition packed :: "nat \<Rightarrow> vfs \<Rightarrow> bool" where
  "packed n s \<longleftrightarrow> vfs_wf s \<and> (\<forall>i. live s i \<longleftrightarrow> i < n) \<and> n < 128"

lemma create_packed:
  assumes p: "packed n s" "Suc n < 128" and name: "NUL \<notin> set name" "length name < 128"
  obtains t where "vfs_create_node (cstr name) type s = Some (Some n, t)" "packed (Suc n) t" "orphan t n" "nname t n = name"
    "vtype (node_pool t n) = type" "entries t n = []" "vfs_root t = vfs_root s" "\<And>x. orphan s x \<Longrightarrow> orphan t x"
    "\<And>i. i < n \<Longrightarrow> node_pool t i = node_pool s i" "\<And>d. d < n \<Longrightarrow> entries t d = entries s d" "child_count (node_pool t n) = 0"
    "vlength (node_pool t n) = 0"
proof -
  have wf: "vfs_wf s" and lv: "live s i \<longleftrightarrow> i < n" for i using p by (simp_all add: packed_def)
  show thesis
  proof (rule create_cases [of "cstr name" type s])
    assume "\<And>i. i < 128 \<Longrightarrow> live s i"
    then show thesis using lv [of n] p(2) by simp
  next
    fix c nm
    assume c: "vfs_create_node (cstr name) type s = Some (Some c, created s c nm type)" "c < 128" "\<not> live s c"
      "\<And>j. j < c \<Longrightarrow> live s j" and nm: "terminated nm" "length nm = 128" "cstring nm = cstring (cstr name)"
    have n: "c = n" using c(3) c(4) [of n] lv by (metis nat_neq_iff)
    note C = created_wf [OF wf c(2,3) nm(1,2), where type = type, unfolded n]
    show thesis
    proof (rule that [OF c(1) [unfolded n]])
      show "packed (Suc n) (created s n nm type)" using C(1,4) lv p(2) by (auto simp: packed_def)
      show "orphan s x \<Longrightarrow> orphan (created s n nm type) x" for x
        using orphan_created [OF wf _ c(2,3) nm(1,2)] n by simp
    qed (use C nm(3) name(1) lv in auto)
  qed (use name in simp_all)
qed

lemma add_packed:
  assumes p: "packed n s" and d: "d < n" "vtype (node_pool s d) = NODE_DIRECTORY" and c: "orphan s c" "c \<noteq> d"
    and room: "child_count (node_pool s d) < 32" and new: "nname s c \<notin> fst ` set (entries s d)"
  obtains t where "vfs_add_child (Some d) (Some c) s = (0, t)" "packed n t" "entries t d = entries s d @ [(nname s c, c)]"
    "\<And>e. e < n \<Longrightarrow> e \<noteq> d \<Longrightarrow> entries t e = entries s e" "vfs_root t = vfs_root s" "\<And>i. nname t i = nname s i"
    "\<And>i. vtype (node_pool t i) = vtype (node_pool s i)" "\<And>x. orphan s x \<Longrightarrow> x \<noteq> c \<Longrightarrow> orphan t x"
    "\<And>i. content (node_pool t i) = content (node_pool s i) \<and> vlength (node_pool t i) = vlength (node_pool s i)"
    "\<And>i. i \<noteq> d \<Longrightarrow> child_count (node_pool t i) = child_count (node_pool s i)"
proof -
  have wf: "vfs_wf s" and lv: "live s i \<longleftrightarrow> i < n" and n: "n < 128" for i using p by (simp_all add: packed_def)
  show thesis
  proof (rule add_child_wf [OF wf _ d(2) c room new])
    show "live s d" using lv d(1) by simp
    fix t
    assume t: "vfs_add_child (Some d) (Some c) s = (0, t)" "vfs_wf t" "entries t d = entries s d @ [(nname s c, c)]"
      "\<And>e. live s e \<Longrightarrow> e \<noteq> d \<Longrightarrow> entries t e = entries s e" "\<And>i. live t i = live s i" "vfs_root t = vfs_root s"
      "\<And>i. nname t i = nname s i" "\<And>i. vtype (node_pool t i) = vtype (node_pool s i)"
      "\<And>i. content (node_pool t i) = content (node_pool s i) \<and> vlength (node_pool t i) = vlength (node_pool s i)"
      "\<And>i. i \<noteq> d \<Longrightarrow> child_count (node_pool t i) = child_count (node_pool s i)"
    have "packed n t" using t(2,5) lv n by (simp add: packed_def)
    moreover have "orphan t x" if "orphan s x" "x \<noteq> c" for x
      unfolding orphan_def
    proof (intro conjI allI impI)
      fix e assume "live t e"
      then show "x \<notin> snd ` set (entries t e)" using that t(3,4,5) by (cases "e = d") (auto simp: orphan_def)
    qed (use that t(5,6) in \<open>auto simp: orphan_def\<close>)
    ultimately show thesis using that [of t] t lv by simp
  qed
qed

text \<open>Static data before \<^verbatim>\<open>vfs_init\<close>, and the tree with the root alone.\<close>

definition vfs_zero :: vfs where
  "vfs_zero = \<lparr>node_pool = (\<lambda>_. (fresh_node 0)\<lparr>ops := False\<rparr>), node_pool_bitmap = (\<lambda>_. False), next_inode = 1,
     vfs_root = None, static_dirent = \<lparr>dname = replicate 128 NUL, dinode = 0\<rparr>\<rparr>"

lemma fold_clear: "fold (\<lambda>i b. b(i := False)) [0..<n] f = (\<lambda>i. if i < n then False else f i)"
  by (induction n) (auto simp: fun_eq_iff)

lemma root_alone:
  fixes s :: vfs
  assumes "length (dname (static_dirent s)) = 128"
  defines "s1 \<equiv> s\<lparr>node_pool_bitmap := (\<lambda>i. if i < 128 then False else node_pool_bitmap s i)\<rparr>"
  defines "s2 \<equiv> upd_node 0 (\<lambda>p. p\<lparr>vname := ''/'' @ NUL # replicate 126 NUL, vtype := NODE_DIRECTORY, parent := Some 0\<rparr>)
    ((snd (allocate_node s1))\<lparr>vfs_root := Some 0\<rparr>)"
  shows "fst (allocate_node s1) = Some 0" "vname (node_pool (snd (allocate_node s1)) 0) = replicate 128 NUL"
    "packed 1 s2" "entries s2 0 = []" "vfs_root s2 = Some 0" "vtype (node_pool s2 0) = NODE_DIRECTORY" "child_count (node_pool s2 0) = 0"
proof -
  have "find (\<lambda>i. \<not> node_pool_bitmap s1 i) [0..<128] = Some 0" by (simp add: find_upt_Some_iff s1_def)
  then have a: "allocate_node s1 = (Some 0, s1\<lparr>node_pool_bitmap := (node_pool_bitmap s1)(0 := True),
      node_pool := (node_pool s1)(0 := fresh_node (next_inode s1)), next_inode := next_inode s1 + 1\<rparr>)"
    by (simp add: allocate_node_def)
  then show "fst (allocate_node s1) = Some 0" "vname (node_pool (snd (allocate_node s1)) 0) = replicate 128 NUL" by simp_all
  have n: "node_pool s2 0 = (fresh_node (next_inode s))\<lparr>vname := ''/'' @ NUL # replicate 126 NUL, vtype := NODE_DIRECTORY, parent := Some 0\<rparr>"
    unfolding s2_def a by (simp add: s1_def)
  show e: "entries s2 0 = []" and r: "vfs_root s2 = Some 0" "vtype (node_pool s2 0) = NODE_DIRECTORY" "child_count (node_pool s2 0) = 0"
    using n by (simp_all add: entries_def kids_def s2_def)
  have lv: "live s2 i \<longleftrightarrow> i < 1" for i unfolding live_def s2_def a by (auto simp: s1_def)
  have "node_ok (node_pool s2 0)" by (simp add: n node_ok_def)
  moreover have "dir_ok s2 0" using e n by (simp add: dir_ok_def kids_def)
  moreover have "root_ok s2 0" using n r lv by (simp add: root_ok_def)
  moreover have "length (dname (static_dirent s2)) = 128" using assms(1) unfolding s2_def a by (simp add: s1_def)
  ultimately show "packed 1 s2" using lv unfolding packed_def vfs_wf_def by auto
qed

lemma write_packed:
  assumes p: "packed n s" and i: "i < n" "vtype (node_pool s i) = NODE_FILE" and buf: "unat k \<le> 4096" "unat k \<le> length buf"
  obtains t where "vfs_write (Some i) 0 k buf s = Some (int (unat k), t)" "packed n t" "vfs_root t = vfs_root s"
    "\<And>d. entries t d = entries s d" "\<And>j. nname t j = nname s j" "\<And>j. vtype (node_pool t j) = vtype (node_pool s j)"
    "\<And>j. child_count (node_pool t j) = child_count (node_pool s j)" "\<And>x. orphan s x \<Longrightarrow> orphan t x"
    "take (unat k) (content (node_pool t i)) = take (unat k) buf" "vlength (node_pool s i) = 0 \<Longrightarrow> vlength (node_pool t i) = k"
proof -
  have wf: "vfs_wf s" and lv: "live s j \<longleftrightarrow> j < n" and n: "n < 128" for j using p by (simp_all add: packed_def)
  note ok = vfs_wfD(1) [OF wf, of i]
  have m: "min (unat k) 4096 = unat k" using buf(1) by simp
  let ?f = "\<lambda>c p. p\<lparr>content := c, vlength := (if unat k > unat (vlength p) then of_nat (unat k) else vlength p)\<rparr>"
  obtain c where c: "vfs_write (Some i) 0 k buf s = Some (int (unat k), upd_node i (?f c) s)" "length c = 4096"
      "\<And>j. j < 4096 \<Longrightarrow> c ! j = (if j < unat k then buf ! j else content (node_pool s i) ! j)"
    by (rule ramfs_write_spec [OF ok i(2), of 0 k buf, unfolded m unsigned_0 add_0 diff_zero])
      (use buf i(1) lv unat_u32_less [of k] in simp_all)
  have "node_ok (?f c (node_pool s i))" using ok i(1) lv c(2) buf(1) by (simp add: node_ok_def)
  note U = update_node_wf [OF wf, of "?f c" i, OF _ _ _ _ _ this]
  have tk: "take (unat k) c = take (unat k) buf" using c(2,3) buf by (intro nth_equalityI) auto
  show thesis
  proof (rule that [OF c(1)])
    show "packed n (upd_node i (?f c) s)" using U(1) lv n by (simp add: packed_def live_def)
    show "orphan s x \<Longrightarrow> orphan (upd_node i (?f c) s) x" for x using U(2) by (simp add: orphan_def live_def)
    show "entries (upd_node i (?f c) s) d = entries s d" for d using U(2) by simp
    show "vlength (node_pool s i) = 0 \<Longrightarrow> vlength (node_pool (upd_node i (?f c) s) i) = k" by (simp add: unat_eq_zero)
  qed (use tk in \<open>simp_all add: nname_def\<close>)
qed

lemma motd_facts: "length motd_text = 58" "NUL \<notin> set motd_text"
  by (simp_all add: motd_text_def)

definition boot_tree :: "vfs \<Rightarrow> bool" where
  "boot_tree t \<longleftrightarrow> packed 6 t \<and> vfs_root t = Some 0 \<and>
     entries t 0 = [(''bin'', 1), (''etc'', 2), (''home'', 3), (''tmp'', 4)] \<and> entries t 2 = [(''motd.txt'', 5)] \<and>
     (\<forall>d \<in> {1, 3, 4}. entries t d = [] \<and> vtype (node_pool t d) = NODE_DIRECTORY) \<and> vtype (node_pool t 5) = NODE_FILE \<and>
     vlength (node_pool t 5) = 58 \<and> take 58 (content (node_pool t 5)) = map of_char motd_text"

lemma init_motd_tree:
  assumes p: "packed 5 s" and r: "vfs_root s = Some 0" "entries s 0 = [(''bin'', 1), (''etc'', 2), (''home'', 3), (''tmp'', 4)]"
    and d: "\<And>d. d \<in> {1, 2, 3, 4} \<Longrightarrow> entries s d = [] \<and> vtype (node_pool s d) = NODE_DIRECTORY \<and> child_count (node_pool s d) = 0"
  obtains t where "init_motd (Some 2) s = Some t" "boot_tree t"
proof -
  obtain s1 where c: "vfs_create_node (cstr ''motd.txt'') NODE_FILE s = Some (Some 5, s1)" "packed 6 s1" "orphan s1 5"
      "nname s1 5 = ''motd.txt''" "vtype (node_pool s1 5) = NODE_FILE" "vfs_root s1 = vfs_root s"
      "\<And>i. i < 5 \<Longrightarrow> node_pool s1 i = node_pool s i" "\<And>d. d < 5 \<Longrightarrow> entries s1 d = entries s d" "vlength (node_pool s1 5) = 0"
    by (rule create_packed [OF p, of "''motd.txt''" NODE_FILE]) (simp_all)
  let ?b = "map of_char (cstr motd_text) :: u8 list"
  have k: "unat (58 :: u32) = 58" by simp
  obtain s2 where w: "vfs_write (Some 5) 0 58 ?b s1 = Some (58, s2)" "packed 6 s2" "vfs_root s2 = vfs_root s1"
      "\<And>d. entries s2 d = entries s1 d" "\<And>j. nname s2 j = nname s1 j" "\<And>j. vtype (node_pool s2 j) = vtype (node_pool s1 j)"
      "\<And>j. child_count (node_pool s2 j) = child_count (node_pool s1 j)" "orphan s2 5"
      "take 58 (content (node_pool s2 5)) = take 58 ?b" "vlength (node_pool s2 5) = 58"
    by (rule write_packed [OF c(2) _ c(5), of 58 ?b]) (use c(3,9) motd_facts(1) in simp_all)
  obtain t where t: "vfs_add_child (Some 2) (Some 5) s2 = (0, t)" "packed 6 t" "entries t 2 = entries s2 2 @ [(nname s2 5, 5)]"
      "\<And>e. e < 6 \<Longrightarrow> e \<noteq> 2 \<Longrightarrow> entries t e = entries s2 e" "vfs_root t = vfs_root s2" "\<And>i. vtype (node_pool t i) = vtype (node_pool s2 i)"
      "content (node_pool t 5) = content (node_pool s2 5) \<and> vlength (node_pool t 5) = vlength (node_pool s2 5)"
    by (rule add_packed [OF w(2), of 2 5]) (use d [of 2] c w in simp_all)
  have "init_motd (Some 2) s = Some t"
    using c(1) w(1) t(1) motd_facts by (simp add: init_motd_def string_length_eq)
  moreover have "take 58 ?b = map of_char motd_text" using motd_facts(1) by (simp add: cstr_def take_map)
  then have "boot_tree t" using t w c d r by (simp add: boot_tree_def)
  ultimately show thesis by (rule that)
qed

text \<open>The four directories: created first, then linked.\<close>

lemma init_dirs:
  assumes p: "packed 1 s" and r: "vfs_root s = Some 0" "entries s 0 = []" "vtype (node_pool s 0) = NODE_DIRECTORY" "child_count (node_pool s 0) = 0"
  obtains s3 s4 s5 s6 where "vfs_create_node (cstr ''bin'') NODE_DIRECTORY s = Some (Some 1, s3)"
    "vfs_create_node (cstr ''etc'') NODE_DIRECTORY s3 = Some (Some 2, s4)" "vfs_create_node (cstr ''home'') NODE_DIRECTORY s4 = Some (Some 3, s5)"
    "vfs_create_node (cstr ''tmp'') NODE_DIRECTORY s5 = Some (Some 4, s6)" "packed 5 s6" "vfs_root s6 = Some 0" "entries s6 0 = []"
    "vtype (node_pool s6 0) = NODE_DIRECTORY" "child_count (node_pool s6 0) = 0"
    "\<And>d. d \<in> {1, 2, 3, 4} \<Longrightarrow> orphan s6 d \<and> entries s6 d = [] \<and> vtype (node_pool s6 d) = NODE_DIRECTORY \<and> child_count (node_pool s6 d) = 0"
    "map (nname s6) [1, 2, 3, 4] = [''bin'', ''etc'', ''home'', ''tmp'']"
proof -
  obtain s3 where a: "vfs_create_node (cstr ''bin'') NODE_DIRECTORY s = Some (Some 1, s3)" "packed 2 s3" "orphan s3 1" "nname s3 1 = ''bin''"
      "vtype (node_pool s3 1) = NODE_DIRECTORY" "entries s3 1 = []" "vfs_root s3 = vfs_root s" "child_count (node_pool s3 1) = 0"
      "\<And>i. i < 1 \<Longrightarrow> node_pool s3 i = node_pool s i" "\<And>d. d < 1 \<Longrightarrow> entries s3 d = entries s d"
    by (rule create_packed [OF p, of "''bin''" NODE_DIRECTORY]) (simp_all add: numeral_2_eq_2)
  obtain s4 where b: "vfs_create_node (cstr ''etc'') NODE_DIRECTORY s3 = Some (Some 2, s4)" "packed 3 s4" "orphan s4 2" "nname s4 2 = ''etc''"
      "vtype (node_pool s4 2) = NODE_DIRECTORY" "entries s4 2 = []" "vfs_root s4 = vfs_root s3" "child_count (node_pool s4 2) = 0"
      "\<And>i. i < 2 \<Longrightarrow> node_pool s4 i = node_pool s3 i" "\<And>d. d < 2 \<Longrightarrow> entries s4 d = entries s3 d" "\<And>x. orphan s3 x \<Longrightarrow> orphan s4 x"
    by (rule create_packed [OF a(2), of "''etc''" NODE_DIRECTORY]) simp_all
  obtain s5 where c: "vfs_create_node (cstr ''home'') NODE_DIRECTORY s4 = Some (Some 3, s5)" "packed 4 s5" "orphan s5 3" "nname s5 3 = ''home''"
      "vtype (node_pool s5 3) = NODE_DIRECTORY" "entries s5 3 = []" "vfs_root s5 = vfs_root s4" "child_count (node_pool s5 3) = 0"
      "\<And>i. i < 3 \<Longrightarrow> node_pool s5 i = node_pool s4 i" "\<And>d. d < 3 \<Longrightarrow> entries s5 d = entries s4 d" "\<And>x. orphan s4 x \<Longrightarrow> orphan s5 x"
    by (rule create_packed [OF b(2), of "''home''" NODE_DIRECTORY]) simp_all
  obtain s6 where d: "vfs_create_node (cstr ''tmp'') NODE_DIRECTORY s5 = Some (Some 4, s6)" "packed 5 s6" "orphan s6 4" "nname s6 4 = ''tmp''"
      "vtype (node_pool s6 4) = NODE_DIRECTORY" "entries s6 4 = []" "vfs_root s6 = vfs_root s5" "child_count (node_pool s6 4) = 0"
      "\<And>i. i < 4 \<Longrightarrow> node_pool s6 i = node_pool s5 i" "\<And>d. d < 4 \<Longrightarrow> entries s6 d = entries s5 d" "\<And>x. orphan s5 x \<Longrightarrow> orphan s6 x"
    by (rule create_packed [OF c(2), of "''tmp''" NODE_DIRECTORY]) simp_all
  have n: "node_pool s6 0 = node_pool s 0" "node_pool s6 1 = node_pool s3 1" "node_pool s6 2 = node_pool s4 2" "node_pool s6 3 = node_pool s5 3"
    using a(9) b(9) c(9) d(9) by simp_all
  have e: "entries s6 0 = entries s 0" "entries s6 1 = entries s3 1" "entries s6 2 = entries s4 2" "entries s6 3 = entries s5 3"
    using a(10) b(10) c(10) d(10) by simp_all
  show thesis
  proof (rule that [OF a(1) b(1) c(1) d(1,2)])
    show "vfs_root s6 = Some 0" using a(7) b(7) c(7) d(7) r(1) by simp
    show "map (nname s6) [1, 2, 3, 4] = [''bin'', ''etc'', ''home'', ''tmp'']" using a(4) b(4) c(4) d(4) n by (simp add: nname_def)
    show "orphan s6 x \<and> entries s6 x = [] \<and> vtype (node_pool s6 x) = NODE_DIRECTORY \<and> child_count (node_pool s6 x) = 0"
      if "x \<in> {1, 2, 3, 4}" for x
      using that a(3,5,6,8) b(3,5,6,8,11) c(3,5,6,8,11) d(3,5,6,8,11) n e by auto
  qed (use n e r in simp_all)
qed

lemma add_root:
  assumes "packed 5 s" and "vfs_root s = Some 0" and "vtype (node_pool s 0) = NODE_DIRECTORY" and "unat (child_count (node_pool s 0)) < 32"
    and "orphan s c" and "c \<noteq> 0" and "nname s c \<notin> fst ` set (entries s 0)"
  obtains t where "add_if (Some c) s = t" "packed 5 t" "vfs_root t = Some 0" "entries t 0 = entries s 0 @ [(nname s c, c)]"
    "\<And>e. e < 5 \<Longrightarrow> e \<noteq> 0 \<Longrightarrow> entries t e = entries s e" "\<And>i. nname t i = nname s i"
    "\<And>i. vtype (node_pool t i) = vtype (node_pool s i)" "\<And>x. orphan s x \<Longrightarrow> x \<noteq> c \<Longrightarrow> orphan t x"
    "\<And>i. i \<noteq> 0 \<Longrightarrow> child_count (node_pool t i) = child_count (node_pool s i)"
  by (rule add_packed [OF assms(1) _ assms(3,5,6) _ assms(7)])
    (use assms(2,4) that in \<open>simp_all add: add_if_def word_less_nat_alt\<close>)

lemma packed_count: "packed n s \<Longrightarrow> d < n \<Longrightarrow> vtype (node_pool s d) = NODE_DIRECTORY \<Longrightarrow> unat (child_count (node_pool s d)) = length (entries s d)"
  using length_kids [of s d] vfs_wfD(1) [of s d] by (simp add: packed_def entries_def)

lemma link_dirs:
  assumes p: "packed 5 s" and r: "vfs_root s = Some 0" "entries s 0 = []" "vtype (node_pool s 0) = NODE_DIRECTORY"
    and d: "\<And>d. d \<in> {1, 2, 3, 4} \<Longrightarrow> orphan s d \<and> entries s d = [] \<and> vtype (node_pool s d) = NODE_DIRECTORY \<and> child_count (node_pool s d) = 0"
    and n: "map (nname s) [1, 2, 3, 4] = [''bin'', ''etc'', ''home'', ''tmp'']"
  obtains t where "add_if (Some 4) (add_if (Some 3) (add_if (Some 2) (add_if (Some 1) s))) = t" "packed 5 t" "vfs_root t = Some 0"
    "entries t 0 = [(''bin'', 1), (''etc'', 2), (''home'', 3), (''tmp'', 4)]"
    "\<And>d. d \<in> {1, 2, 3, 4} \<Longrightarrow> entries t d = [] \<and> vtype (node_pool t d) = NODE_DIRECTORY \<and> child_count (node_pool t d) = 0"
proof -
  note pc = packed_count [where d = 0]
  obtain a where a: "add_if (Some 1) s = a" "packed 5 a" "vfs_root a = Some 0" "entries a 0 = entries s 0 @ [(nname s 1, 1)]"
      "\<And>e. e < 5 \<Longrightarrow> e \<noteq> 0 \<Longrightarrow> entries a e = entries s e" "\<And>i. nname a i = nname s i"
      "\<And>i. vtype (node_pool a i) = vtype (node_pool s i)" "\<And>x. orphan s x \<Longrightarrow> x \<noteq> 1 \<Longrightarrow> orphan a x"
      "\<And>i. i \<noteq> 0 \<Longrightarrow> child_count (node_pool a i) = child_count (node_pool s i)"
    by (rule add_root [OF p, of 1]) (use r d [of 1] pc [OF p] in simp_all)
  obtain b where b: "add_if (Some 2) a = b" "packed 5 b" "vfs_root b = Some 0" "entries b 0 = entries a 0 @ [(nname a 2, 2)]"
      "\<And>e. e < 5 \<Longrightarrow> e \<noteq> 0 \<Longrightarrow> entries b e = entries a e" "\<And>i. nname b i = nname a i"
      "\<And>i. vtype (node_pool b i) = vtype (node_pool a i)" "\<And>x. orphan a x \<Longrightarrow> x \<noteq> 2 \<Longrightarrow> orphan b x"
      "\<And>i. i \<noteq> 0 \<Longrightarrow> child_count (node_pool b i) = child_count (node_pool a i)"
    by (rule add_root [OF a(2), of 2]) (use r n d [of 2] a pc [OF a(2)] in simp_all)
  obtain c where c: "add_if (Some 3) b = c" "packed 5 c" "vfs_root c = Some 0" "entries c 0 = entries b 0 @ [(nname b 3, 3)]"
      "\<And>e. e < 5 \<Longrightarrow> e \<noteq> 0 \<Longrightarrow> entries c e = entries b e" "\<And>i. nname c i = nname b i"
      "\<And>i. vtype (node_pool c i) = vtype (node_pool b i)" "\<And>x. orphan b x \<Longrightarrow> x \<noteq> 3 \<Longrightarrow> orphan c x"
      "\<And>i. i \<noteq> 0 \<Longrightarrow> child_count (node_pool c i) = child_count (node_pool b i)"
    by (rule add_root [OF b(2), of 3]) (use r n d [of 3] a b pc [OF b(2)] in simp_all)
  obtain t where t: "add_if (Some 4) c = t" "packed 5 t" "vfs_root t = Some 0" "entries t 0 = entries c 0 @ [(nname c 4, 4)]"
      "\<And>e. e < 5 \<Longrightarrow> e \<noteq> 0 \<Longrightarrow> entries t e = entries c e" "\<And>i. nname t i = nname c i"
      "\<And>i. vtype (node_pool t i) = vtype (node_pool c i)"
      "\<And>i. i \<noteq> 0 \<Longrightarrow> child_count (node_pool t i) = child_count (node_pool c i)"
    by (rule add_root [OF c(2), of 4]) (use r n d [of 4] a b c pc [OF c(2)] in simp_all)
  show thesis
  proof (rule that [OF _ t(2,3)])
    show "entries t 0 = [(''bin'', 1), (''etc'', 2), (''home'', 3), (''tmp'', 4)]" using t(4) c(4,6) b(4,6) a(4,6) r(2) n by simp
    show "entries t x = [] \<and> vtype (node_pool t x) = NODE_DIRECTORY \<and> child_count (node_pool t x) = 0" if "x \<in> {1, 2, 3, 4}" for x
    proof -
      have "x < 5" "x \<noteq> 0" using that by auto
      then show ?thesis using d [OF that] a(5,7,9) b(5,7,9) c(5,7,9) t(5,7,8) by simp
    qed
  qed (use a(1) b(1) c(1) t(1) in simp)
qed

lemma vfs_init_tree:
  assumes "length (dname (static_dirent s)) = 128"
  obtains t where "vfs_init s = Some t" "boot_tree t"
proof -
  let ?s1 = "s\<lparr>node_pool_bitmap := (\<lambda>i. if i < 128 then False else node_pool_bitmap s i)\<rparr>"
  define sa where "sa = snd (allocate_node ?s1)"
  define s2 where "s2 = upd_node 0 (\<lambda>p. p\<lparr>vname := ''/'' @ NUL # replicate 126 NUL, vtype := NODE_DIRECTORY, parent := Some 0\<rparr>) (sa\<lparr>vfs_root := Some 0\<rparr>)"
  note R = root_alone [OF assms, folded sa_def, folded s2_def]
  have al: "allocate_node ?s1 = (Some 0, sa)" using R(1) by (simp add: sa_def prod_eq_iff)
  have "string_copy (replicate 128 NUL) (cstr ''/'') = Some (''/'' @ NUL # replicate 126 NUL)"
    using string_copy_eq [of "cstr ''/''" "replicate 128 NUL"] by simp
  then have nm: "string_copy (vname (node_pool sa 0)) (cstr ''/'') = Some (''/'' @ NUL # replicate 126 NUL)" using R(2) by simp
  obtain s3 s4 s5 s6 where c: "vfs_create_node (cstr ''bin'') NODE_DIRECTORY s2 = Some (Some 1, s3)"
    "vfs_create_node (cstr ''etc'') NODE_DIRECTORY s3 = Some (Some 2, s4)" "vfs_create_node (cstr ''home'') NODE_DIRECTORY s4 = Some (Some 3, s5)"
    "vfs_create_node (cstr ''tmp'') NODE_DIRECTORY s5 = Some (Some 4, s6)" "packed 5 s6" "vfs_root s6 = Some 0" "entries s6 0 = []"
    "vtype (node_pool s6 0) = NODE_DIRECTORY" "child_count (node_pool s6 0) = 0"
    "\<And>d. d \<in> {1, 2, 3, 4} \<Longrightarrow> orphan s6 d \<and> entries s6 d = [] \<and> vtype (node_pool s6 d) = NODE_DIRECTORY \<and> child_count (node_pool s6 d) = 0"
    "map (nname s6) [1, 2, 3, 4] = [''bin'', ''etc'', ''home'', ''tmp'']"
    using init_dirs [OF R(3,5,4,6,7)] by blast
  obtain s7 where l: "add_if (Some 4) (add_if (Some 3) (add_if (Some 2) (add_if (Some 1) s6))) = s7" "packed 5 s7" "vfs_root s7 = Some 0"
    "entries s7 0 = [(''bin'', 1), (''etc'', 2), (''home'', 3), (''tmp'', 4)]"
    "\<And>d. d \<in> {1, 2, 3, 4} \<Longrightarrow> entries s7 d = [] \<and> vtype (node_pool s7 d) = NODE_DIRECTORY \<and> child_count (node_pool s7 d) = 0"
    using link_dirs [OF c(5-8,10,11)] by blast
  obtain t where t: "init_motd (Some 2) s7 = Some t" "boot_tree t" using init_motd_tree [OF l(2-5)] by blast
  have "vfs_init s = Some t"
    using al nm c(1-4) l(1) t(1) unfolding vfs_init_def fold_clear by (simp add: s2_def)
  then show thesis using t(2) by (rule that)
qed

definition vfs_boot :: vfs where
  "vfs_boot = the (vfs_init vfs_zero)"

lemma vfs_boot_tree: "vfs_init vfs_zero = Some vfs_boot" "boot_tree vfs_boot"
proof -
  obtain t where t: "vfs_init vfs_zero = Some t" "boot_tree t" by (rule vfs_init_tree [of vfs_zero]) (simp_all add: vfs_zero_def)
  then show "vfs_init vfs_zero = Some vfs_boot" "boot_tree vfs_boot" by (simp_all add: vfs_boot_def)
qed

section \<open>Every sequence of operations\<close>

text \<open>
  The operations the shell commands perform: a node is created in a directory that has no entry of
  that name, written, removed, or a directory is read.
\<close>

inductive fs_step :: "vfs \<Rightarrow> vfs \<Rightarrow> bool" for s where
  link: "reach s d \<Longrightarrow> vtype (node_pool s d) = NODE_DIRECTORY \<Longrightarrow> terminated name \<Longrightarrow> length (cstring name) < 128 \<Longrightarrow>
    vfs_find_node (Some d) name s = Some None \<Longrightarrow> vfs_create_node name type s = Some (n, s1) \<Longrightarrow>
    snd (vfs_add_child (Some d) n s1) = s' \<Longrightarrow> fs_step s s'"
| store: "reach s i \<Longrightarrow> unat off \<le> 4096 \<Longrightarrow> unat off + unat k < 2 ^ 32 \<Longrightarrow> unat k \<le> length buf \<Longrightarrow>
    vfs_write (Some i) off k buf s = Some (r, s') \<Longrightarrow> fs_step s s'"
| remove: "reach s d \<Longrightarrow> terminated name \<Longrightarrow> vfs_remove_child (Some d) name s = Some (r, s') \<Longrightarrow> fs_step s s'"
| readdir: "reach s d \<Longrightarrow> vfs_readdir (Some d) index s = Some (r, s') \<Longrightarrow> fs_step s s'"

inductive fs_reachable :: "vfs \<Rightarrow> bool" where
  init: "length (dname (static_dirent s)) = 128 \<Longrightarrow> vfs_init s = Some t \<Longrightarrow> fs_reachable t"
| step: "fs_reachable s \<Longrightarrow> fs_step s s' \<Longrightarrow> fs_reachable s'"

text \<open>What linking a new name does: the entries of the directory grow by one, nothing else changes.\<close>

lemma link_cases:
  assumes wf: "vfs_wf s" and d: "live s d" "vtype (node_pool s d) = NODE_DIRECTORY"
    and name: "terminated name" "length (cstring name) < 128" "cstring name \<notin> fst ` set (entries s d)"
  obtains (no_node) "vfs_create_node name type s = Some (None, s)" "\<And>i. i < 128 \<Longrightarrow> live s i"
    | (full) c s1 where "vfs_create_node name type s = Some (Some c, s1)" "vfs_add_child (Some d) (Some c) s1 = (- 1, s1)" "vfs_wf s1"
        "length (entries s d) = 32" "\<And>e. live s e \<Longrightarrow> entries s1 e = entries s e" "\<And>i. live s1 i \<longleftrightarrow> i = c \<or> live s i"
    | (linked) c s1 t where "vfs_create_node name type s = Some (Some c, s1)" "vfs_add_child (Some d) (Some c) s1 = (0, t)" "vfs_wf t"
        "entries t d = entries s d @ [(cstring name, c)]" "\<And>e. live s e \<Longrightarrow> e \<noteq> d \<Longrightarrow> entries t e = entries s e"
        "\<And>i. live t i \<longleftrightarrow> i = c \<or> live s i" "vfs_root t = vfs_root s" "\<not> live s c" "vtype (node_pool t c) = type" "entries t c = []"
        "\<And>i. live s i \<Longrightarrow> parent (node_pool t i) = parent (node_pool s i)" "vlength (node_pool t c) = 0" "nname t c = cstring name"
proof (rule create_cases [OF name(1,2), of type s])
  assume "vfs_create_node name type s = Some (None, s)" "\<And>i. i < 128 \<Longrightarrow> live s i"
  then show thesis by (rule no_node)
next
  fix c nm
  assume cr: "vfs_create_node name type s = Some (Some c, created s c nm type)"
    and c: "c < 128" "\<not> live s c" and nm: "terminated nm" "length nm = 128" "cstring nm = cstring name"
  let ?s1 = "created s c nm type"
  note C = created_wf [OF wf c nm(1,2), where type = type]
  have dc: "d \<noteq> c" using d(1) c(2) by auto
  have ed: "entries ?s1 d = entries s d" by (rule C(7) [OF d(1)])
  have nd: "node_pool ?s1 d = node_pool s d" by (rule C(6) [OF dc])
  have len: "unat (child_count (node_pool s d)) = length (entries s d)"
    using length_kids [OF vfs_wfD(1) [OF wf d(1)]] d(2) by (simp add: entries_def)
  show thesis
  proof (cases "child_count (node_pool s d) < 32")
    case True
    have ld: "live ?s1 d" using C(4) d(1) by simp
    show thesis
    proof (rule add_child_wf [OF C(1) ld _ C(2) dc [symmetric]])
      fix t
      assume t: "vfs_add_child (Some d) (Some c) ?s1 = (0, t)" "vfs_wf t" "entries t d = entries ?s1 d @ [(nname ?s1 c, c)]"
        "\<And>e. live ?s1 e \<Longrightarrow> e \<noteq> d \<Longrightarrow> entries t e = entries ?s1 e" "\<And>i. live t i = live ?s1 i" "vfs_root t = vfs_root ?s1"
        "\<And>i. nname t i = nname ?s1 i" "\<And>i. vtype (node_pool t i) = vtype (node_pool ?s1 i)"
        "\<And>i. content (node_pool t i) = content (node_pool ?s1 i) \<and> vlength (node_pool t i) = vlength (node_pool ?s1 i)"
      have par: "parent (node_pool t i) = parent (node_pool s i)" if "live s i" for i
      proof -
        have "i \<noteq> c" using that c(2) by auto
        moreover have "t = snd (vfs_add_child (Some d) (Some c) ?s1)" using t(1) by simp
        ultimately show ?thesis using True nd C(6) [of i] d(2) by (simp add: vfs_add_child_def Let_def)
      qed
      show thesis by (rule linked [OF cr t(1,2)]) (use t C ed nm(3) dc par c(2) in auto)
    qed (use nd d(2) True ed C(3) nm(3) name(3) in simp_all)
  next
    case False
    then have "length (entries s d) = 32"
      using len vfs_wfD(1) [OF wf d(1)] by (simp add: word_less_nat_alt node_ok_def)
    then show thesis by (intro full [OF cr]) (use C nd d(2) False add_child_full in auto)
  qed
qed

lemma readdir_wf:
  assumes "vfs_wf s" and "live s d"
  obtains b t where "vfs_readdir (Some d) index s = Some (b, t)" "vfs_wf t" "node_pool t = node_pool s"
    "b \<Longrightarrow> unat index < length (entries s d) \<and> cstring (dname (static_dirent t)) = fst (entries s d ! unat index)"
    "\<not> b \<Longrightarrow> t = s \<and> length (entries s d) \<le> unat index"
proof (cases "vtype (node_pool s d) = NODE_DIRECTORY \<and> index < child_count (node_pool s d)")
  case True
  note ok = vfs_wfD(1) [OF assms] and o = vfs_wfD(2) [OF assms conjunct1 [OF True]]
  have i: "unat index < unat (child_count (node_pool s d))" using True by (simp add: word_less_nat_alt)
  note k = kids_nth [OF ok o i]
  have len: "length (entries s d) = unat (child_count (node_pool s d))" using True length_kids [OF ok] by (simp add: entries_def)
  let ?c = "the (kids s d ! unat index)"
  have e: "entries s d ! unat index = (nname s ?c, ?c)" using True len i by (simp add: entries_def)
  then have "(nname s ?c, ?c) \<in> set (entries s d)" using len i by (metis nth_mem)
  then have "node_ok (node_pool s ?c)" using entry_facts(1) [OF assms] vfs_wfD(1) [OF assms(1)] by blast
  then have tc: "terminated (vname (node_pool s ?c))" "length (cstring (vname (node_pool s ?c))) < 128"
    using length_cstring_less [of "vname (node_pool s ?c)"] by (simp_all add: node_ok_def)
  have dl: "length (dname (static_dirent s)) = 128" using assms(1) by (simp add: vfs_wf_def)
  define nm where "nm = cstring (vname (node_pool s ?c)) @ NUL # drop (Suc (length (cstring (vname (node_pool s ?c))))) (dname (static_dirent s))"
  have "string_copy (dname (static_dirent s)) (vname (node_pool s ?c)) = Some nm"
    using string_copy_eq [OF tc(1)] tc(2) dl by (simp add: nm_def)
  then have r: "vfs_readdir (Some d) index s = Some (True, s\<lparr>static_dirent := \<lparr>dname = nm, dinode = inode (node_pool s ?c)\<rparr>\<rparr>)"
    using True ok k(1,2) by (simp add: vfs_readdir_def ramfs_readdir_def node_ok_def Let_def not_le)
  have "length nm = 128" "cstring nm = nname s ?c" using tc dl by (simp_all add: nm_def nname_def)
  then show thesis using assms(1) e len i
    by (intro that [OF r]) (auto simp: vfs_wf_def root_ok_def dir_ok_def live_def entries_def kids_def nname_def)
next
  case False
  then have "vfs_readdir (Some d) index s = Some (False, s)"
    using vfs_wfD(1) [OF assms] by (auto simp: vfs_readdir_def ramfs_readdir_def node_ok_def Let_def not_less)
  moreover have "length (entries s d) \<le> unat index"
    using False length_kids [OF vfs_wfD(1) [OF assms]] by (auto simp: entries_def word_less_nat_alt)
  ultimately show thesis using assms(1) by (intro that) auto
qed

lemma fs_step_wf:
  assumes "vfs_wf s" and "fs_step s s'"
  shows "vfs_wf s'"
  using assms(2)
proof (cases rule: fs_step.cases)
  case (link d name type n s1)
  have live: "live s d" by (rule reach_live [OF assms(1) link(1)])
  have new: "cstring name \<notin> fst ` set (entries s d)"
    using link(5) vfs_find_node_spec [OF assms(1) live link(3)] by (simp add: map_of_eq_None_iff)
  show ?thesis
    by (rule link_cases [OF assms(1) live link(2,3,4) new, of type])
      (use link(6,7) assms(1) in \<open>auto simp: vfs_add_child_def\<close>)
next
  case (store i off k buf r)
  then show ?thesis using vfs_write_wf [OF assms(1) reach_live [OF assms(1) store(1)] store(2-4)] by (metis option.inject prod.inject)
next
  case (remove d name r)
  have live: "live s d" by (rule reach_live [OF assms(1) remove(1)])
  show ?thesis
  proof (cases "map_of (entries s d) (cstring name)")
    case None
    then have "find (\<lambda>i. fst (entries s d ! i) = cstring name) [0..<length (entries s d)] = None" by (simp add: map_of_find)
    then have "s' = s" using remove(2,3) find_child_dir [OF assms(1) live] by (auto simp: vfs_remove_child_def Let_def split: if_splits)
    then show ?thesis using assms(1) by simp
  next
    case (Some c)
    then have "vtype (node_pool s d) = NODE_DIRECTORY" by (meson entry_dir map_of_SomeD)
    then show ?thesis using remove_child_wf [OF assms(1) live _ remove(2) Some] remove(3) by (metis option.inject prod.inject)
  qed
next
  case (readdir d index r)
  then show ?thesis using readdir_wf [OF assms(1) reach_live [OF assms(1) readdir(1)]] by (metis option.inject prod.inject)
qed

lemma fs_reachable_wf: "fs_reachable s \<Longrightarrow> vfs_wf s"
proof (induction rule: fs_reachable.induct)
  case (init s t)
  then show ?case using vfs_init_tree [OF init(1)] by (metis boot_tree_def option.inject packed_def)
qed (rule fs_step_wf)


lemma vfs_boot_reachable: "fs_reachable vfs_boot"
  by (rule fs_reachable.init [OF _ vfs_boot_tree(1)]) (simp add: vfs_zero_def)


text \<open>
  C15. A directory is a finite map from names to nodes: \<^verbatim>\<open>vfs_find_node\<close> looks a name up; creating a
  node under a new name extends the map at that name, or fails and changes no directory when the pool
  is exhausted or the directory holds 32 entries; removing a name deletes exactly it. All other
  directories keep their maps.
\<close>

theorem vfs_directory_map:
  assumes "vfs_wf s" and "reach s d" and "vtype (node_pool s d) = NODE_DIRECTORY" and "terminated name" and "length (cstring name) < 128"
  defines "m \<equiv> \<lambda>s d. map_of (entries s d)"
  shows "vfs_find_node (Some d) name s = Some (m s d (cstring name)) \<and>
    (case m s d (cstring name) of
       None \<Rightarrow> \<exists>n s1. vfs_create_node name type s = Some (n, s1) \<and>
         (case vfs_add_child (Some d) n s1 of (r, t) \<Rightarrow> vfs_wf t \<and>
            (r = 0 \<longrightarrow> n \<noteq> None \<and> m t d = (m s d)(cstring name \<mapsto> the n)) \<and>
            (r \<noteq> 0 \<longrightarrow> m t d = m s d \<and> (length (entries s d) = 32 \<or> (\<forall>i<128. live s i))) \<and>
            (\<forall>e. live s e \<and> e \<noteq> d \<longrightarrow> m t e = m s e))
     | Some c \<Rightarrow> \<exists>t. vfs_remove_child (Some d) name s = Some (0, t) \<and> vfs_wf t \<and> \<not> live t c \<and>
         m t d = (m s d)(cstring name := None) \<and> (\<forall>e. e \<noteq> d \<longrightarrow> m t e = m s e))"
proof -
  have live: "live s d" by (rule reach_live [OF assms(1,2)])
  have find: "vfs_find_node (Some d) name s = Some (m s d (cstring name))"
    unfolding m_def by (rule vfs_find_node_spec [OF assms(1) live assms(4)])
  show ?thesis
  proof (cases "m s d (cstring name)")
    case None
    then have new: "cstring name \<notin> fst ` set (entries s d)" by (simp add: m_def map_of_eq_None_iff)
    have "\<exists>n s1. vfs_create_node name type s = Some (n, s1) \<and>
         (case vfs_add_child (Some d) n s1 of (r, t) \<Rightarrow> vfs_wf t \<and>
            (r = 0 \<longrightarrow> n \<noteq> None \<and> m t d = (m s d)(cstring name \<mapsto> the n)) \<and>
            (r \<noteq> 0 \<longrightarrow> m t d = m s d \<and> (length (entries s d) = 32 \<or> (\<forall>i<128. live s i))) \<and>
            (\<forall>e. live s e \<and> e \<noteq> d \<longrightarrow> m t e = m s e))"
      using assms(1) live assms(3-5) new
    proof (cases rule: link_cases [where type = type])
      case no_node
      then show ?thesis using assms(1) by (auto simp: vfs_add_child_def)
    next
      case (full c s1)
      then show ?thesis using live by (auto simp: m_def)
    next
      case (linked c s1 t)
      have "map_of (entries t d) = (map_of (entries s d))(cstring name \<mapsto> c)"
        using map_of_snoc [OF new] linked(4) by simp
      then show ?thesis using linked by (auto simp: m_def)
    qed
    then show ?thesis using find None by simp
  next
    case (Some c)
    obtain t where t: "vfs_remove_child (Some d) name s = Some (0, t)" "vfs_wf t"
        "entries t d = filter (\<lambda>e. fst e \<noteq> cstring name) (entries s d)"
        "\<And>e. e \<noteq> d \<Longrightarrow> entries t e = entries s e" "\<And>i. live t i \<longleftrightarrow> live s i \<and> i \<noteq> c"
      using remove_child_wf [OF assms(1) live assms(3,4)] Some by (metis m_def)
    then show ?thesis using find Some by (auto simp: m_def map_of_delete)
  qed
qed

lemma boot_facts: "vfs_wf vfs_boot" "vfs_root vfs_boot = Some 0" "reach vfs_boot 0" "reach vfs_boot 2"
  "vtype (node_pool vfs_boot 2) = NODE_DIRECTORY" "entries vfs_boot 2 = [(''motd.txt'', 5)]" "entries vfs_boot 0 = [(''bin'', 1), (''etc'', 2), (''home'', 3), (''tmp'', 4)]"
proof -
  show b: "vfs_wf vfs_boot" "vfs_root vfs_boot = Some 0" "entries vfs_boot 2 = [(''motd.txt'', 5)]"
      "entries vfs_boot 0 = [(''bin'', 1), (''etc'', 2), (''home'', 3), (''tmp'', 4)]"
    using vfs_boot_tree(2) by (simp_all add: boot_tree_def packed_def)
  show r: "reach vfs_boot 0" by (rule reach.root [OF b(2)])
  show "reach vfs_boot 2" by (rule reach.child [OF r, of "''etc''"]) (simp add: b(4))
  show "vtype (node_pool vfs_boot 2) = NODE_DIRECTORY" using entry_dir [of "''motd.txt''" 5 vfs_boot 2] b(3) by simp
qed

theorem vfs_directory_map_witness:
  "vfs_find_node (Some 2) (cstr ''motd.txt'') vfs_boot = Some (Some 5) \<and>
   (\<exists>t. vfs_remove_child (Some 2) (cstr ''motd.txt'') vfs_boot = Some (0, t) \<and> map_of (entries t 2) ''motd.txt'' = None)"
  using vfs_directory_map [OF boot_facts(1,4,5), of "cstr ''motd.txt''" NODE_FILE] boot_facts(6) by auto

theorem vfs_write_read_witness:
  "\<exists>t. vfs_write (Some 5) 10 2 [104, 105] vfs_boot = Some (2, t) \<and> vfs_read (Some 5) 10 2 [0, 0, 0] t = Some (2, [104, 105, 0])"
proof -
  have "node_ok (node_pool vfs_boot 5)" "vtype (node_pool vfs_boot 5) = NODE_FILE"
    using vfs_boot_tree(2) vfs_wfD(1) [OF boot_facts(1), of 5] by (simp_all add: boot_tree_def packed_def)
  then show ?thesis using vfs_write_read [of vfs_boot 5 10 2 "[104, 105]" "[0, 0, 0]"] by auto
qed

lemma resolve_path_overflow:
  assumes "terminated path" and "cstring path = CHR ''/'' # p" and "256 \<le> length p"
  shows "vfs_resolve_path (Some path) s = None"
proof -
  obtain cs where path: "path = CHR ''/'' # cs" using assms(2) by (cases path) (auto split: if_splits)
  then have cs: "cstring cs = p" "terminated cs" using assms(1,2) by simp_all
  have ne: "cs \<noteq> []" "hd cs \<noteq> NUL" using cs assms(3) by (cases cs; auto)+
  have "string_copy local_path cs = None"
    using string_copy_Some_iff [OF cs(2), of local_path] cs(1) assms(3) by (cases "string_copy local_path cs") auto
  then show ?thesis using path ne by (simp add: vfs_resolve_path_def)
qed

lemma resolve_path_relative:
  assumes "terminated path" and "\<And>p. cstring path \<noteq> CHR ''/'' # p"
  shows "vfs_resolve_path (Some path) s = Some None"
proof (cases path)
  case (Cons c cs)
  then have "c \<noteq> CHR ''/''" using assms(2) [of "cstring cs"] by auto
  then show ?thesis using Cons by (simp add: vfs_resolve_path_def)
qed (use assms(1) in \<open>simp add: terminated_def\<close>)



section \<open>A new node is found by its path\<close>

lemma tokens_word:
  assumes "w \<noteq> []" and "d \<notin> set w"
  shows "tokens [d] w = [w]"
proof -
  have d: "dropWhile (\<lambda>c. c \<in> set [d]) w = w" using assms by (cases w) auto
  have t: "takeWhile (\<lambda>c. c \<notin> set [d]) w = w" using assms(2) by (auto simp: takeWhile_eq_all_conv)
  have z: "dropWhile (\<lambda>c. c \<notin> set [d]) w = []" using assms(2) by (auto simp: dropWhile_eq_Nil_conv)
  show ?thesis using assms(1) tokens.simps [of "[d]" w] tokens.simps [of "[d]" "[]"] unfolding Let_def d t z by simp
qed

lemma tokens_snoc: "w \<noteq> [] \<Longrightarrow> d \<notin> set w \<Longrightarrow> tokens [d] (p @ d # w) = tokens [d] p @ [w]"
proof (induction "length p" arbitrary: p rule: less_induct)
  case less
  let ?P = "\<lambda>c. c \<in> set [d]" and ?Q = "\<lambda>c. c \<notin> set [d]"
  define s where "s = dropWhile ?P p"
  show ?case
  proof (cases "s = []")
    case True
    then have "dropWhile ?P (p @ d # w) = w" using less.prems by (cases w) (auto simp: s_def dropWhile_append)
    then have "tokens [d] (p @ d # w) = tokens [d] w" using less.prems
      by (subst (1 2) tokens.simps) (cases w, auto)
    then show ?thesis using True less.prems tokens_word by (subst (2) tokens.simps) (simp add: s_def)
  next
    case False
    then have e: "dropWhile ?P (p @ d # w) = s @ d # w" by (auto simp: s_def dropWhile_append)
    have lt: "length (tl (dropWhile ?Q s)) < length p" unfolding s_def
      by (rule length_tl_dropWhile_less) (use False in \<open>simp add: s_def\<close>)
    have p: "tokens [d] p = takeWhile ?Q s # tokens [d] (tl (dropWhile ?Q s))"
      by (subst tokens.simps) (use False in \<open>simp add: s_def Let_def\<close>)
    have pw: "tokens [d] (p @ d # w) = takeWhile ?Q (s @ d # w) # tokens [d] (tl (dropWhile ?Q (s @ d # w)))"
      by (subst tokens.simps) (use e in \<open>simp add: Let_def\<close>)
    show ?thesis
    proof (cases "d \<in> set s")
      case True
      then have "takeWhile ?Q (s @ d # w) = takeWhile ?Q s" "tl (dropWhile ?Q (s @ d # w)) = tl (dropWhile ?Q s) @ d # w"
        by (auto simp: takeWhile_append dropWhile_append dropWhile_eq_Nil_conv)
      then show ?thesis using less.hyps [OF lt less.prems] p pw by simp
    next
      case False
      then have z: "dropWhile ?Q s = []" by (auto simp: dropWhile_eq_Nil_conv)
      have t: "takeWhile ?Q s = s" "takeWhile ?Q (s @ d # w) = s" "dropWhile ?Q (s @ d # w) = d # w"
        using False z by (auto simp: takeWhile_append dropWhile_append takeWhile_eq_all_conv)
      show ?thesis unfolding p pw t z using tokens_word [OF less.prems] tokens.simps [of "[d]" "[]"] by simp
    qed
  qed
qed

text \<open>A state that has every entry of another one, in live directories, leads every path to the same node.\<close>

lemma walk_mono:
  assumes wf: "vfs_wf s" and par: "\<And>i. live s i \<Longrightarrow> parent (node_pool t i) = parent (node_pool s i)"
    and ent: "\<And>e n c. live s e \<Longrightarrow> map_of (entries s e) n = Some c \<Longrightarrow> map_of (entries t e) n = Some c"
  shows "reach s e \<Longrightarrow> walk s e ts = Some n \<Longrightarrow> walk t e ts = Some n"
proof (induction ts arbitrary: e)
  case (Cons x ts)
  then obtain m where m: "go s e x = Some m" "walk s m ts = Some n" by (auto split: option.splits)
  have "live s e" by (rule reach_live [OF wf Cons.prems(1)])
  then have "go t e x = Some m" using m(1) par ent by (auto simp: go_def split: if_splits)
  moreover have "walk t m ts = Some n" by (rule Cons.IH [OF go_reach [OF wf Cons.prems(1) m(1)] m(2)])
  ultimately show ?case by simp
qed simp

text \<open>A walk in a tree with one more entry, for a path that does not use it.\<close>

lemma walk_same:
  assumes wf: "vfs_wf s" and par: "\<And>i. live s i \<Longrightarrow> parent (node_pool t i) = parent (node_pool s i)"
    and ent: "\<And>e n. live s e \<Longrightarrow> e \<noteq> d \<or> n \<noteq> name \<Longrightarrow> map_of (entries t e) n = map_of (entries s e) n"
  shows "reach s e \<Longrightarrow> \<not> (\<exists>xs ys. ts = xs @ name # ys \<and> walk s e xs = Some d) \<Longrightarrow> walk t e ts = walk s e ts"
proof (induction ts arbitrary: e)
  case (Cons x ts)
  have live: "live s e" by (rule reach_live [OF wf Cons.prems(1)])
  have "e \<noteq> d \<or> x \<noteq> name"
  proof (rule ccontr)
    assume "\<not> (e \<noteq> d \<or> x \<noteq> name)"
    then have "x # ts = [] @ name # ts \<and> walk s e [] = Some d" by simp
    then show False using Cons.prems(2) by blast
  qed
  then have g: "go t e x = go s e x" using par [OF live] ent [OF live] by (simp add: go_def)
  show ?case
  proof (cases "go s e x")
    case (Some m)
    have "\<not> (\<exists>xs ys. ts = xs @ name # ys \<and> walk s m xs = Some d)"
    proof
      assume "\<exists>xs ys. ts = xs @ name # ys \<and> walk s m xs = Some d"
      then obtain xs ys where "ts = xs @ name # ys" "walk s m xs = Some d" by blast
      then have "x # ts = (x # xs) @ name # ys \<and> walk s e (x # xs) = Some d" using Some by simp
      then show False using Cons.prems(2) by blast
    qed
    then show ?thesis using Cons.IH [OF go_reach [OF wf Cons.prems(1) Some]] Some g by simp
  qed (use g in simp)
qed simp

text \<open>
  C16. A node is found where it was created: after a node has been created under a new name in the
  directory that a path leads to, the path followed by the name leads to the new node, every path
  that led to a node before leads to it still, and the result changes for no path except those that
  pass from that directory through the new name.
\<close>

theorem vfs_create_resolves:
  assumes "vfs_wf s" and "vfs_root s = Some r" and "length p + length name < 254"
    and "vfs_resolve_path (Some (cstr (CHR ''/'' # p))) s = Some (Some d)" and "vtype (node_pool s d) = NODE_DIRECTORY"
    and "name \<noteq> []" and "CHR ''/'' \<notin> set name" and "name \<notin> {''.'', ''..''}" and "NUL \<notin> set p" and "NUL \<notin> set name" and "length name < 128"
    and "vfs_find_node (Some d) (cstr name) s = Some None" and "vfs_create_node (cstr name) type s = Some (Some c, s1)"
    and "vfs_add_child (Some d) (Some c) s1 = (0, t)"
  shows "vfs_resolve_path (Some (cstr (CHR ''/'' # p @ CHR ''/'' # name))) t = Some (Some c) \<and>
    (\<forall>q n. NUL \<notin> set q \<and> length q < 256 \<and> vfs_resolve_path (Some (cstr (CHR ''/'' # q))) s = Some (Some n) \<longrightarrow>
       vfs_resolve_path (Some (cstr (CHR ''/'' # q))) t = Some (Some n)) \<and>
    (\<forall>q. NUL \<notin> set q \<and> length q < 256 \<and> \<not> (\<exists>xs ys. tokens ''/'' q = xs @ name # ys \<and> walk s r xs = Some d) \<longrightarrow>
       vfs_resolve_path (Some (cstr (CHR ''/'' # q))) t = vfs_resolve_path (Some (cstr (CHR ''/'' # q))) s)"
proof -
  note res = resolve_path_walk
  have rr: "reach s r" by (rule reach.root [OF assms(2)])
  have wd: "walk s r (tokens ''/'' p) = Some d" using res [OF assms(1,2), of "cstr (CHR ''/'' # p)" p] assms(3,4,9) by simp
  then have live: "live s d" using reach_live [OF assms(1)] walk_reach [OF assms(1) rr] by blast
  have new: "name \<notin> fst ` set (entries s d)"
    using vfs_find_node_spec [OF assms(1) live, of "cstr name"] assms(10,12) map_of_eq_None_iff [of "entries s d" name] by simp
  have t: "vfs_wf t" "vfs_root t = Some r" "entries t d = entries s d @ [(name, c)]" "\<And>e. live s e \<Longrightarrow> e \<noteq> d \<Longrightarrow> entries t e = entries s e"
      "\<And>i. live s i \<Longrightarrow> parent (node_pool t i) = parent (node_pool s i)"
    by (rule link_cases [OF assms(1) live assms(5), of "cstr name" type];
        use assms(2,10,11,13,14) new in simp)+
  have ent: "map_of (entries t e) n = Some x" if "live s e" "map_of (entries s e) n = Some x" for e n x
    using that t(3,4) map_of_snoc [OF new, of c] map_of_eq_None_iff [of "entries s d" name] new
    by (cases "e = d") (auto split: if_splits)
  have mono: "walk t r ts = Some n" if "walk s r ts = Some n" for ts n
    by (rule walk_mono [OF assms(1) t(5) ent rr that])
  have "walk t r (tokens ''/'' (p @ CHR ''/'' # name)) = Some c"
    using mono [OF wd] assms(6-8) t(3) map_of_snoc [OF new, of c] by (simp add: tokens_snoc walk_append go_def)
  then have "vfs_resolve_path (Some (cstr (CHR ''/'' # p @ CHR ''/'' # name))) t = Some (Some c)"
    using res [OF t(1,2), of "cstr (CHR ''/'' # p @ CHR ''/'' # name)" "p @ CHR ''/'' # name"] assms(3,9,10) by simp
  moreover have "vfs_resolve_path (Some (cstr (CHR ''/'' # q))) t = Some (Some n)"
    if q: "NUL \<notin> set q" "length q < 256" "vfs_resolve_path (Some (cstr (CHR ''/'' # q))) s = Some (Some n)" for q n
    using mono [of "tokens ''/'' q" n] q res [OF assms(1,2), of "cstr (CHR ''/'' # q)" q] res [OF t(1,2), of "cstr (CHR ''/'' # q)" q] by simp
  moreover have "vfs_resolve_path (Some (cstr (CHR ''/'' # q))) t = vfs_resolve_path (Some (cstr (CHR ''/'' # q))) s"
    if q: "NUL \<notin> set q" "length q < 256" "\<not> (\<exists>xs ys. tokens ''/'' q = xs @ name # ys \<and> walk s r xs = Some d)" for q
  proof -
    have ent': "map_of (entries t e) n = map_of (entries s e) n" if "live s e" "e \<noteq> d \<or> n \<noteq> name" for e n
      using that t(3,4) map_of_snoc [OF new, of c] by (cases "e = d") auto
    have "walk t r (tokens ''/'' q) = walk s r (tokens ''/'' q)" by (rule walk_same [OF assms(1) t(5) ent' rr q(3)])
    then show ?thesis using q(1,2) res [OF assms(1,2), of "cstr (CHR ''/'' # q)" q] res [OF t(1,2), of "cstr (CHR ''/'' # q)" q] by simp
  qed
  ultimately show ?thesis by blast
qed

theorem vfs_create_resolves_witness:
  "\<exists>c s1 t. vfs_create_node (cstr ''notes'') NODE_FILE vfs_boot = Some (Some c, s1) \<and> vfs_add_child (Some 2) (Some c) s1 = (0, t) \<and>
     vfs_resolve_path (Some (cstr ''/etc/notes'')) t = Some (Some c)"
proof -
  have live: "live vfs_boot i \<longleftrightarrow> i < 6" for i using vfs_boot_tree(2) by (simp add: boot_tree_def packed_def)
  have e: "vfs_resolve_path (Some (cstr ''/etc'')) vfs_boot = Some (Some 2)"
    using resolve_path_walk [OF boot_facts(1,2), of "cstr ''/etc''" "''etc''"] boot_facts(7) by (simp add: tokens.simps go_def)
  have f: "vfs_find_node (Some 2) (cstr ''notes'') vfs_boot = Some None"
    using vfs_find_node_spec [OF boot_facts(1), of 2 "cstr ''notes''"] live boot_facts(6) by simp
  obtain c s1 t where "vfs_create_node (cstr ''notes'') NODE_FILE vfs_boot = Some (Some c, s1)" "vfs_add_child (Some 2) (Some c) s1 = (0, t)"
  proof (rule link_cases [OF boot_facts(1) _ boot_facts(5), of "cstr ''notes''" NODE_FILE])
    assume "\<And>i. i < 128 \<Longrightarrow> live vfs_boot i"
    from this [of 6] show thesis using live by simp
  qed (use live boot_facts(6) in auto)
  then show ?thesis
    using vfs_create_resolves [OF boot_facts(1,2), of "''etc''" "''notes''" 2 NODE_FILE c s1 t] e f boot_facts(5) by auto
qed

end
