(* ===== verification/Commands.thy ===== *)
theory Commands
  imports VFS_Path
begin

text \<open>
  The file commands of the shell, \<^verbatim>\<open>kernel/commands.c\<close>. A command is a function of its arguments, each a
  C string, and of the state it can see: the file system, the current directory and the text written
  to the console. The result \<open>None\<close> is an access outside an array, or a loop that does not end.
\<close>

section \<open>State\<close>

record shell_st =
  fs :: vfs
  cwd :: "nat option"
  out :: string

definition kernel_get_current_directory :: "shell_st \<Rightarrow> nat option" where
  "kernel_get_current_directory st = cwd st"

definition kernel_set_current_directory :: "nat option \<Rightarrow> shell_st \<Rightarrow> shell_st" where
  "kernel_set_current_directory dir st =
     (if dir \<noteq> None \<and> vtype (node_pool (fs st) (the dir)) = NODE_DIRECTORY then st\<lparr>cwd := dir\<rparr> else st)"

text \<open>\<^verbatim>\<open>console_write\<close> of a literal and of a buffer, a character of an argument, and a comparison with a literal.\<close>

definition say :: "string \<Rightarrow> shell_st \<Rightarrow> shell_st" where
  "say t st = st\<lparr>out := out st @ t\<rparr>"

definition say_buf :: "cbuf \<Rightarrow> shell_st \<Rightarrow> shell_st option" where
  "say_buf b st = map_option (\<lambda>t. say t st) (printed b)"

definition char_at :: "cbuf \<Rightarrow> nat \<Rightarrow> char option" where
  "char_at b k = (if k < length b then Some (b ! k) else None)"

definition is_lit :: "cbuf \<Rightarrow> string \<Rightarrow> bool option" where
  "is_lit b t = map_option (\<lambda>r. r = 0) (string_compare b (cstr t))"

text \<open>A message about an argument: \<^verbatim>\<open>console_write(a); console_write(argv[i]); console_write(b);\<close>\<close>

definition complain :: "string \<Rightarrow> cbuf \<Rightarrow> string \<Rightarrow> shell_st \<Rightarrow> shell_st option" where
  "complain a word b st = map_option (say b) (say_buf word (say a st))"

abbreviation quot :: string where "quot \<equiv> [CHR 0x27]"

section \<open>Numbers\<close>

text \<open>The digit loop of \<^verbatim>\<open>print_number\<close>: position and buffer when it ends.\<close>

fun digits_loop :: "nat \<Rightarrow> u32 \<Rightarrow> cbuf \<Rightarrow> nat \<times> cbuf" where
  "digits_loop 0 value buffer = (0, buffer)"
| "digits_loop (Suc i) value buffer =
     (if value > 0 then digits_loop i (value div 10) (buffer[i := char_of (48 + unat (value mod 10))])
      else (Suc i, buffer))"

definition print_number :: "u32 \<Rightarrow> string option" where
  "print_number value =
     (if value = 0 then Some ''0''
      else let (i, buffer) = digits_loop 10 value ((replicate 11 NUL)[10 := NUL]) in printed (drop i buffer))"

definition print_number_padded :: "u32 \<Rightarrow> nat \<Rightarrow> string option" where
  "print_number_padded value width =
     (let buf = (replicate 11 NUL)[10 := NUL];
          (i, buf) = (if value = 0 then (9, buf[9 := CHR ''0'']) else digits_loop 10 value buf);
          digits = 10 - i
      in map_option (\<lambda>t. replicate (width - digits) (CHR '' '') @ t) (printed (drop i buf)))"

definition say_number :: "u32 \<Rightarrow> shell_st \<Rightarrow> shell_st option" where
  "say_number value st = map_option (\<lambda>t. say t st) (print_number value)"

section \<open>Simple commands\<close>

fun echo_args :: "cbuf list \<Rightarrow> bool \<Rightarrow> shell_st \<Rightarrow> shell_st option" where
  "echo_args [] first st = Some st"
| "echo_args (a # as) first st = do {
     st1 \<leftarrow> say_buf a (if first then st else say '' '' st);
     echo_args as False st1 }"

definition cmd_echo :: "cbuf list \<Rightarrow> shell_st \<Rightarrow> shell_st option" where
  "cmd_echo argv st = map_option (say ''\<newline>'') (echo_args (tl argv) True st)"

definition cmd_uname :: "cbuf list \<Rightarrow> shell_st \<Rightarrow> shell_st" where
  "cmd_uname argv st =
     say ''Kernel: Educational Operating System\<newline>''
       (say ''Architecture: i386 (32-bit x86)\<newline>'' (say ''OpenOS version 0.1.0\<newline>'' st))"

text \<open>One line of \<^verbatim>\<open>help\<close>: the name is padded to twelve columns.\<close>

fun help_lines :: "'h command_table \<Rightarrow> string" where
  "help_lines [] = []"
| "help_lines (c # cs) =
     ''  '' @ cmd_name c @ replicate (12 - length (cmd_name c)) (CHR '' '') @ ''- '' @ cmd_description c @ ''\<newline>'' @ help_lines cs"

definition cmd_help :: "'h command_table \<Rightarrow> cbuf list \<Rightarrow> shell_st \<Rightarrow> shell_st" where
  "cmd_help table argv st =
     (let (count, commands) = shell_get_commands table
      in say (''\<newline>Available Commands:\<newline>'' @ ''===================\<newline>\<newline>'' @ help_lines (take count commands) @ ''\<newline>'') st)"

text \<open>\<^verbatim>\<open>uptime\<close>: the milliseconds, cut to 32 bits, in days, hours, minutes and seconds.\<close>

definition plural :: "u32 \<Rightarrow> string \<Rightarrow> bool \<Rightarrow> string option" where
  "plural n unit many = map_option (\<lambda>t. t @ unit @ (if many then ''s'' else []) @ '', '') (print_number n)"

definition cmd_uptime :: "u64 \<Rightarrow> cbuf list \<Rightarrow> shell_st \<Rightarrow> shell_st option" where
  "cmd_uptime uptime_ms argv st =
     (let low = (ucast uptime_ms :: u32);
          total_seconds = low div 1000; milliseconds = low mod 1000;
          seconds = total_seconds mod 60; minutes = (total_seconds div 60) mod 60;
          hours = (total_seconds div 3600) mod 24; days = total_seconds div 86400
      in do {
        d \<leftarrow> (if days > 0 then plural days '' day'' (days > 1) else Some []);
        h \<leftarrow> (if hours > 0 \<or> days > 0 then plural hours '' hour'' (hours \<noteq> 1) else Some []);
        m \<leftarrow> (if minutes > 0 \<or> hours > 0 \<or> days > 0 then plural minutes '' minute'' (minutes \<noteq> 1) else Some []);
        s \<leftarrow> print_number seconds;
        ms \<leftarrow> print_number milliseconds;
        Some (say (''System uptime: '' @ d @ h @ m @ s @ ''.'' @ (if milliseconds < 100 then ''0'' else []) @
                   (if milliseconds < 10 then ''0'' else []) @ ms @ '' seconds\<newline>'') st) })"

section \<open>Paths\<close>

text \<open>
  The loop that prepends the names up to the root, shared by \<^verbatim>\<open>pwd\<close>, \<^verbatim>\<open>ls -R\<close> and
  \<^verbatim>\<open>build_absolute_path\<close>; it ends only if the chain of parents does.
\<close>

partial_function (option) path_up :: "vfs \<Rightarrow> nat option \<Rightarrow> cbuf \<Rightarrow> cbuf \<Rightarrow> cbuf option" where
  "path_up s node temp path =
     (case node of
        None \<Rightarrow> Some path
      | Some n \<Rightarrow>
          if parent (node_pool s n) = Some n then Some path
          else Option.bind (string_copy temp (cstr ''/'')) (\<lambda>t1.
               Option.bind (string_concat t1 (vname (node_pool s n))) (\<lambda>t2.
               Option.bind (string_concat t2 path) (\<lambda>t3.
               Option.bind (string_copy path t3) (\<lambda>path'. path_up s (parent (node_pool s n)) t3 path')))))"

definition build_absolute_path :: "cbuf \<Rightarrow> cbuf \<Rightarrow> shell_st \<Rightarrow> cbuf option" where
  "build_absolute_path relative_path abs_path st = do {
     let s = fs st;
     let current = kernel_get_current_directory st;
     current_path \<leftarrow>
       (if current \<noteq> None \<and> parent (node_pool s (the current)) \<noteq> current
        then path_up s current local_path (local_path[0 := NUL]) else Some (local_path[0 := NUL]));
     a1 \<leftarrow> (if hd current_path = NUL then string_copy abs_path (cstr ''/'') else string_copy abs_path current_path);
     a2 \<leftarrow> string_concat a1 (cstr ''/'');
     string_concat a2 relative_path }"

text \<open>How every command reads a path argument.\<close>

definition resolve_arg :: "cbuf \<Rightarrow> shell_st \<Rightarrow> nat option option" where
  "resolve_arg word st = do {
     c \<leftarrow> char_at word 0;
     if c = CHR ''/'' then vfs_resolve_path (Some word) (fs st)
     else do {
       abs_path \<leftarrow> build_absolute_path word local_path st;
       vfs_resolve_path (Some abs_path) (fs st) } }"

definition cmd_pwd :: "cbuf list \<Rightarrow> shell_st \<Rightarrow> shell_st option" where
  "cmd_pwd argv st =
     (case kernel_get_current_directory st of
        None \<Rightarrow> Some (say ''/\<newline>'' st)
      | Some current \<Rightarrow> do {
          path \<leftarrow> path_up (fs st) (Some current) local_path (local_path[0 := NUL]);
          if hd path = NUL then Some (say ''/\<newline>'' st)
          else map_option (say ''\<newline>'') (say_buf path st) })"

definition cmd_cd :: "cbuf list \<Rightarrow> shell_st \<Rightarrow> shell_st option" where
  "cmd_cd argv st =
     (if length argv < 2 then Some (say ''Usage: cd <directory>\<newline>'' st)
      else do {
        let a = argv ! 1;
        root \<leftarrow> is_lit a ''/'';
        dot \<leftarrow> is_lit a ''.'';
        dotdot \<leftarrow> is_lit a ''..'';
        if \<not> root \<and> dot then Some st
        else do {
          target \<leftarrow>
            (if root then Some (vfs_get_root (fs st))
             else if dotdot then
               (case kernel_get_current_directory st of
                  None \<Rightarrow> Some (vfs_get_root (fs st))
                | Some c \<Rightarrow> Some (if parent (node_pool (fs st) c) \<noteq> None then parent (node_pool (fs st) c) else vfs_get_root (fs st)))
             else resolve_arg a st);
          case target of
            None \<Rightarrow> complain ''cd: '' a '': No such file or directory\<newline>'' st
          | Some n \<Rightarrow>
              if vtype (node_pool (fs st) n) \<noteq> NODE_DIRECTORY then complain ''cd: '' a '': Not a directory\<newline>'' st
              else Some (kernel_set_current_directory (Some n) st) } })"

section \<open>Listing\<close>

definition ls_entry :: "bool \<Rightarrow> vfs_node \<Rightarrow> string option" where
  "ls_entry flag_long child = do {
     name \<leftarrow> printed (vname child);
     let slash = (if vtype child = NODE_DIRECTORY then ''/'' else []);
     if flag_long then do {
       sz \<leftarrow> print_number_padded (vlength child) 8;
       Some ((if vtype child = NODE_DIRECTORY then ''d'' else ''-'') @ ''  '' @ sz @ ''  '' @ name @ slash @ ''\<newline>'') }
     else Some (name @ slash @ '' '') }"

fun ls_children :: "nat list \<Rightarrow> vfs_node \<Rightarrow> bool \<Rightarrow> bool \<Rightarrow> vfs \<Rightarrow> string option" where
  "ls_children [] dir flag_long flag_all s = Some []"
| "ls_children (i # is) dir flag_long flag_all s =
     (if length (children dir) \<le> i then None
      else case children dir ! i of
             None \<Rightarrow> ls_children is dir flag_long flag_all s
           | Some c \<Rightarrow> do {
               c0 \<leftarrow> char_at (vname (node_pool s c)) 0;
               if \<not> flag_all \<and> c0 = CHR ''.'' then ls_children is dir flag_long flag_all s
               else do {
                 t \<leftarrow> ls_entry flag_long (node_pool s c);
                 rest \<leftarrow> ls_children is dir flag_long flag_all s;
                 Some (t @ rest) } })"

definition ls_list_dir :: "nat \<Rightarrow> bool \<Rightarrow> bool \<Rightarrow> bool \<Rightarrow> cbuf \<Rightarrow> vfs \<Rightarrow> string option" where
  "ls_list_dir dir flag_long flag_all print_header header_path s = do {
     let d = node_pool s dir;
     hdr \<leftarrow> (if print_header then map_option (\<lambda>t. t @ '':\<newline>'') (printed header_path) else Some []);
     body \<leftarrow> ls_children [0..<unat (child_count d)] d flag_long flag_all s;
     Some (hdr @ body @ (if flag_long then [] else ''\<newline>'')) }"

text \<open>
  \<^verbatim>\<open>ls -R\<close>: the loop over the children of \<open>dir\<close> from index \<open>i\<close> on, each listed and descended into
  before the next. It does not end on a directory that contains itself.
\<close>

partial_function (option) ls_rec_loop :: "vfs \<Rightarrow> bool \<Rightarrow> bool \<Rightarrow> nat \<Rightarrow> nat \<Rightarrow> cbuf \<Rightarrow> string \<Rightarrow> string option" where
  "ls_rec_loop s flag_long flag_all dir i path_buf text =
     (if \<not> i < unat (child_count (node_pool s dir)) then Some text
      else if length (children (node_pool s dir)) \<le> i then None
      else case children (node_pool s dir) ! i of
             None \<Rightarrow> ls_rec_loop s flag_long flag_all dir (Suc i) path_buf text
           | Some c \<Rightarrow>
               if vtype (node_pool s c) \<noteq> NODE_DIRECTORY then ls_rec_loop s flag_long flag_all dir (Suc i) path_buf text
               else Option.bind (char_at (vname (node_pool s c)) 0) (\<lambda>c0.
                 if \<not> flag_all \<and> c0 = CHR ''.'' then ls_rec_loop s flag_long flag_all dir (Suc i) path_buf text
                 else Option.bind (string_copy local_path path_buf) (\<lambda>p0.
                      Option.bind (if p0 ! 0 = CHR ''/'' \<and> p0 ! 1 = NUL then Some p0 else string_concat p0 (cstr ''/'')) (\<lambda>p1.
                      Option.bind (string_concat p1 (vname (node_pool s c))) (\<lambda>child_path.
                      Option.bind (ls_list_dir c flag_long flag_all True child_path s) (\<lambda>t.
                      Option.bind (ls_rec_loop s flag_long flag_all c 0 child_path (text @ t)) (\<lambda>text'.
                        ls_rec_loop s flag_long flag_all dir (Suc i) path_buf text')))))))"

definition ls_recursive :: "nat \<Rightarrow> bool \<Rightarrow> bool \<Rightarrow> cbuf \<Rightarrow> vfs \<Rightarrow> string option" where
  "ls_recursive dir flag_long flag_all path_buf s = do {
     t \<leftarrow> ls_list_dir dir flag_long flag_all True path_buf s;
     ls_rec_loop s flag_long flag_all dir 0 path_buf t }"

record ls_opts =
  flag_all :: bool
  flag_long :: bool
  flag_recursive :: bool
  path_arg :: "cbuf option"

text \<open>The letters of one option word: the options, or the letter that is none.\<close>

fun ls_letters :: "string \<Rightarrow> ls_opts \<Rightarrow> char + ls_opts" where
  "ls_letters [] ls = Inr ls"
| "ls_letters (c # cs) ls =
     (if c = CHR ''a'' then ls_letters cs (ls\<lparr>flag_all := True\<rparr>)
      else if c = CHR ''l'' then ls_letters cs (ls\<lparr>flag_long := True\<rparr>)
      else if c = CHR ''R'' then ls_letters cs (ls\<lparr>flag_recursive := True\<rparr>)
      else Inl c)"

definition ls_usage :: string where
  "ls_usage = ''Usage: ls [-a] [-l] [-R] [-h] [path]\<newline>'' @ ''  -a    include entries starting with '' @ quot @ ''.'' @ quot @ ''\<newline>'' @
     ''  -l    long listing format (type, size, name)\<newline>'' @ ''  -R    list subdirectories recursively\<newline>'' @ ''  -h    show this help message\<newline>''"

text \<open>The options of \<^verbatim>\<open>ls\<close>, or the text with which it stops.\<close>

fun ls_args :: "cbuf list \<Rightarrow> ls_opts \<Rightarrow> (string + ls_opts) option" where
  "ls_args [] ls = Some (Inr ls)"
| "ls_args (a # as) ls = do {
     help \<leftarrow> is_lit a ''--help'';
     h \<leftarrow> is_lit a ''-h'';
     if help \<or> h then Some (Inl ls_usage)
     else do {
       c0 \<leftarrow> char_at a 0;
       c1 \<leftarrow> (if c0 = CHR ''-'' then char_at a 1 else Some NUL);
       if c0 = CHR ''-'' \<and> c1 \<noteq> NUL then do {
         letters \<leftarrow> printed (tl a);
         case ls_letters letters ls of
           Inl c \<Rightarrow> Some (Inl (''ls: invalid option -- '' @ quot @ [c] @ quot @ ''\<newline>Try '' @ quot @ ''ls -h'' @ quot @ '' for more information.\<newline>''))
         | Inr ls' \<Rightarrow> ls_args as ls' }
       else ls_args as (ls\<lparr>path_arg := Some a\<rparr>) } }"

definition cmd_ls :: "cbuf list \<Rightarrow> shell_st \<Rightarrow> shell_st option" where
  "cmd_ls argv st = do {
     parsed \<leftarrow> ls_args (tl argv) \<lparr>flag_all = False, flag_long = False, flag_recursive = False, path_arg = None\<rparr>;
     case parsed of
       Inl text \<Rightarrow> Some (say text st)
     | Inr ls \<Rightarrow> do {
         dir \<leftarrow> (case path_arg ls of None \<Rightarrow> Some (kernel_get_current_directory st) | Some a \<Rightarrow> resolve_arg a st);
         case dir of
           None \<Rightarrow> complain (''ls: cannot access '' @ quot) (case path_arg ls of None \<Rightarrow> cstr ''.'' | Some a \<Rightarrow> a)
                     (quot @ '': No such file or directory\<newline>'') st
         | Some d \<Rightarrow>
             let p = node_pool (fs st) d
             in if vtype p \<noteq> NODE_DIRECTORY then do {
                  name \<leftarrow> printed (vname p);
                  if flag_long ls then do {
                    sz \<leftarrow> print_number_padded (vlength p) 8;
                    Some (say (''-'' @ ''  '' @ sz @ ''  '' @ name @ ''\<newline>'') st) }
                  else Some (say (name @ ''\<newline>'') st) }
                else if flag_recursive ls then do {
                  start_path \<leftarrow>
                    (case path_arg ls of
                       Some a \<Rightarrow> string_copy local_path a
                     | None \<Rightarrow>
                         if parent p = Some d then string_copy (local_path[0 := NUL]) (cstr ''/'')
                         else do {
                           q \<leftarrow> path_up (fs st) (Some d) local_path (local_path[0 := NUL]);
                           if hd q = NUL then string_copy q (cstr ''/'') else Some q });
                  t \<leftarrow> ls_recursive d (flag_long ls) (flag_all ls) start_path (fs st);
                  Some (say t st) }
                else do {
                  t \<leftarrow> ls_list_dir d (flag_long ls) (flag_all ls) False [] (fs st);
                  Some (say t st) } } }"

section \<open>Reading files\<close>

definition byte_char :: "u8 \<Rightarrow> char" where
  "byte_char b = char_of (unat b)"

text \<open>Line numbers of \<^verbatim>\<open>cat -n\<close>.\<close>

fun cat_lines :: "u8 list \<Rightarrow> u32 \<Rightarrow> bool \<Rightarrow> string option" where
  "cat_lines [] line_num at_line_start = Some []"
| "cat_lines (b # bs) line_num at_line_start = do {
     n \<leftarrow> (if at_line_start then map_option (\<lambda>t. t @ ''  '') (print_number_padded line_num 6) else Some []);
     rest \<leftarrow> (if b = 10 then cat_lines bs (line_num + 1) True else cat_lines bs line_num False);
     Some (n @ byte_char b # rest) }"

text \<open>The first pass over the arguments: the state when it stops, or the flag and the number of files.\<close>

fun cat_scan :: "cbuf list \<Rightarrow> bool \<Rightarrow> nat \<Rightarrow> shell_st \<Rightarrow> (shell_st + bool \<times> nat) option" where
  "cat_scan [] flag_number file_count st = Some (Inr (flag_number, file_count))"
| "cat_scan (a # as) flag_number file_count st = do {
     help \<leftarrow> is_lit a ''--help'';
     h \<leftarrow> is_lit a ''-h'';
     if help \<or> h then
       Some (Inl (say (''Usage: cat [-n] [-h] file [file...]\<newline>'' @ ''  -n    number output lines\<newline>'' @ ''  -h    show this help message\<newline>'') st))
     else do {
       n \<leftarrow> is_lit a ''-n'';
       if n then cat_scan as True file_count st
       else do {
         c0 \<leftarrow> char_at a 0;
         c1 \<leftarrow> (if c0 = CHR ''-'' then char_at a 1 else Some NUL);
         if c0 = CHR ''-'' \<and> c1 \<noteq> NUL then
           map_option Inl (complain (''cat: invalid option '' @ quot) a (quot @ ''\<newline>Try '' @ quot @ ''cat -h'' @ quot @ '' for more information.\<newline>'') st)
         else cat_scan as flag_number (Suc file_count) st } } }"

definition cat_file :: "cbuf \<Rightarrow> bool \<Rightarrow> shell_st \<Rightarrow> shell_st option" where
  "cat_file a flag_number st = do {
     file \<leftarrow> resolve_arg a st;
     case file of
       None \<Rightarrow> complain ''cat: '' a '': No such file or directory\<newline>'' st
     | Some n \<Rightarrow>
         if vtype (node_pool (fs st) n) \<noteq> NODE_FILE then complain ''cat: '' a '': Is a directory\<newline>'' st
         else do {
           (bytes_read, buffer) \<leftarrow> vfs_read file 0 (vlength (node_pool (fs st) n)) (replicate 4096 0) (fs st);
           if bytes_read < 0 then complain ''cat: '' a '': Error reading file\<newline>'' st
           else if flag_number then map_option (\<lambda>t. say t st) (cat_lines (take (nat bytes_read) buffer) 1 True)
           else Some (say (map byte_char (take (nat bytes_read) buffer)) st) } }"

fun cat_files :: "cbuf list \<Rightarrow> bool \<Rightarrow> shell_st \<Rightarrow> shell_st option" where
  "cat_files [] flag_number st = Some st"
| "cat_files (a # as) flag_number st = do {
     c0 \<leftarrow> char_at a 0;
     if c0 = CHR ''-'' then cat_files as flag_number st
     else do {
       st1 \<leftarrow> cat_file a flag_number st;
       cat_files as flag_number st1 } }"

definition cmd_cat :: "cbuf list \<Rightarrow> shell_st \<Rightarrow> shell_st option" where
  "cmd_cat argv st = do {
     scan \<leftarrow> cat_scan (tl argv) False 0 st;
     case scan of
       Inl st' \<Rightarrow> Some st'
     | Inr (flag_number, file_count) \<Rightarrow>
         if file_count = 0 then Some (say ''Usage: cat [-n] file [file...]\<newline>'' st)
         else cat_files (tl argv) flag_number st }"

fun stat_help :: "cbuf list \<Rightarrow> bool option" where
  "stat_help [] = Some False"
| "stat_help (a # as) = do {
     help \<leftarrow> is_lit a ''--help'';
     h \<leftarrow> is_lit a ''-h'';
     if help \<or> h then Some True else stat_help as }"

fun stat_path :: "cbuf list \<Rightarrow> cbuf option \<Rightarrow> cbuf option option" where
  "stat_path [] p = Some p"
| "stat_path (a # as) p = do {
     c0 \<leftarrow> char_at a 0;
     stat_path as (if c0 \<noteq> CHR ''-'' then Some a else p) }"

definition cmd_stat :: "cbuf list \<Rightarrow> shell_st \<Rightarrow> shell_st option" where
  "cmd_stat argv st =
     (if length argv < 2 then Some (say ''Usage: stat [-h] path\<newline>'' st)
      else do {
        help \<leftarrow> stat_help (tl argv);
        if help then
          Some (say (''Usage: stat [-h] path\<newline>'' @ ''  Display metadata for a file or directory.\<newline>'' @
                     ''  Shows: name, type, size, and inode number.\<newline>'' @ ''  -h    show this help message\<newline>'') st)
        else do {
          path \<leftarrow> stat_path (tl argv) None;
          case path of
            None \<Rightarrow> Some (say (''stat: missing operand\<newline>'' @ ''Try '' @ quot @ ''stat -h'' @ quot @ '' for more information.\<newline>'') st)
          | Some a \<Rightarrow> do {
              node \<leftarrow> resolve_arg a st;
              case node of
                None \<Rightarrow> complain (''stat: cannot stat '' @ quot) a (quot @ '': No such file or directory\<newline>'') st
              | Some n \<Rightarrow> do {
                  let p = node_pool (fs st) n;
                  name \<leftarrow> printed (vname p);
                  sz \<leftarrow> print_number (vlength p);
                  ino \<leftarrow> print_number (inode p);
                  Some (say (''  File: '' @ name @ ''\<newline>'' @ ''  Type: '' @
                    (if vtype p = NODE_DIRECTORY then ''directory\<newline>'' else ''regular file\<newline>'') @
                    ''  Size: '' @ sz @ '' bytes\<newline>'' @ '' Inode: '' @ ino @ ''\<newline>'') st) } } } })"

section \<open>Changing the tree\<close>

abbreviation local_name :: cbuf where
  "local_name \<equiv> replicate VFS_NAME_LENGTH NUL"

text \<open>The index of the last slash, or \<open>-1\<close>.\<close>

fun slash_loop :: "nat list \<Rightarrow> cbuf \<Rightarrow> int \<Rightarrow> int" where
  "slash_loop [] path last_slash = last_slash"
| "slash_loop (i # is) path last_slash = slash_loop is path (if path ! i = CHR ''/'' then int i else last_slash)"

text \<open>\<^verbatim>\<open>for (; src[i] && i < n; i++) dst[i] = src[i]; dst[i] = 0;\<close>\<close>

fun copy_leaf :: "nat \<Rightarrow> cbuf \<Rightarrow> cbuf \<Rightarrow> cbuf option" where
  "copy_leaf n (c # cs) (d # ds) =
     (if c \<noteq> NUL \<and> 0 < n then map_option ((#) c) (copy_leaf (n - 1) cs ds) else Some (NUL # ds))"
| "copy_leaf n _ _ = None"

definition resolve_parent_and_leaf :: "cbuf \<Rightarrow> cbuf \<Rightarrow> shell_st \<Rightarrow> (nat option \<times> cbuf) option" where
  "resolve_parent_and_leaf path leaf_out st = do {
     len \<leftarrow> string_length path;
     let last_slash = slash_loop [0..<len] path (- 1);
     if last_slash < 0 then do {
       leaf \<leftarrow> copy_leaf (length leaf_out - 1) path leaf_out;
       Some (kernel_get_current_directory st, leaf) }
     else do {
       leaf \<leftarrow> copy_leaf (length leaf_out - 1) (drop (Suc (nat last_slash)) path) leaf_out;
       par \<leftarrow>
         (if last_slash = 0 then Some (vfs_get_root (fs st))
          else do {
            let k = min (nat last_slash) (VFS_MAX_PATH_LENGTH - 1);
            pp \<leftarrow> memcpy local_path path k;
            resolve_arg (pp[k := NUL]) st });
       Some (if par = None \<or> vtype (node_pool (fs st) (the par)) \<noteq> NODE_DIRECTORY then None else par, leaf) } }"

definition mkdir_one :: "cbuf \<Rightarrow> shell_st \<Rightarrow> shell_st option" where
  "mkdir_one a st = do {
     (par, leaf) \<leftarrow> resolve_parent_and_leaf a local_name st;
     if par = None then complain ''mkdir: '' a '': No such file or directory\<newline>'' st
     else if hd leaf = NUL then Some (say ''mkdir: invalid directory name\<newline>'' st)
     else do {
       found \<leftarrow> vfs_find_node par leaf (fs st);
       if found \<noteq> None then complain ''mkdir: '' a '': File exists\<newline>'' st
       else do {
         (dir, s1) \<leftarrow> vfs_create_node leaf NODE_DIRECTORY (fs st);
         if dir = None then Some (say ''mkdir: cannot create directory (out of nodes)\<newline>'' (st\<lparr>fs := s1\<rparr>))
         else let (r, s2) = vfs_add_child par dir s1
              in Some (if r \<noteq> 0 then say ''mkdir: cannot create directory (parent full)\<newline>'' (st\<lparr>fs := s2\<rparr>) else st\<lparr>fs := s2\<rparr>) } } }"

definition touch_one :: "cbuf \<Rightarrow> shell_st \<Rightarrow> shell_st option" where
  "touch_one a st = do {
     (par, leaf) \<leftarrow> resolve_parent_and_leaf a local_name st;
     if par = None then complain ''touch: '' a '': No such file or directory\<newline>'' st
     else if hd leaf = NUL then Some (say ''touch: invalid file name\<newline>'' st)
     else do {
       found \<leftarrow> vfs_find_node par leaf (fs st);
       if found \<noteq> None then Some st
       else do {
         (file, s1) \<leftarrow> vfs_create_node leaf NODE_FILE (fs st);
         if file = None then Some (say ''touch: cannot create file (out of nodes)\<newline>'' (st\<lparr>fs := s1\<rparr>))
         else let (r, s2) = vfs_add_child par file s1
              in Some (if r \<noteq> 0 then say ''touch: cannot create file (directory full)\<newline>'' (st\<lparr>fs := s2\<rparr>) else st\<lparr>fs := s2\<rparr>) } } }"

definition rm_one :: "cbuf \<Rightarrow> shell_st \<Rightarrow> shell_st option" where
  "rm_one a st = do {
     (par, leaf) \<leftarrow> resolve_parent_and_leaf a local_name st;
     if par = None then complain ''rm: '' a '': No such file or directory\<newline>'' st
     else do {
       dot \<leftarrow> is_lit leaf ''.'';
       dotdot \<leftarrow> is_lit leaf ''..'';
       if hd leaf = NUL \<or> dot \<or> dotdot then complain (''rm: refusing to remove '' @ quot) a (quot @ ''\<newline>'') st
       else do {
         found \<leftarrow> vfs_find_node par leaf (fs st);
         if found = None then complain ''rm: '' a '': No such file or directory\<newline>'' st
         else do {
           (r, s1) \<leftarrow> vfs_remove_child par leaf (fs st);
           if r \<noteq> 0 then complain ''rm: '' a '': failed to remove\<newline>'' (st\<lparr>fs := s1\<rparr>) else Some (st\<lparr>fs := s1\<rparr>) } } } }"

text \<open>The loop over the arguments.\<close>

fun each_arg :: "(cbuf \<Rightarrow> shell_st \<Rightarrow> shell_st option) \<Rightarrow> cbuf list \<Rightarrow> shell_st \<Rightarrow> shell_st option" where
  "each_arg f [] st = Some st"
| "each_arg f (a # as) st = Option.bind (f a st) (each_arg f as)"

definition cmd_mkdir :: "cbuf list \<Rightarrow> shell_st \<Rightarrow> shell_st option" where
  "cmd_mkdir argv st = (if length argv < 2 then Some (say ''Usage: mkdir <name>\<newline>'' st) else each_arg mkdir_one (tl argv) st)"

definition cmd_touch :: "cbuf list \<Rightarrow> shell_st \<Rightarrow> shell_st option" where
  "cmd_touch argv st = (if length argv < 2 then Some (say ''Usage: touch <name>\<newline>'' st) else each_arg touch_one (tl argv) st)"

definition cmd_rm :: "cbuf list \<Rightarrow> shell_st \<Rightarrow> shell_st option" where
  "cmd_rm argv st = (if length argv < 2 then Some (say ''Usage: rm <name>\<newline>'' st) else each_arg rm_one (tl argv) st)"

text \<open>The payload of \<^verbatim>\<open>write\<close>: buffer and position are the list of bytes stored so far.\<close>

fun payload_word :: "cbuf \<Rightarrow> u8 list \<Rightarrow> u8 list option" where
  "payload_word [] b = None"
| "payload_word (c # cs) b = (if c \<noteq> NUL \<and> length b < 4096 then payload_word cs (b @ [of_char c]) else Some b)"

fun payload :: "cbuf list \<Rightarrow> bool \<Rightarrow> u8 list \<Rightarrow> u8 list option" where
  "payload [] first b = Some b"
| "payload (w # ws) first b =
     (if length b < 4096 then do {
        b1 \<leftarrow> payload_word w (if first then b else b @ [32]);
        payload ws False b1 }
      else Some b)"

definition write_file :: "nat \<Rightarrow> cbuf list \<Rightarrow> shell_st \<Rightarrow> shell_st option" where
  "write_file file words st = do {
     b \<leftarrow> payload words True [];
     let b1 = (if length b < 4096 then b @ [10] else b);
     (written, s1) \<leftarrow> vfs_write (Some file) 0 (of_nat (length b1)) (b1 @ replicate (4096 - length b1) 0) (fs st);
     if written < 0 then Some (say ''write: error writing file\<newline>'' (st\<lparr>fs := s1\<rparr>))
     else Some (st\<lparr>fs := upd_node file (\<lambda>p. p\<lparr>vlength := word_of_int written\<rparr>) s1\<rparr>) }"

definition cmd_write :: "cbuf list \<Rightarrow> shell_st \<Rightarrow> shell_st option" where
  "cmd_write argv st =
     (if length argv < 3 then Some (say ''Usage: write <file> <text...>\<newline>'' st)
      else do {
        let a = argv ! 1;
        (par, leaf) \<leftarrow> resolve_parent_and_leaf a local_name st;
        if par = None then complain ''write: '' a '': No such file or directory\<newline>'' st
        else if hd leaf = NUL then Some (say ''write: invalid file name\<newline>'' st)
        else do {
          file \<leftarrow> vfs_find_node par leaf (fs st);
          case file of
            Some f \<Rightarrow>
              if vtype (node_pool (fs st) f) \<noteq> NODE_FILE then complain ''write: '' a '': Is a directory\<newline>'' st
              else write_file f (drop 2 argv) st
          | None \<Rightarrow> do {
              (file, s1) \<leftarrow> vfs_create_node leaf NODE_FILE (fs st);
              if file = None then Some (say ''write: cannot create file\<newline>'' (st\<lparr>fs := s1\<rparr>))
              else let (r, s2) = vfs_add_child par file s1
                   in if r \<noteq> 0 then Some (say ''write: cannot create file\<newline>'' (st\<lparr>fs := s2\<rparr>))
                      else write_file (the file) (drop 2 argv) (st\<lparr>fs := s2\<rparr>) } } })"

end
