(* ===== verification/Command_Props.thy ===== *)
theory Command_Props
  imports Commands
begin

text \<open>
  What the file commands guarantee: numbers are printed in full, the path of a directory leads back to
  it, and what \<^verbatim>\<open>write\<close> stores \<^verbatim>\<open>cat\<close> prints.
\<close>

section \<open>Numbers\<close>

lemma digit_char: "d < 10 \<Longrightarrow> char_of (48 + d :: nat) = itoa_alphabet ! d"
proof -
  have "list_all (\<lambda>d. char_of (48 + d :: nat) = itoa_alphabet ! d) [0..<10]" by code_simp
  then show "d < 10 \<Longrightarrow> char_of (48 + d :: nat) = itoa_alphabet ! d" by (simp add: list_all_iff)
qed

lemma digit_mem:
  assumes "d < 10"
  shows "itoa_alphabet ! d \<in> set (take 10 itoa_alphabet)"
proof -
  have "length (take 10 itoa_alphabet) = 10" by (simp add: itoa_alphabet_def)
  then show ?thesis using nth_mem [of d "take 10 itoa_alphabet"] assms by (simp del: length_take)
qed

lemma digits_loop_spec:
  "unat v < 10 ^ i \<Longrightarrow> i < length b \<Longrightarrow> \<exists>ds. digits_loop i v b = (i - length ds, take (i - length ds) b @ ds @ drop i b) \<and>
    length ds \<le> i \<and> digits_val 10 ds = int (unat v) \<and> (v > 0 \<longrightarrow> is_numeral 10 ds \<and> 10 ^ (length ds - 1) \<le> unat v)"
proof (induction i arbitrary: v b)
  case 0
  then show ?case by (intro exI [of _ "[]"]) (simp add: unat_eq_zero)
next
  case (Suc i)
  show ?case
  proof (cases "v > 0")
    case False
    then have "v = 0" by (simp add: word_gt_0)
    then show ?thesis by (intro exI [of _ "[]"]) simp
  next
    case True
    let ?d = "unat (v mod 10)" and ?c = "char_of (48 + unat (v mod 10)) :: char"
    have u: "unat (v div 10) = unat v div 10" "?d = unat v mod 10" by (simp_all add: unat_div unat_mod)
    then have d: "?d < 10" by simp
    have "unat (v div 10) < 10 ^ i" using Suc.prems(1) u(1) by (simp add: less_mult_imp_div_less mult.commute)
    then obtain ds where ds: "digits_loop i (v div 10) (b[i := ?c]) = (i - length ds, take (i - length ds) (b[i := ?c]) @ ds @ drop i (b[i := ?c]))"
        "length ds \<le> i" "digits_val 10 ds = int (unat (v div 10))" "v div 10 > 0 \<longrightarrow> is_numeral 10 ds \<and> 10 ^ (length ds - 1) \<le> unat (v div 10)"
      using Suc.IH [of "v div 10" "b[i := ?c]"] Suc.prems(2) by auto
    have c: "?c = itoa_alphabet ! ?d" by (rule digit_char [OF d])
    then have dv: "digit_of ?c = int ?d" using d alphabet_nth(1) [of ?d] by simp
    have nm: "?c \<in> set (take 10 itoa_alphabet)" unfolding c by (rule digit_mem [OF d])
    have val: "digits_val 10 (ds @ [?c]) = int (unat v)"
      unfolding digits_val_snoc ds(3) dv unfolding u using div_mult_mod_eq [of "unat v" 10] by linarith
    have "is_numeral 10 (ds @ [?c]) \<and> 10 ^ (length (ds @ [?c]) - 1) \<le> unat v"
    proof (cases "v div 10 > 0")
      case True
      then have n: "is_numeral 10 ds" "10 ^ (length ds - 1) \<le> unat v div 10" using ds(4) u(1) by simp_all
      then have "10 ^ length ds = 10 * (10 :: nat) ^ (length ds - 1)" by (cases ds) (simp_all add: is_numeral_def)
      then show ?thesis using n nm by (auto simp: is_numeral_def)
    next
      case False
      have "digits_loop i (v div 10) (b[i := ?c]) = (i, b[i := ?c])" using False by (cases i) auto
      then have "i - length ds = i" using ds(1) by simp
      then have "length ds = 0" using ds(2) by linarith
      then show ?thesis using nm True by (simp add: is_numeral_def word_gt_0 Suc_le_eq unat_gt_0)
    qed
    moreover have "drop i (b[i := ?c]) = ?c # drop (Suc i) b" using Suc.prems(2) by (simp add: Cons_nth_drop_Suc [symmetric] drop_update_cancel)
    ultimately show ?thesis using True ds(1,2) val by (intro exI [of _ "ds @ [?c]"]) (simp add: take_update_cancel)
  qed
qed

lemma print_number_spec:
  obtains ds where "print_number v = Some ds" "canonical 10 ds" "digits_val 10 ds = int (unat v)" "length ds \<le> 10"
proof (cases "v = 0")
  case True
  have "canonical 10 ''0''" "digits_val 10 ''0'' = 0" by code_simp+
  then show thesis using that [of "''0''"] True by (simp add: print_number_def)
next
  case False
  let ?b = "(replicate 11 NUL)[10 := NUL]"
  have "unat v < 10 ^ 10" using unat_u32_less [of v] by simp
  then obtain ds where ds: "digits_loop 10 v ?b = (10 - length ds, take (10 - length ds) ?b @ ds @ drop 10 ?b)" "length ds \<le> 10"
      "digits_val 10 ds = int (unat v)" "is_numeral 10 ds" "10 ^ (length ds - 1) \<le> unat v"
    using digits_loop_spec [of v 10 ?b] False by (auto simp: word_gt_0)
  have "drop 10 ?b = [NUL]" by code_simp
  then have "drop (10 - length ds) (take (10 - length ds) ?b @ ds @ drop 10 ?b) = ds @ [NUL]" using ds(2) by simp
  then have "print_number v = printed (ds @ [NUL])" using False ds(1) by (simp add: print_number_def)
  also have "\<dots> = Some ds" using is_numeral_no_special(1) [OF ds(4)] by (simp add: printed_def)
  finally have p: "print_number v = Some ds" .
  have "int (10 ^ (length ds - 1)) \<le> digits_val 10 ds" unfolding ds(3) using ds(5) by (simp only: of_nat_le_iff)
  then have "canonical 10 ds" using canonicalI [OF _ ds(4)] by simp
  then show thesis using that p ds by blast
qed

text \<open>
  C19. Numbers are printed in full: for every 32-bit value the eleven-byte buffer of \<^verbatim>\<open>print_number\<close>
  suffices, and the text printed is the decimal numeral of the number, without leading zeros and
  of at most ten digits.
\<close>

theorem print_number_decimal:
  "\<exists>ds. print_number v = Some ds \<and> canonical 10 ds \<and> digits_val 10 ds = int (unat v) \<and> length ds \<le> 10"
  using print_number_spec [of v] by blast

section \<open>The path of a directory\<close>

inductive path_to :: "vfs \<Rightarrow> nat \<Rightarrow> string list \<Rightarrow> bool" for s where
  root: "vfs_root s = Some r \<Longrightarrow> path_to s r []"
| child: "path_to s d ns \<Longrightarrow> (n, c) \<in> set (entries s d) \<Longrightarrow> path_to s c (ns @ [n])"

definition path_string :: "string list \<Rightarrow> string" where
  "path_string ns = concat (map ((#) (CHR ''/'')) ns)"

lemma path_string_simps [simp]: "path_string [] = []" "path_string (ns @ [n]) = path_string ns @ CHR ''/'' # n"
  by (simp_all add: path_string_def)

lemma path_to_reach: "path_to s d ns \<Longrightarrow> reach s d"
  by (induction rule: path_to.induct) (auto intro: reach.intros)

lemma reach_path_to: "reach s d \<Longrightarrow> \<exists>ns. path_to s d ns"
  by (induction rule: reach.induct) (auto intro: path_to.intros)

text \<open>No reachable directory contains itself.\<close>

lemma entry_not_self:
  assumes wf: "vfs_wf s" and "path_to s d ns" and "(n, c) \<in> set (entries s d)"
  shows "c \<noteq> d"
  using assms(2,3)
proof (induction arbitrary: n c rule: path_to.induct)
  case (root r)
  then have "live s r" using reach_live [OF wf reach.root] by blast
  then show ?case using entry_facts(3) [OF wf _ root(2)] root(1) by auto
next
  case (child e ns m d)
  have e: "live s e" "live s d"
    using reach_live [OF wf] path_to_reach [OF child.hyps(1)] reach.child [OF path_to_reach [OF child.hyps(1)] child.hyps(2)] by blast+
  show ?case
  proof
    assume "c = d"
    then have "parent (node_pool s d) = Some d" using entry_facts(2) [OF wf e(2) child.prems] by simp
    moreover have "parent (node_pool s d) = Some e" by (rule entry_facts(2) [OF wf e(1) child.hyps(2)])
    ultimately show False using child.IH [OF child.hyps(2)] by simp
  qed
qed

lemma path_up_step:
  assumes "node_ok (node_pool s n)" and "parent (node_pool s n) = Some p" and "p \<noteq> n"
    and "length temp = 256" and "length path = 256" and "terminated path"
  obtains (fits) T P where "path_up s (Some n) temp path = path_up s (Some p) T P" "cstring P = CHR ''/'' # nname s n @ cstring path"
      "length T = 256" "length P = 256" "terminated P" "Suc (length (nname s n) + length (cstring path)) < 256"
    | (overflow) "path_up s (Some n) temp path = None" "256 \<le> Suc (length (nname s n) + length (cstring path))"
proof -
  let ?v = "vname (node_pool s n)"
  have v: "terminated ?v" "length (nname s n) < 128" "cstring ?v = nname s n"
    using assms(1) length_cstring_less [of ?v] by (simp_all add: node_ok_def nname_def)
  have no: "NUL \<notin> set (nname s n)" "NUL \<notin> set (cstring path)" by (simp_all add: nname_def)
  define t1 where "t1 = ''/'' @ NUL # drop 2 temp"
  have t1: "string_copy temp (cstr ''/'') = Some t1" "terminated t1" "cstring t1 = ''/''" "length t1 = 256"
    using string_copy_eq [of "cstr ''/''" temp] assms(4) by (simp_all add: t1_def numeral_2_eq_2)
  define t2 where "t2 = ''/'' @ nname s n @ NUL # drop (Suc (Suc (length (nname s n)))) t1"
  have "string_concat t1 ?v = Some t2" using string_concat_eq [OF t1(2) v(1)] v(2,3) t1(3,4) by (simp add: t2_def)
  moreover have l2: "length t2 = 256" using v(2) t1(4) by (simp add: t2_def)
  moreover have c2: "terminated t2" "cstring t2 = CHR ''/'' # nname s n"
    using no terminated_append_NUL [of "CHR ''/'' # nname s n"] cstring_append_NUL [of "CHR ''/'' # nname s n"] by (simp_all add: t2_def)
  ultimately have up: "path_up s (Some n) temp path =
      Option.bind (string_concat t2 path) (\<lambda>t3. Option.bind (string_copy path t3) (\<lambda>P. path_up s (Some p) t3 P))"
    using t1(1) assms(2,3) by (subst path_up.simps) simp
  show thesis
  proof (cases "Suc (length (nname s n) + length (cstring path)) < 256")
    case True
    define w where "w = CHR ''/'' # nname s n @ cstring path"
    have w: "NUL \<notin> set w" "length w < 256" using no True by (simp_all add: w_def)
    define t3 where "t3 = w @ NUL # drop (Suc (length w)) t2"
    have t3: "string_concat t2 path = Some t3" using string_concat_eq [OF c2(1) assms(6)] c2(2) l2 True by (simp add: t3_def w_def)
    have c3: "terminated t3" "cstring t3 = w" "length t3 = 256" using w l2 by (simp_all add: t3_def)
    define P where "P = w @ NUL # drop (Suc (length w)) path"
    have "string_copy path t3 = Some P" using string_copy_eq [OF c3(1), of path] c3(2) assms(5) True by (simp add: P_def w_def)
    then have "path_up s (Some n) temp path = path_up s (Some p) t3 P" using up t3 by simp
    moreover have "terminated P" "cstring P = w" "length P = 256" using w assms(5) by (simp_all add: P_def)
    ultimately show thesis using fits c3(3) True by (simp add: w_def)
  next
    case False
    then have "string_concat t2 path = None"
      using string_concat_Some_iff [OF c2(1) assms(6)] c2(2) l2 by auto
    then show thesis using overflow up False by simp
  qed
qed

lemma path_up_spec:
  assumes wf: "vfs_wf s"
  shows "path_to s d ns \<Longrightarrow> length temp = 256 \<Longrightarrow> length path = 256 \<Longrightarrow> terminated path \<Longrightarrow>
    (if length (path_string ns) + length (cstring path) < 256
     then \<exists>b. path_up s (Some d) temp path = Some b \<and> cstring b = path_string ns @ cstring path \<and> terminated b \<and> length b = 256
     else path_up s (Some d) temp path = None)"
proof (induction arbitrary: temp path rule: path_to.induct)
  case (root r)
  then have "parent (node_pool s r) = Some r" using wf by (auto simp: vfs_wf_def root_ok_def)
  then show ?case using root length_cstring_less [OF root(4)] by (simp add: path_up.simps)
next
  case (child d ns n c)
  have l: "live s d" by (rule reach_live [OF wf path_to_reach [OF child.hyps(1)]])
  note e = entry_facts [OF wf l child.hyps(2)]
  have ok: "node_ok (node_pool s c)" by (rule vfs_wfD(1) [OF wf e(1)])
  have dc: "d \<noteq> c" using entry_not_self [OF wf child.hyps] by simp
  show ?case
  proof (rule path_up_step [OF ok e(2) dc child.prems])
    fix T P
    assume P: "path_up s (Some c) temp path = path_up s (Some d) T P" "cstring P = CHR ''/'' # nname s c @ cstring path"
      "length T = 256" "length P = 256" "terminated P"
    show ?thesis using child.IH [OF P(3-5)] P(1,2) e(4) by (simp split: if_splits)
  next
    assume "path_up s (Some c) temp path = None" "256 \<le> Suc (length (nname s c) + length (cstring path))"
    then show ?thesis using e(4) by simp
  qed
qed

text \<open>A path printed as a chain of names is read back as that chain.\<close>

lemma tokens_path: "(\<And>n. n \<in> set ns \<Longrightarrow> n \<noteq> [] \<and> CHR ''/'' \<notin> set n) \<Longrightarrow> tokens ''/'' (path_string ns) = ns"
proof (induction ns rule: rev_induct)
  case Nil
  then show ?case by (simp add: tokens.simps)
next
  case (snoc n ns)
  then show ?case by (simp add: tokens_snoc)
qed

lemma walk_path:
  assumes wf: "vfs_wf s" and r: "vfs_root s = Some r"
  shows "path_to s d ns \<Longrightarrow> (\<And>n. n \<in> set ns \<Longrightarrow> n \<notin> {''.'', ''..''}) \<Longrightarrow> walk s r ns = Some d"
proof (induction rule: path_to.induct)
  case (root r')
  then show ?case using r by simp
next
  case (child d ns n c)
  have l: "live s d" by (rule reach_live [OF wf path_to_reach [OF child.hyps(1)]])
  have "distinct (map fst (entries s d))" using vfs_wfD(2) [OF wf l entry_dir [OF child.hyps(2)]] by (simp add: dir_ok_def)
  then have "map_of (entries s d) n = Some c" using child.hyps(2) by (simp add: map_of_is_SomeI)
  then show ?case using child by (simp add: walk_append go_def)
qed

text \<open>
  C18. \<^verbatim>\<open>pwd\<close> ends, and the path it prints leads back to the current directory: for a directory whose names
  contain no slash and are not \<open>.\<close> or \<open>..\<close>, the text printed resolves to it, provided that it has
  fewer than 256 characters; with a longer one the loop runs past the end of its buffer.
\<close>

theorem pwd_round_trip:
  assumes "vfs_wf (fs st)" and "cwd st = Some d" and "path_to (fs st) d ns"
    and "\<And>n. n \<in> set ns \<Longrightarrow> n \<noteq> [] \<and> CHR ''/'' \<notin> set n \<and> n \<notin> {''.'', ''..''}"
  defines "t \<equiv> if ns = [] then ''/'' else path_string ns"
  shows "if length (path_string ns) < 256
    then cmd_pwd argv st = Some (st\<lparr>out := out st @ t @ ''\<newline>''\<rparr>) \<and> vfs_resolve_path (Some (cstr t)) (fs st) = Some (Some d)
    else cmd_pwd argv st = None"
proof -
  let ?l = "local_path[0 := NUL]"
  have l: "terminated ?l" "cstring ?l = []" "length ?l = 256" by (simp_all add: numeral_eq_Suc)
  note U = path_up_spec [OF assms(1,3) _ l(3,1), of local_path, unfolded l(2)]
  show ?thesis
  proof (cases "length (path_string ns) < 256")
    case True
    then obtain b where b: "path_up (fs st) (Some d) local_path ?l = Some b" "cstring b = path_string ns" "terminated b" "length b = 256"
      using U by auto
    have ns: "ns = [] \<longleftrightarrow> hd b = NUL" using b(2-4) by (cases b; cases ns) (auto simp: path_string_def split: if_splits)
    have pwd: "cmd_pwd argv st = Some (st\<lparr>out := out st @ t @ ''\<newline>''\<rparr>)"
      using assms(2) b ns by (simp add: cmd_pwd_def kernel_get_current_directory_def t_def say_def say_buf_def printed_def)
    obtain r where r: "vfs_root (fs st) = Some r" using assms(1) by (auto simp: vfs_wf_def root_ok_def)
    have "NUL \<notin> set (path_string ns)" using b(2) NUL_notin_cstring [of b] by simp
    then have nt: "NUL \<notin> set t" by (simp add: t_def)
    define q where "q = tl t"
    have tq: "t = CHR ''/'' # q" by (cases ns) (auto simp: t_def q_def path_string_def)
    have "tokens ''/'' (CHR ''/'' # q) = tokens ''/'' q" by (subst (1 2) tokens.simps) simp
    moreover have "tokens ''/'' t = ns" using tokens_path [of ns] assms(4) by (auto simp: t_def tokens.simps)
    ultimately have "tokens ''/'' q = ns" using tq by simp
    moreover have "length q < 256" using True by (auto simp: t_def q_def)
    ultimately have "vfs_resolve_path (Some (cstr t)) (fs st) = Some (walk (fs st) r ns)"
      using resolve_path_walk [OF assms(1) r, of "cstr t" q] nt tq by simp
    then show ?thesis using True pwd walk_path [OF assms(1) r assms(3)] assms(4) by simp
  next
    case False
    then have "path_up (fs st) (Some d) local_path ?l = None" using U by simp
    then show ?thesis using False assms(2) by (simp add: cmd_pwd_def kernel_get_current_directory_def)
  qed
qed

lemma boot_etc: "path_to vfs_boot 2 [''etc'']"
  using path_to.child [OF path_to.root [OF boot_facts(2)], of "''etc''" 2] boot_facts(7) by simp

theorem pwd_round_trip_witness:
  "cmd_pwd [] \<lparr>fs = vfs_boot, cwd = Some 2, out = []\<rparr> = Some \<lparr>fs = vfs_boot, cwd = Some 2, out = ''/etc\<newline>''\<rparr> \<and>
   vfs_resolve_path (Some (cstr ''/etc'')) vfs_boot = Some (Some 2)"
  using pwd_round_trip [of "\<lparr>fs = vfs_boot, cwd = Some 2, out = []\<rparr>" 2 "[''etc'']" "[]"] boot_facts(1) boot_etc
  by (simp add: path_string_def)

section \<open>The last component of a path\<close>

lemma slash_loop_snoc: "slash_loop (is @ [i]) path r = (if path ! i = CHR ''/'' then int i else slash_loop is path r)"
  by (induction "is" arbitrary: r) auto

lemma slash_loop_last:
  "k < len \<Longrightarrow> path ! k = CHR ''/'' \<Longrightarrow> (\<And>j. k < j \<Longrightarrow> j < len \<Longrightarrow> path ! j \<noteq> CHR ''/'') \<Longrightarrow> slash_loop [0..<len] path r = int k"
proof (induction len)
  case (Suc len)
  then show ?case by (cases "k = len") (auto simp: slash_loop_snoc)
qed simp

lemma copy_leaf_spec:
  "terminated src \<Longrightarrow> length (cstring src) \<le> n \<Longrightarrow> n < length dst \<Longrightarrow>
   copy_leaf n src dst = Some (cstring src @ NUL # drop (Suc (length (cstring src))) dst)"
  by (induction n src dst rule: copy_leaf.induct) (auto split: if_splits)

text \<open>The directory part of an absolute path is resolved, the rest is the name.\<close>

lemma parent_and_leaf_spec:
  assumes wf: "vfs_wf (fs st)" and r: "vfs_root (fs st) = Some r" and d: "walk (fs st) r (tokens ''/'' p) = Some d"
    and dir: "vtype (node_pool (fs st) d) = NODE_DIRECTORY" and nul: "NUL \<notin> set p" "NUL \<notin> set name"
    and name: "CHR ''/'' \<notin> set name" "length name < 128" "length p < 254"
  obtains leaf where "resolve_parent_and_leaf (cstr (CHR ''/'' # p @ CHR ''/'' # name)) local_name st = Some (Some d, leaf)"
    "terminated leaf" "cstring leaf = name"
proof -
  define path where "path = cstr (CHR ''/'' # p @ CHR ''/'' # name)"
  have c: "cstring path = CHR ''/'' # p @ CHR ''/'' # name" "terminated path" using nul by (simp_all add: path_def)
  have len: "string_length path = Some (length p + length name + 2)" using c by (simp add: string_length_eq)
  have p0: "path = (CHR ''/'' # p) @ CHR ''/'' # cstr name" by (simp add: path_def cstr_def)
  have sl: "slash_loop [0..<length p + length name + 2] path (- 1) = int (Suc (length p))"
  proof (rule slash_loop_last)
    show "path ! Suc (length p) = CHR ''/''" using p0 by simp
    fix j assume j: "Suc (length p) < j" "j < length p + length name + 2"
    define i where "i = j - length p - 2"
    have i: "i < length name" "j = length (CHR ''/'' # p @ ''/'') + i" using j by (simp_all add: i_def)
    have "path = (CHR ''/'' # p @ ''/'') @ name @ [NUL]" by (simp add: p0 cstr_def)
    then have "path ! j = (name @ [NUL]) ! i" unfolding i(2) by (simp only: nth_append_length_plus)
    then have "path ! j = name ! i" using i(1) by (simp add: nth_append)
    then show "path ! j \<noteq> CHR ''/''" using i(1) name(1) nth_mem by metis
  qed simp
  define leaf where "leaf = name @ NUL # drop (Suc (length name)) local_name"
  have dr: "drop (Suc (Suc (length p))) path = cstr name" using p0 by simp
  have leaf: "copy_leaf 127 (drop (Suc (Suc (length p))) path) local_name = Some leaf"
    unfolding dr using copy_leaf_spec [of "cstr name" 127 local_name] nul(2) name(2) by (simp add: leaf_def)
  let ?k = "Suc (length p)"
  have mc: "memcpy local_path path ?k = Some (take ?k path @ drop ?k local_path)"
    using memcpy_eq [of ?k local_path path] name(3) p0 by simp
  have pp: "(take ?k path @ drop ?k local_path)[?k := NUL] = cstr (CHR ''/'' # p) @ drop (Suc ?k) local_path"
  proof -
    have "take ?k path = CHR ''/'' # p" using p0 by simp
    moreover have "drop ?k local_path = NUL # drop (Suc ?k) local_path" using name(3) Cons_nth_drop_Suc [of ?k local_path] by simp
    ultimately show ?thesis by (simp add: cstr_def list_update_append)
  qed
  let ?b = "cstr (CHR ''/'' # p) @ drop (Suc ?k) local_path"
  have "vfs_resolve_path (Some ?b) (fs st) = Some (Some d)"
    using resolve_path_walk [OF wf r, of ?b p] nul(1) name(3) d cstring_append_NUL [of p] terminated_append_NUL [of p] by (simp add: cstr_def)
  then have ra: "resolve_arg ?b st = Some (Some d)" by (simp add: resolve_arg_def char_at_def cstr_def)
  have nat: "nat (1 + int (length p)) = Suc (length p)" by simp
  have "resolve_parent_and_leaf path local_name st = Some (Some d, leaf)"
    using nat len sl leaf mc ra dir name(3) unfolding pp [symmetric]
    by (simp add: resolve_parent_and_leaf_def min_def Let_def)
  moreover have "terminated leaf" "cstring leaf = name" using nul(2) by (simp_all add: leaf_def)
  ultimately show thesis using that by (simp add: path_def)
qed

section \<open>Writing and reading a file\<close>

fun joined :: "bool \<Rightarrow> string list \<Rightarrow> string" where
  "joined first [] = []"
| "joined first (w # ws) = (if first then [] else '' '') @ w @ joined False ws"

lemma payload_word_spec:
  "terminated w \<Longrightarrow> length b + length (cstring w) \<le> 4096 \<Longrightarrow> payload_word w b = Some (b @ map of_char (cstring w))"
  by (induction w b rule: payload_word.induct) auto

lemma payload_spec:
  "(\<And>w. w \<in> set ws \<Longrightarrow> NUL \<notin> set w) \<Longrightarrow> length b + length (joined first ws) < 4096 \<Longrightarrow>
    payload (map cstr ws) first b = Some (b @ map of_char (joined first ws))"
proof (induction ws arbitrary: first b)
  case (Cons w ws)
  let ?b = "if first then b else b @ [32]"
  have "payload_word (cstr w) ?b = Some (?b @ map of_char w)"
    using payload_word_spec [of "cstr w" ?b] Cons.prems by auto
  moreover have "payload (map cstr ws) False (?b @ map of_char w) = Some ((?b @ map of_char w) @ map of_char (joined False ws))"
    by (rule Cons.IH) (use Cons.prems in auto)
  moreover have "of_char (CHR '' '') = (32 :: u8)" by code_simp
  ultimately show ?case using Cons.prems by auto
qed simp

lemma byte_char_of_char [simp]: "byte_char (of_char c) = c"
proof -
  have m: "of_char c mod 256 = (of_char c :: nat)" by simp
  have "(of_char c :: u8) = of_nat (of_char c)" by (cases c) simp
  then have "unat (of_char c :: u8) = of_char c mod 256" using unat_of_nat [of "of_char c", where 'a = 8] by simp
  then show ?thesis by (simp add: byte_char_def)
qed

text \<open>A state with the same tree: everything that path resolution reads.\<close>

definition same_tree :: "vfs \<Rightarrow> vfs \<Rightarrow> bool" where
  "same_tree s t \<longleftrightarrow> vfs_root t = vfs_root s \<and> (\<forall>i. live t i = live s i \<and> entries t i = entries s i \<and>
     parent (node_pool t i) = parent (node_pool s i) \<and> vtype (node_pool t i) = vtype (node_pool s i))"

lemma same_tree_walk: "same_tree s t \<Longrightarrow> walk t c ts = walk s c ts"
  by (induction ts arbitrary: c) (auto simp: same_tree_def go_def split: option.split)

lemma write_file_spec:
  assumes wf: "vfs_wf (fs st)" and f: "live (fs st) f" "vtype (node_pool (fs st) f) = NODE_FILE"
    and ws: "\<And>w. w \<in> set ws \<Longrightarrow> NUL \<notin> set w" "length (joined True ws) < 4096"
  defines "text \<equiv> joined True ws @ ''\<newline>''"
  obtains t where "write_file f (map cstr ws) st = Some (st\<lparr>fs := t\<rparr>)" "vfs_wf t" "same_tree (fs st) t"
    "unat (vlength (node_pool t f)) = length text" "map byte_char (take (length text) (content (node_pool t f))) = text"
proof -
  let ?s = "fs st" and ?n = "length text"
  define b1 where "b1 = (map of_char text :: u8 list)"
  have n1: "?n \<le> 4096" using ws(2) by (simp add: text_def)
  then have n: "?n \<le> 4096" "length b1 = ?n" "unat (of_nat ?n :: u32) = ?n" by (simp_all add: b1_def unat_of_nat)
  have pay: "payload (map cstr ws) True [] = Some (map of_char (joined True ws))" using payload_spec [of ws "[]" True] ws by simp
  have b1': "(if length (map of_char (joined True ws) :: u8 list) < 4096 then map of_char (joined True ws) @ [10] else map of_char (joined True ws)) = b1"
    using ws(2) by (simp add: b1_def text_def)
  let ?buf = "b1 @ replicate (4096 - length b1) 0"
  have ok: "node_ok (node_pool ?s f)" by (rule vfs_wfD(1) [OF wf f(1)])
  let ?g = "\<lambda>c p. p\<lparr>content := c, vlength := (if ?n > unat (vlength p) then of_nat ?n else vlength p)\<rparr>"
  have m: "min ?n 4096 = ?n" using n(1) by simp
  obtain c where c: "vfs_write (Some f) 0 (of_nat ?n) ?buf ?s = Some (int ?n, upd_node f (?g c) ?s)" "length c = 4096"
      "\<And>j. j < 4096 \<Longrightarrow> c ! j = (if j < ?n then ?buf ! j else content (node_pool ?s f) ! j)"
    by (rule ramfs_write_spec [OF ok f(2), of 0 "of_nat ?n" ?buf, unfolded n(3) unsigned_0 add_0 diff_zero m])
      (use n in simp_all)
  let ?h = "\<lambda>p. p\<lparr>content := c, vlength := of_nat ?n\<rparr>"
  define t where "t = upd_node f ?h ?s"
  have h: "upd_node f (\<lambda>p. p\<lparr>vlength := word_of_int (int ?n)\<rparr>) (upd_node f (?g c) ?s) = t"
    by (simp add: t_def upd_node_def)
  have "write_file f (map cstr ws) st = Some (st\<lparr>fs := t\<rparr>)"
    using pay c(1) n(2) h unfolding write_file_def Let_def by (simp only: bind.bind_lunit b1' prod.case) simp
  moreover have "node_ok (?h (node_pool ?s f))" using ok c(2) n by (simp add: node_ok_def)
  then have u: "vfs_wf t" "entries t d = entries ?s d" for d
    unfolding t_def using update_node_wf [OF wf, of ?h f] by simp_all
  moreover have "same_tree ?s t" using u(2) by (simp add: same_tree_def t_def live_def)
  moreover have "take ?n c = b1" using c(2,3) n by (intro nth_equalityI) (auto simp: nth_append)
  then have "map byte_char (take ?n (content (node_pool t f))) = text" by (simp add: t_def b1_def comp_def)
  ultimately show thesis using that n(3) by (simp add: t_def)
qed

lemma is_lit_eq: "terminated a \<Longrightarrow> NUL \<notin> set t \<Longrightarrow> is_lit a t = Some (cstring a = t)"
  using string_compare_cases [of a "cstr t"] by (auto simp: is_lit_def)

lemma cmd_cat_one:
  assumes "resolve_arg (cstr (CHR ''/'' # q)) st = Some (Some f)" and "NUL \<notin> set q" and "vfs_wf (fs st)" and "live (fs st) f"
    and "vtype (node_pool (fs st) f) = NODE_FILE"
  shows "cmd_cat [x, cstr (CHR ''/'' # q)] st =
    Some (say (map byte_char (take (unat (vlength (node_pool (fs st) f))) (content (node_pool (fs st) f)))) st)"
proof -
  let ?a = "cstr (CHR ''/'' # q)" and ?p = "node_pool (fs st) f"
  have ok: "node_ok ?p" by (rule vfs_wfD(1) [OF assms(3,4)])
  have l: "unat (vlength ?p) \<le> 4096" using ok by (simp add: node_ok_def)
  have t: "terminated ?a" "cstring ?a = CHR ''/'' # q" using assms(2) by simp_all
  have scan: "cat_scan [?a] False 0 st = Some (Inr (False, 1))"
    using is_lit_eq [OF t(1)] t(2) by (simp add: char_at_def cstr_def)
  have rd: "vfs_read (Some f) 0 (vlength ?p) (replicate 4096 0) (fs st) =
      Some (int (unat (vlength ?p)), take (unat (vlength ?p)) (content ?p) @ replicate (4096 - unat (vlength ?p)) 0)"
    using ramfs_read_spec [OF ok assms(5), of 0 "vlength ?p" "replicate 4096 0"] l unat_u32_less [of "vlength ?p"] by simp
  have "take (unat (vlength ?p)) (take (unat (vlength ?p)) (content ?p) @ replicate (4096 - unat (vlength ?p)) 0) = take (unat (vlength ?p)) (content ?p)"
    using l ok by (simp add: node_ok_def)
  then have "cat_file ?a False st = Some (say (map byte_char (take (unat (vlength ?p)) (content ?p))) st)"
    using assms(1,5) rd by (simp add: cat_file_def del: of_nat_unat take_append)
  moreover have "char_at ?a 0 = Some (CHR ''/'')" by (simp add: char_at_def cstr_def)
  ultimately show ?thesis using scan by (simp add: cmd_cat_def)
qed

lemma resolve_arg_abs:
  assumes "vfs_wf (fs st)" and "vfs_root (fs st) = Some r" and "NUL \<notin> set q" and "length q < 256"
  shows "resolve_arg (cstr (CHR ''/'' # q)) st = Some (walk (fs st) r (tokens ''/'' q))"
  using resolve_path_walk [OF assms(1,2), of "cstr (CHR ''/'' # q)" q] assms(3,4)
  by (simp add: resolve_arg_def char_at_def cstr_def)

text \<open>The file that \<^verbatim>\<open>write\<close> works on: the one found, or a new one.\<close>

lemma cmd_write_target:
  assumes wf: "vfs_wf (fs st)" and r: "vfs_root (fs st) = Some r" and d: "walk (fs st) r (tokens ''/'' p) = Some d"
    and dir: "vtype (node_pool (fs st) d) = NODE_DIRECTORY" and nul: "NUL \<notin> set p" "NUL \<notin> set name"
    and name: "name \<noteq> []" "CHR ''/'' \<notin> set name" "name \<notin> {''.'', ''..''}" "length name < 128" "length p + length name < 254"
    and room: "case map_of (entries (fs st) d) name of
        Some f \<Rightarrow> vtype (node_pool (fs st) f) = NODE_FILE
      | None \<Rightarrow> length (entries (fs st) d) < 32 \<and> (\<exists>i<128. \<not> live (fs st) i)"
    and ws: "ws \<noteq> []"
  obtains f s where "cmd_write (x # cstr (CHR ''/'' # p @ CHR ''/'' # name) # map cstr ws) st = write_file f (map cstr ws) (st\<lparr>fs := s\<rparr>)"
    "vfs_wf s" "vfs_root s = Some r" "live s f" "vtype (node_pool s f) = NODE_FILE"
    "walk s r (tokens ''/'' (p @ CHR ''/'' # name)) = Some f"
proof -
  let ?s = "fs st" and ?path = "cstr (CHR ''/'' # p @ CHR ''/'' # name)"
  have rd: "reach ?s d" by (rule walk_reach [OF wf reach.root [OF r] d])
  have live: "live ?s d" by (rule reach_live [OF wf rd])
  have "length p < 254" using name(5) by simp
  then obtain leaf where leaf: "resolve_parent_and_leaf ?path local_name st = Some (Some d, leaf)" "terminated leaf" "cstring leaf = name"
    by (rule parent_and_leaf_spec [OF wf r d dir nul name(2,4)])
  have hd: "hd leaf \<noteq> NUL" using leaf(2,3) name(1) by (cases leaf) auto
  have find: "vfs_find_node (Some d) leaf ?s = Some (map_of (entries ?s d) name)"
    using vfs_find_node_spec [OF wf live leaf(2)] leaf(3) by simp
  have len: "\<not> length (x # ?path # map cstr ws) < 3" using ws by (cases ws) auto
  have tok: "tokens ''/'' (p @ CHR ''/'' # name) = tokens ''/'' p @ [name]" by (rule tokens_snoc [OF name(1,2)])
  show thesis
  proof (cases "map_of (entries ?s d) name")
    case (Some f)
    then have e: "(name, f) \<in> set (entries ?s d)" by (rule map_of_SomeD)
    have "cmd_write (x # ?path # map cstr ws) st = write_file f (map cstr ws) (st\<lparr>fs := ?s\<rparr>)"
      using len leaf(1) hd find Some room by (simp add: cmd_write_def)
    then show thesis
      by (rule that) (use wf r entry_facts(1) [OF wf live e] Some room d tok name(3) in \<open>simp_all add: walk_append go_def\<close>)
  next
    case None
    then have new: "cstring leaf \<notin> fst ` set (entries ?s d)" using leaf(3) by (simp add: map_of_eq_None_iff)
    have ll: "length (cstring leaf) < 128" using leaf(3) name(4) by simp
    have free: "\<exists>i<128. \<not> live ?s i" "length (entries ?s d) < 32" using room None by auto
    show thesis
      using wf live dir leaf(2) ll new
    proof (cases rule: link_cases [where type = NODE_FILE])
      case no_node
      then show thesis using free(1) by blast
    next
      case (full c s1)
      then show thesis using free(2) by simp
    next
      case (linked c s1 t)
      have "cmd_write (x # ?path # map cstr ws) st = write_file c (map cstr ws) (st\<lparr>fs := t\<rparr>)"
        using len leaf(1) hd find None linked(1,2) by (simp add: cmd_write_def)
      moreover have ent: "map_of (entries t e) n = Some y" if "live ?s e" "map_of (entries ?s e) n = Some y" for e n y
        using that linked(4,5) map_of_snoc [OF new, of c] map_of_eq_None_iff [of "entries ?s d" name] new leaf(3)
        by (cases "e = d") (auto split: if_splits)
      have "walk t r (tokens ''/'' p) = Some d"
        by (rule walk_mono [OF wf linked(11) ent reach.root [OF r] d])
      then have "walk t r (tokens ''/'' (p @ CHR ''/'' # name)) = Some c"
        using tok name(3) linked(4) map_of_snoc [OF new, of c] leaf(3) by (simp add: walk_append go_def)
      ultimately show thesis using that linked(3,6,7,9) r by simp
    qed
  qed
qed

text \<open>
  C12. What \<^verbatim>\<open>write\<close> stores \<^verbatim>\<open>cat\<close> prints: for an absolute path whose directory exists, a file that is
  there or can be created, and words of less than 4096 characters together, \<^verbatim>\<open>write path words\<close>
  succeeds silently and keeps the tree well formed, and \<^verbatim>\<open>cat path\<close> then prints exactly the words,
  separated by spaces and ended by a newline, whatever the file held before.
\<close>

theorem write_cat_round_trip:
  assumes "vfs_wf (fs st)" and "vfs_root (fs st) = Some r" and "walk (fs st) r (tokens ''/'' p) = Some d"
    and "vtype (node_pool (fs st) d) = NODE_DIRECTORY" and "NUL \<notin> set p" and "NUL \<notin> set name"
    and "name \<noteq> []" and "CHR ''/'' \<notin> set name" and "name \<notin> {''.'', ''..''}" and "length name < 128" and "length p + length name < 254"
    and "case map_of (entries (fs st) d) name of
        Some f \<Rightarrow> vtype (node_pool (fs st) f) = NODE_FILE
      | None \<Rightarrow> length (entries (fs st) d) < 32 \<and> (\<exists>i<128. \<not> live (fs st) i)"
    and "ws \<noteq> []" and "\<forall>w\<in>set ws. NUL \<notin> set w" and "length (joined True ws) < 4096"
  defines "path \<equiv> cstr (CHR ''/'' # p @ CHR ''/'' # name)"
  shows "\<exists>st1. cmd_write (cstr ''write'' # path # map cstr ws) st = Some st1 \<and> out st1 = out st \<and> cwd st1 = cwd st \<and> vfs_wf (fs st1) \<and>
    cmd_cat [cstr ''cat'', path] st1 = Some (st1\<lparr>out := out st @ joined True ws @ ''\<newline>''\<rparr>)"
proof -
  obtain f s where w: "cmd_write (cstr ''write'' # path # map cstr ws) st = write_file f (map cstr ws) (st\<lparr>fs := s\<rparr>)"
    and s: "vfs_wf s" "vfs_root s = Some r" "live s f" "vtype (node_pool s f) = NODE_FILE"
      "walk s r (tokens ''/'' (p @ CHR ''/'' # name)) = Some f"
    unfolding path_def by (rule cmd_write_target [OF assms(1-13), of "cstr ''write''"])
  let ?st = "st\<lparr>fs := s\<rparr>"
  obtain t where t: "write_file f (map cstr ws) ?st = Some (?st\<lparr>fs := t\<rparr>)" "vfs_wf t" "same_tree s t"
    "unat (vlength (node_pool t f)) = length (joined True ws @ ''\<newline>'')"
    "map byte_char (take (length (joined True ws @ ''\<newline>'')) (content (node_pool t f))) = joined True ws @ ''\<newline>''"
    by (rule write_file_spec [of ?st f ws]) (use s assms(14,15) in simp_all)
  let ?st1 = "st\<lparr>fs := t\<rparr>" and ?q = "p @ CHR ''/'' # name"
  have tr: "vfs_root t = Some r" "live t f" "vtype (node_pool t f) = NODE_FILE" using t(3) s by (simp_all add: same_tree_def)
  have q: "NUL \<notin> set ?q" "length ?q < 256" using assms(5,6,11) by simp_all
  have "resolve_arg path ?st1 = Some (Some f)"
    using resolve_arg_abs [of ?st1 r ?q] t(2) tr(1) q same_tree_walk [OF t(3)] s(5) by (simp add: path_def)
  then have "cmd_cat [cstr ''cat'', path] ?st1 = Some (say (joined True ws @ ''\<newline>'') ?st1)"
    using cmd_cat_one [of ?q ?st1 f "cstr ''cat''"] q(1) t(2,4,5) tr by (simp add: path_def)
  then show ?thesis using w t(1,2) by (intro exI [of _ ?st1]) (simp add: say_def)
qed

abbreviation boot_shell :: "nat \<Rightarrow> shell_st" where
  "boot_shell d \<equiv> \<lparr>fs = vfs_boot, cwd = Some d, out = []\<rparr>"

theorem write_cat_round_trip_witness:
  "\<exists>st1. cmd_write [cstr ''write'', cstr ''/etc/notes'', cstr ''hello'', cstr ''world''] (boot_shell 0) = Some st1 \<and>
     cmd_cat [cstr ''cat'', cstr ''/etc/notes''] st1 = Some (st1\<lparr>out := ''hello world\<newline>''\<rparr>)"
proof -
  have live: "live vfs_boot i \<longleftrightarrow> i < 6" for i using vfs_boot_tree(2) by (simp add: boot_tree_def packed_def)
  have "\<exists>i<128. \<not> live vfs_boot i" by (intro exI [of _ 6]) (simp add: live)
  moreover have "walk vfs_boot 0 (tokens ''/'' ''etc'') = Some 2" using boot_facts(7) by (simp add: tokens.simps go_def)
  ultimately show ?thesis
    using write_cat_round_trip [of "boot_shell 0" 0 "''etc''" 2 "''notes''" "[''hello'', ''world'']"] boot_facts by auto
qed

section \<open>The current directory can be removed\<close>

lemma bare_leaf_spec:
  assumes "NUL \<notin> set name" and "CHR ''/'' \<notin> set name" and "length name < 128"
  obtains leaf where "resolve_parent_and_leaf (cstr name) local_name st = Some (cwd st, leaf)" "terminated leaf" "cstring leaf = name"
proof -
  have "slash_loop [0..<k] (cstr name) (- 1) = - 1" if "k \<le> length name" for k
    using that
  proof (induction k)
    case (Suc k)
    then have "cstr name ! k = name ! k" "name ! k \<in> set name" by (simp_all add: cstr_def nth_append)
    then have "cstr name ! k \<noteq> CHR ''/''" using assms(2) by metis
    then show ?case using Suc by (simp add: slash_loop_snoc)
  qed simp
  then have "slash_loop [0..<length name] (cstr name) (- 1) = - 1" by simp
  moreover define leaf where "leaf = name @ NUL # drop (Suc (length name)) local_name"
  have "copy_leaf 127 (cstr name) local_name = Some leaf"
    using copy_leaf_spec [of "cstr name" 127 local_name] assms by (simp add: leaf_def)
  moreover have "string_length (cstr name) = Some (length name)" using assms(1) by (simp add: string_length_eq)
  ultimately have "resolve_parent_and_leaf (cstr name) local_name st = Some (cwd st, leaf)"
    by (simp add: resolve_parent_and_leaf_def kernel_get_current_directory_def)
  then show thesis by (rule that) (use assms(1) in \<open>simp_all add: leaf_def\<close>)
qed

lemma rm_one_spec:
  assumes wf: "vfs_wf (fs st)" and r: "vfs_root (fs st) = Some r" and d: "walk (fs st) r (tokens ''/'' p) = Some d"
    and dir: "vtype (node_pool (fs st) d) = NODE_DIRECTORY" and nul: "NUL \<notin> set p" "NUL \<notin> set name"
    and name: "name \<noteq> []" "CHR ''/'' \<notin> set name" "name \<notin> {''.'', ''..''}" "length name < 128" "length p < 254"
    and c: "map_of (entries (fs st) d) name = Some c"
  obtains t where "rm_one (cstr (CHR ''/'' # p @ CHR ''/'' # name)) st = Some (st\<lparr>fs := t\<rparr>)" "vfs_wf t"
    "entries t d = filter (\<lambda>e. fst e \<noteq> name) (entries (fs st) d)" "\<And>i. live t i \<longleftrightarrow> live (fs st) i \<and> i \<noteq> c"
    "\<And>i. i \<noteq> d \<Longrightarrow> node_pool t i = node_pool (fs st) i"
proof -
  obtain leaf where leaf: "resolve_parent_and_leaf (cstr (CHR ''/'' # p @ CHR ''/'' # name)) local_name st = Some (Some d, leaf)"
      "terminated leaf" "cstring leaf = name"
    by (rule parent_and_leaf_spec [OF wf r d dir nul name(2,4,5)])
  have live: "live (fs st) d" by (rule reach_live [OF wf walk_reach [OF wf reach.root [OF r] d]])
  have hd: "hd leaf \<noteq> NUL" using leaf(2,3) name(1) by (cases leaf) auto
  have find: "vfs_find_node (Some d) leaf (fs st) = Some (Some c)"
    using vfs_find_node_spec [OF wf live leaf(2)] leaf(3) c by simp
  obtain t where t: "vfs_remove_child (Some d) leaf (fs st) = Some (0, t)" "vfs_wf t"
    "entries t d = filter (\<lambda>e. fst e \<noteq> name) (entries (fs st) d)" "\<And>i. live t i \<longleftrightarrow> live (fs st) i \<and> i \<noteq> c"
    "\<And>i. i \<noteq> d \<Longrightarrow> node_pool t i = node_pool (fs st) i"
    using remove_child_wf [OF wf live dir leaf(2)] c leaf(3) by metis
  have "rm_one (cstr (CHR ''/'' # p @ CHR ''/'' # name)) st = Some (st\<lparr>fs := t\<rparr>)"
    using leaf hd find t(1) name(3) is_lit_eq [OF leaf(2), of "''.''"] is_lit_eq [OF leaf(2), of "''..''"] by (simp add: rm_one_def)
  then show thesis using t(2-5) by (rule that)
qed

text \<open>
  Nothing checks that the directory removed is the current one. Removing it and then creating a
  directory by a bare name reuses the node of the current directory: it becomes its own child.
\<close>

lemma rm_then_mkdir_cycle:
  "\<exists>st1 st2. rm_one (cstr ''//tmp'') (boot_shell 4) = Some st1 \<and> cwd st1 = Some 4 \<and> \<not> live (fs st1) 4 \<and>
     mkdir_one (cstr ''x'') st1 = Some st2 \<and> entries (fs st2) 4 = [(''x'', 4)]"
proof -
  have live: "live vfs_boot i \<longleftrightarrow> i < 6" for i using vfs_boot_tree(2) by (simp add: boot_tree_def packed_def)
  have b4: "vtype (node_pool vfs_boot 4) = NODE_DIRECTORY" "child_count (node_pool vfs_boot 4) = 0"
    using vfs_boot_tree(2) packed_count [of 6 vfs_boot 4] by (simp_all add: boot_tree_def unat_eq_zero)
  have r: "vtype (node_pool vfs_boot 0) = NODE_DIRECTORY" using entry_dir [of "''bin''" 1 vfs_boot 0] boot_facts(7) by simp
  obtain t where t: "rm_one (cstr ''//tmp'') (boot_shell 4) = Some (boot_shell 4\<lparr>fs := t\<rparr>)" "vfs_wf t"
      "\<And>i. live t i \<longleftrightarrow> live vfs_boot i \<and> i \<noteq> 4" "node_pool t 4 = node_pool vfs_boot 4"
  proof (rule rm_one_spec [of "boot_shell 4" 0 "[]" 0 "''tmp''" 4])
    fix t assume "rm_one (cstr (CHR ''/'' # [] @ CHR ''/'' # ''tmp'')) (boot_shell 4) = Some (boot_shell 4\<lparr>fs := t\<rparr>)" "vfs_wf t"
      "\<And>i. live t i \<longleftrightarrow> live (fs (boot_shell 4)) i \<and> i \<noteq> 4" "\<And>i. i \<noteq> 0 \<Longrightarrow> node_pool t i = node_pool (fs (boot_shell 4)) i"
    then show thesis using that [of t] by simp
  next
    show "walk (fs (boot_shell 4)) 0 (tokens ''/'' []) = Some 0" by (simp add: tokens.simps)
  qed (use r boot_facts(1,2,7) in simp_all)
  let ?st1 = "boot_shell 4\<lparr>fs := t\<rparr>"
  obtain leaf where leaf: "resolve_parent_and_leaf (cstr ''x'') local_name ?st1 = Some (Some 4, leaf)" "terminated leaf" "cstring leaf = ''x''"
    using bare_leaf_spec [of "''x''" ?st1] by auto
  have hd: "hd leaf \<noteq> NUL" using leaf(2,3) by (cases leaf) auto
  have find: "vfs_find_node (Some 4) leaf t = Some None" using t(4) b4 by (simp add: vfs_find_node_def Let_def)
  have lv: "live t i \<longleftrightarrow> i < 4 \<or> i = 5" for i unfolding t(3) live by arith
  have ll: "length (cstring leaf) < 128" using leaf(3) by simp
  obtain nm where cr: "vfs_create_node leaf NODE_DIRECTORY t = Some (Some 4, created t 4 nm NODE_DIRECTORY)" "cstring nm = ''x''"
  proof (rule create_cases [OF leaf(2) ll, of NODE_DIRECTORY t])
    assume "\<And>i. i < 128 \<Longrightarrow> live t i"
    from this [of 4] show thesis using lv by simp
  next
    fix c nm assume c: "vfs_create_node leaf NODE_DIRECTORY t = Some (Some c, created t c nm NODE_DIRECTORY)" "\<not> live t c"
      "\<And>j. j < c \<Longrightarrow> live t j" "cstring nm = cstring leaf"
    have "\<not> c < 4" "\<not> 4 < c" using c(2) c(3) [of 4] lv by auto
    then show thesis using c leaf(3) that by simp
  qed
  let ?s1 = "created t 4 nm NODE_DIRECTORY"
  define s2 where "s2 = snd (vfs_add_child (Some 4) (Some 4) ?s1)"
  have add: "vfs_add_child (Some 4) (Some 4) ?s1 = (0, s2)" by (simp add: s2_def vfs_add_child_def created_def Let_def)
  have "entries s2 4 = [(''x'', 4)]"
    using cr(2) by (simp add: s2_def vfs_add_child_def created_def Let_def entries_def kids_def nname_def take_Suc hd_conv_nth)
  moreover have "mkdir_one (cstr ''x'') ?st1 = Some (?st1\<lparr>fs := s2\<rparr>)"
    using leaf(1) hd find cr(1) add by (simp add: mkdir_one_def)
  ultimately show ?thesis using t(1,3) live by (intro exI [of _ ?st1] exI [of _ "?st1\<lparr>fs := s2\<rparr>"]) simp
qed

text \<open>Names are not checked against the two special ones, which no path can then reach.\<close>

lemma mkdir_accepts_dot: "\<exists>st1 c. mkdir_one (cstr ''.'') (boot_shell 4) = Some st1 \<and> entries (fs st1) 4 = [(''.'', c)]"
proof -
  have live: "live vfs_boot i \<longleftrightarrow> i < 6" for i using vfs_boot_tree(2) by (simp add: boot_tree_def packed_def)
  have b4: "vtype (node_pool vfs_boot 4) = NODE_DIRECTORY" "entries vfs_boot 4 = []" using vfs_boot_tree(2) by (simp_all add: boot_tree_def)
  obtain leaf where leaf: "resolve_parent_and_leaf (cstr ''.'') local_name (boot_shell 4) = Some (Some 4, leaf)" "terminated leaf" "cstring leaf = ''.''"
    using bare_leaf_spec [of "''.''" "boot_shell 4"] by auto
  have l4: "live vfs_boot 4" and ll: "length (cstring leaf) < 128" and new: "cstring leaf \<notin> fst ` set (entries vfs_boot 4)"
    using live leaf(3) b4(2) by simp_all
  have hd: "hd leaf \<noteq> NUL" using leaf(2,3) by (cases leaf) auto
  have find: "vfs_find_node (Some 4) leaf vfs_boot = Some None" using vfs_find_node_spec [OF boot_facts(1) l4 leaf(2)] b4 by simp
  show ?thesis
    using boot_facts(1) l4 b4(1) leaf(2) ll new
  proof (cases rule: link_cases [where type = NODE_DIRECTORY])
    case no_node
    then show ?thesis using live [of 6] no_node(2) [of 6] by simp
  next
    case (full c s1)
    then show ?thesis using b4(2) by simp
  next
    case (linked c s1 t)
    then have "mkdir_one (cstr ''.'') (boot_shell 4) = Some (boot_shell 4\<lparr>fs := t\<rparr>)"
      using leaf(1) hd find by (simp add: mkdir_one_def)
    then show ?thesis using linked(4) b4(2) leaf(3) by auto
  qed
qed

text \<open>An offset beyond the file limit makes the remaining size wrap around, and the write leaves the content array.\<close>

lemma write_loop_outside: "0 < n \<Longrightarrow> length dst \<le> unat off \<Longrightarrow> write_loop [0..<n] off dst buffer = None"
  by (simp add: upt_conv_Cons Let_def)

lemma vfs_write_past_limit:
  assumes "node_ok (node_pool s i)" and "vtype (node_pool s i) = NODE_FILE" and "4096 < unat off" and "unat off + unat n < 2 ^ 32"
  shows "vfs_write (Some i) off n buf s = None"
proof -
  have "unat (off + n) = unat off + unat n" using assms(4) by (simp add: unat_word_ariths)
  then have gt: "4096 < off + n" using assms(3) by (simp add: word_less_nat_alt)
  have "off \<noteq> 4096" using assms(3) by auto
  then have pos: "0 < unat (4096 - off)" by (simp add: unat_gt_0)
  have "write_loop [0..<unat (4096 - off)] off (content (node_pool s i)) buf = None"
    by (rule write_loop_outside [OF pos]) (use assms(1,3) in \<open>simp add: node_ok_def\<close>)
  then show ?thesis using assms(1,2) gt by (simp add: vfs_write_def ramfs_write_def node_ok_def Let_def)
qed

end
