(* ===== verification/Pipeline.thy ===== *)
theory Pipeline
  imports Prelude "HOL-Library.Monad_Syntax"
begin

text \<open>
  The five-stage pipeline simulator (src/kernel/cpu/pipeline.c and pipeline.h).  The
  stages are a list of five; the array \<open>next_stages\<close> that a cycle leaves uninitialised is an
  argument \<open>junk\<close> of the cycle (indexed by the cycle counter), so that nothing can depend on
  it.  Reading the instruction memory outside its bounds is \<open>None\<close>.
  The theory shows that the pipeline retires the instructions of the program in order, each
  exactly once, that execution ends, and how many cycles it takes.
\<close>

section \<open>State\<close>

datatype PipelineStageType = STAGE_IF | STAGE_ID | STAGE_EX | STAGE_MEM | STAGE_WB

fun stage_no :: "PipelineStageType \<Rightarrow> nat" where
  "stage_no STAGE_IF = 0"
| "stage_no STAGE_ID = 1"
| "stage_no STAGE_EX = 2"
| "stage_no STAGE_MEM = 3"
| "stage_no STAGE_WB = 4"

definition STAGE_COUNT :: nat where
  "STAGE_COUNT = 5"

record Instruction =
  opcode :: u32
  rd :: u32
  rs1 :: u32
  rs2 :: u32
  immediate :: u32
  instr_pc :: u32
  valid :: bool

record PipelineStage =
  instr :: Instruction
  stalled :: bool

record PipelineCPU =
  stages :: "PipelineStage list"
  cpu_pc :: u32
  registers :: "u32 list"
  cycle_count :: u64
  instruction_count :: u64
  stall_count :: u64
  running :: bool

abbreviation stage :: "PipelineCPU \<Rightarrow> PipelineStageType \<Rightarrow> Instruction" where
  "stage cpu k \<equiv> instr (stages cpu ! stage_no k)"

section \<open>Operations\<close>

text \<open>The all-zero instruction that \<open>simple_memset\<close> leaves.\<close>

definition zero_instr :: Instruction where
  "zero_instr = \<lparr>opcode = 0, rd = 0, rs1 = 0, rs2 = 0, immediate = 0, instr_pc = 0, valid = False\<rparr>"

definition pipeline_init :: PipelineCPU where
  "pipeline_init =
     \<lparr>stages = replicate STAGE_COUNT \<lparr>instr = zero_instr, stalled = False\<rparr>, cpu_pc = 0,
      registers = replicate 32 0, cycle_count = 0, instruction_count = 0, stall_count = 0, running = True\<rparr>"

definition pipeline_reset :: "PipelineCPU \<Rightarrow> PipelineCPU" where
  "pipeline_reset cpu = pipeline_init"

definition fetch_instruction :: "u32 list \<Rightarrow> u32 \<Rightarrow> u32 \<Rightarrow> Instruction option" where
  "fetch_instruction memory mem_size pc =
     (if pc div 4 \<ge> mem_size then Some zero_instr
      else if unat (pc div 4) \<ge> length memory then None
      else let raw = memory ! unat (pc div 4)
           in Some \<lparr>opcode = raw AND 0x7F, rd = drop_bit 7 raw AND 0x1F, rs1 = drop_bit 15 raw AND 0x1F,
                    rs2 = drop_bit 20 raw AND 0x1F, immediate = drop_bit 20 raw, instr_pc = pc, valid = True\<rparr>)"

definition pipeline_detect_hazard :: "PipelineCPU \<Rightarrow> bool" where
  "pipeline_detect_hazard cpu =
     (if valid (stage cpu STAGE_ID) \<and> valid (stage cpu STAGE_EX)
      then let id_instr = stage cpu STAGE_ID; ex_instr = stage cpu STAGE_EX
           in rd ex_instr \<noteq> 0 \<and> opcode ex_instr \<noteq> 0x23 \<and>
              (rs1 id_instr = rd ex_instr \<or> rs2 id_instr = rd ex_instr)
      else False)"

text \<open>The steps of one cycle, in the order of the code; \<open>next\<close> is the array \<open>next_stages\<close>.\<close>

definition put_stage :: "PipelineStageType \<Rightarrow> Instruction \<Rightarrow> PipelineStage list \<Rightarrow> PipelineStage list" where
  "put_stage k x next = next[stage_no k := (next ! stage_no k)\<lparr>instr := x\<rparr>]"

definition write_back :: "PipelineCPU \<Rightarrow> PipelineCPU" where
  "write_back cpu =
     (if valid (stage cpu STAGE_WB)
      then let x = stage cpu STAGE_WB;
               cpu1 = (if rd x \<noteq> 0 \<and> opcode x \<noteq> 0x23
                       then cpu\<lparr>registers := (registers cpu)[unat (rd x) := immediate x]\<rparr> else cpu)
           in cpu1\<lparr>instruction_count := instruction_count cpu1 + 1\<rparr>
      else cpu)"

definition fetch_stage ::
    "bool \<Rightarrow> u32 list \<Rightarrow> u32 \<Rightarrow> PipelineCPU \<Rightarrow> PipelineStage list \<Rightarrow> (PipelineCPU \<times> PipelineStage list) option" where
  "fetch_stage stall memory mem_size cpu next =
     (if \<not> stall \<and> cpu_pc cpu div 4 < mem_size
      then do {
        x \<leftarrow> fetch_instruction memory mem_size (cpu_pc cpu);
        Some (if valid x then (cpu\<lparr>cpu_pc := cpu_pc cpu + 4\<rparr>, put_stage STAGE_ID x next) else (cpu, next)) }
      else if cpu_pc cpu div 4 \<ge> mem_size
      then Some (if \<not> valid (stage cpu STAGE_ID) \<and> \<not> valid (stage cpu STAGE_EX) \<and>
                    \<not> valid (stage cpu STAGE_MEM) \<and> \<not> valid (stage cpu STAGE_WB)
                 then cpu\<lparr>running := False\<rparr> else cpu, next)
      else Some (cpu, next))"

definition pipeline_cycle ::
    "(u64 \<Rightarrow> nat \<Rightarrow> PipelineStage) \<Rightarrow> u32 list \<Rightarrow> u32 \<Rightarrow> PipelineCPU \<Rightarrow> PipelineCPU option" where
  "pipeline_cycle junk memory mem_size cpu =
     (if \<not> running cpu then Some cpu
      else let stall = pipeline_detect_hazard cpu;
               next0 = map (\<lambda>i. junk (cycle_count cpu) i\<lparr>instr := (instr (junk (cycle_count cpu) i))\<lparr>valid := False\<rparr>\<rparr>)
                           [0..<STAGE_COUNT];
               cpu1 = write_back cpu;
               next1 = (if valid (stage cpu1 STAGE_MEM) then put_stage STAGE_WB (stage cpu1 STAGE_MEM) next0 else next0);
               next2 = (if valid (stage cpu1 STAGE_EX) then put_stage STAGE_MEM (stage cpu1 STAGE_EX) next1 else next1);
               (cpu2, next3) =
                 (if valid (stage cpu1 STAGE_ID)
                  then if \<not> stall then (cpu1, put_stage STAGE_EX (stage cpu1 STAGE_ID) next2)
                       else (cpu1\<lparr>stall_count := stall_count cpu1 + 1\<rparr>, put_stage STAGE_ID (stage cpu1 STAGE_ID) next2)
                  else (cpu1, next2))
           in do {
             (cpu3, next4) \<leftarrow> fetch_stage stall memory mem_size cpu2 next3;
             Some (cpu3\<lparr>stages := next4, cycle_count := cycle_count cpu3 + 1\<rparr>) })"

text \<open>The loop of \<open>pipeline_execute\<close>, with its safety limit.\<close>

partial_function (option) execute_loop ::
    "(u64 \<Rightarrow> nat \<Rightarrow> PipelineStage) \<Rightarrow> u32 list \<Rightarrow> u32 \<Rightarrow> u64 \<Rightarrow> PipelineCPU \<Rightarrow> PipelineCPU option" where
  "execute_loop junk memory mem_size target cpu =
     (if running cpu \<and> instruction_count cpu < target
      then do {
        cpu1 \<leftarrow> pipeline_cycle junk memory mem_size cpu;
        if cycle_count cpu1 > target * 10 then Some cpu1
        else execute_loop junk memory mem_size target cpu1 }
      else Some cpu)"

definition pipeline_execute ::
    "(u64 \<Rightarrow> nat \<Rightarrow> PipelineStage) \<Rightarrow> u32 list \<Rightarrow> u32 \<Rightarrow> u32 \<Rightarrow> PipelineCPU \<Rightarrow> PipelineCPU option" where
  "pipeline_execute junk memory mem_size num_instructions cpu =
     execute_loop junk memory mem_size (instruction_count cpu + ucast num_instructions) cpu"

definition pipeline_get_cycles :: "PipelineCPU \<Rightarrow> u64" where
  "pipeline_get_cycles cpu = cycle_count cpu"

definition pipeline_get_instructions :: "PipelineCPU \<Rightarrow> u64" where
  "pipeline_get_instructions cpu = instruction_count cpu"

definition pipeline_get_stalls :: "PipelineCPU \<Rightarrow> u64" where
  "pipeline_get_stalls cpu = stall_count cpu"

section \<open>The abstract pipeline\<close>

text \<open>
  The instructions are the natural numbers below \<open>n\<close>; a stage holds one or none.  The
  predicate \<open>hz i j\<close> says that instruction \<open>j\<close> reads what instruction \<open>i\<close> writes.
\<close>

record pipe_model =
  retired :: nat
  fetched :: nat
  in_wb :: "nat option"
  in_mem :: "nat option"
  in_ex :: "nat option"
  in_id :: "nat option"
  cycles :: nat
  stalls :: nat
  alive :: bool

definition blocked :: "(nat \<Rightarrow> nat \<Rightarrow> bool) \<Rightarrow> pipe_model \<Rightarrow> bool" where
  "blocked hz a = (case (in_ex a, in_id a) of (Some i, Some j) \<Rightarrow> hz i j | _ \<Rightarrow> False)"

definition empty_pipe :: "pipe_model \<Rightarrow> bool" where
  "empty_pipe a \<longleftrightarrow> in_id a = None \<and> in_ex a = None \<and> in_mem a = None \<and> in_wb a = None"

definition pipe_step :: "nat \<Rightarrow> (nat \<Rightarrow> nat \<Rightarrow> bool) \<Rightarrow> pipe_model \<Rightarrow> pipe_model" where
  "pipe_step n hz a =
     (if \<not> alive a then a
      else \<lparr>retired = (if in_wb a = None then retired a else Suc (retired a)),
            fetched = (if \<not> blocked hz a \<and> fetched a < n then Suc (fetched a) else fetched a),
            in_wb = in_mem a, in_mem = in_ex a,
            in_ex = (if blocked hz a then None else in_id a),
            in_id = (if blocked hz a then in_id a else if fetched a < n then Some (fetched a) else None),
            cycles = Suc (cycles a),
            stalls = (if blocked hz a then Suc (stalls a) else stalls a),
            alive = (fetched a < n \<or> \<not> empty_pipe a)\<rparr>)"

lemma pipe_step_sel [simp]:
  assumes "alive a"
  shows "retired (pipe_step n hz a) = (if in_wb a = None then retired a else Suc (retired a))"
    and "fetched (pipe_step n hz a) = (if \<not> blocked hz a \<and> fetched a < n then Suc (fetched a) else fetched a)"
    and "in_wb (pipe_step n hz a) = in_mem a"
    and "in_mem (pipe_step n hz a) = in_ex a"
    and "in_ex (pipe_step n hz a) = (if blocked hz a then None else in_id a)"
    and "in_id (pipe_step n hz a) =
           (if blocked hz a then in_id a else if fetched a < n then Some (fetched a) else None)"
    and "cycles (pipe_step n hz a) = Suc (cycles a)"
    and "stalls (pipe_step n hz a) = (if blocked hz a then Suc (stalls a) else stalls a)"
    and "alive (pipe_step n hz a) \<longleftrightarrow> fetched a < n \<or> \<not> empty_pipe a"
  using assms by (simp_all add: pipe_step_def)

definition pipe_start :: pipe_model where
  "pipe_start = \<lparr>retired = 0, fetched = 0, in_wb = None, in_mem = None, in_ex = None, in_id = None,
                 cycles = 0, stalls = 0, alive = True\<rparr>"

text \<open>The number of pairs of neighbours among the first \<open>k\<close> instructions of which the second waits for the first.\<close>

primrec hazards :: "(nat \<Rightarrow> nat \<Rightarrow> bool) \<Rightarrow> nat \<Rightarrow> nat" where
  "hazards hz 0 = 0"
| "hazards hz (Suc k) = hazards hz k + (if 0 < k \<and> hz (k - 1) k then 1 else 0)"

lemma hazards_less: "0 < k \<Longrightarrow> hazards hz k < k"
proof (induction k)
  case (Suc k)
  then show ?case by (cases "0 < k") auto
qed simp

text \<open>The instructions in flight are consecutive and in program order.\<close>

definition in_flight :: "pipe_model \<Rightarrow> nat list" where
  "in_flight a = List.map_filter id [in_wb a, in_mem a, in_ex a, in_id a]"

definition in_order :: "pipe_model \<Rightarrow> bool" where
  "in_order a \<longleftrightarrow> retired a \<le> fetched a \<and> in_flight a = [retired a..<fetched a]"

text \<open>How far the last instruction has moved since it was decoded.\<close>

definition drained :: "nat \<Rightarrow> pipe_model \<Rightarrow> nat" where
  "drained n a =
     (if in_id a \<noteq> None \<or> fetched a < n then 0
      else if in_ex a \<noteq> None then 1 else if in_mem a \<noteq> None then 2 else if in_wb a \<noteq> None then 3 else 4)"

definition pipe_inv :: "nat \<Rightarrow> (nat \<Rightarrow> nat \<Rightarrow> bool) \<Rightarrow> pipe_model \<Rightarrow> bool" where
  "pipe_inv n hz a \<longleftrightarrow>
     in_order a \<and> fetched a \<le> n \<and>
     (in_id a = None \<longrightarrow> fetched a = n \<or> fetched a = 0 \<and> in_ex a = None) \<and>
     stalls a = hazards hz (if in_id a \<noteq> None \<and> in_ex a \<noteq> None then fetched a - 1 else fetched a) \<and>
     (0 < n \<longrightarrow> cycles a = fetched a + stalls a + drained n a + (if alive a then 0 else 1)) \<and>
     (\<not> alive a \<longrightarrow> retired a = n \<and> empty_pipe a)"

lemma map_filter_id_simps [simp]:
  "List.map_filter id [] = []"
  "List.map_filter id (None # xs) = List.map_filter id xs"
  "List.map_filter id (Some x # xs) = x # List.map_filter id xs"
  by (auto simp: List.map_filter_def)

lemma upt_eq_ConsD: "x # xs = [i..<j] \<Longrightarrow> x = i \<and> i < j \<and> xs = [Suc i..<j]"
  by (cases "i < j") (auto simp: upt_conv_Cons)

lemma upt_eq_NilD: "[] = [i..<j] \<Longrightarrow> j \<le> i"
  by (metis length_upt list.size(3) diff_is_0_eq)

lemma pipe_inv_start: "pipe_inv n hz pipe_start"
  by (auto simp: pipe_inv_def pipe_start_def drained_def in_order_def in_flight_def)

lemma in_order_id: "in_order a \<Longrightarrow> in_id a = Some j \<Longrightarrow> Suc j = fetched a"
  by (cases "in_wb a"; cases "in_mem a"; cases "in_ex a")
    (auto simp: in_order_def in_flight_def dest!: upt_eq_ConsD upt_eq_NilD)

lemma in_order_ex_id: "in_order a \<Longrightarrow> in_ex a = Some i \<Longrightarrow> in_id a = Some j \<Longrightarrow> j = Suc i"
  by (cases "in_wb a"; cases "in_mem a")
    (auto simp: in_order_def in_flight_def dest!: upt_eq_ConsD upt_eq_NilD)

lemma in_order_ex: "in_order a \<Longrightarrow> in_ex a = Some i \<Longrightarrow> in_id a = None \<Longrightarrow> Suc i = fetched a"
  by (cases "in_wb a"; cases "in_mem a")
    (auto simp: in_order_def in_flight_def dest!: upt_eq_ConsD upt_eq_NilD)

lemma in_order_wb: "in_order a \<Longrightarrow> in_wb a = Some i \<Longrightarrow> i = retired a"
  by (auto simp: in_order_def in_flight_def dest!: upt_eq_ConsD)

lemma in_order_count:
  assumes "in_order a"
  shows "fetched a = retired a + length (in_flight a)"
  using assms by (simp add: in_order_def)

lemma in_order_empty: "in_order a \<Longrightarrow> empty_pipe a \<longleftrightarrow> retired a = fetched a"
  by (cases "in_wb a"; cases "in_mem a"; cases "in_ex a"; cases "in_id a")
    (auto simp: in_order_def in_flight_def empty_pipe_def dest!: upt_eq_ConsD upt_eq_NilD)

lemma blockedD: "blocked hz a \<Longrightarrow> \<exists>i j. in_ex a = Some i \<and> in_id a = Some j \<and> hz i j"
  by (auto simp: blocked_def split: option.splits)

lemma in_flight_step:
  "in_flight (pipe_step n hz a) =
     (if \<not> alive a then in_flight a
      else (if in_wb a = None then in_flight a else tl (in_flight a)) @
           (if \<not> blocked hz a \<and> fetched a < n then [fetched a] else []))"
  by (cases "in_wb a"; cases "in_mem a"; cases "in_ex a"; cases "in_id a")
    (simp_all add: pipe_step_def blocked_def in_flight_def)

lemma in_order_step:
  assumes "in_order a"
  shows "in_order (pipe_step n hz a)"
proof (cases "alive a")
  case False
  then show ?thesis using assms by (simp add: pipe_step_def)
next
  case True
  let ?r' = "if in_wb a = None then retired a else Suc (retired a)"
  have fl: "in_flight a = [retired a..<fetched a]" and le: "retired a \<le> fetched a"
    using assms by (simp_all add: in_order_def)
  have lt: "in_wb a \<noteq> None \<Longrightarrow> retired a < fetched a"
    using fl by (auto simp: in_flight_def dest!: upt_eq_ConsD)
  have "(if in_wb a = None then in_flight a else tl (in_flight a)) = [?r'..<fetched a]"
    using fl lt by (simp add: upt_conv_Cons)
  moreover have "?r' \<le> fetched a" using le lt by auto
  ultimately show ?thesis
    using True by (auto simp: in_order_def in_flight_step)
qed

lemma stalls_step:
  assumes "pipe_inv n hz a" and "alive a"
  shows "stalls (pipe_step n hz a) =
    hazards hz (if in_id (pipe_step n hz a) \<noteq> None \<and> in_ex (pipe_step n hz a) \<noteq> None
                then fetched (pipe_step n hz a) - 1 else fetched (pipe_step n hz a))"
proof (cases "in_id a")
  case None
  then have "fetched a = n \<or> fetched a = 0 \<and> in_ex a = None" "\<not> blocked hz a" "stalls a = hazards hz (fetched a)"
    using assms by (auto simp: pipe_inv_def blocked_def split: option.splits)
  with None assms(2) show ?thesis by auto
next
  case (Some j)
  have ord: "in_order a" using assms by (simp add: pipe_inv_def)
  have f: "fetched a = Suc j" using in_order_id [OF ord Some] by simp
  show ?thesis
  proof (cases "in_ex a")
    case None
    then have "\<not> blocked hz a" "stalls a = hazards hz (fetched a)"
      using assms by (auto simp: pipe_inv_def blocked_def)
    then show ?thesis using assms(2) None Some by simp
  next
    case ex: (Some i)
    have ij: "j = Suc i" using in_order_ex_id [OF ord ex Some] .
    have st: "stalls a = hazards hz j" using assms(1) f Some ex by (simp add: pipe_inv_def)
    have bl: "blocked hz a \<longleftrightarrow> hz i j" using Some ex by (simp add: blocked_def)
    show ?thesis using assms(2) Some ex st bl f ij by simp
  qed
qed

lemma drain_step:
  assumes "pipe_inv n hz a" and "alive a" and "0 < n"
  shows "cycles (pipe_step n hz a) =
    fetched (pipe_step n hz a) + stalls (pipe_step n hz a) + drained n (pipe_step n hz a) +
    (if alive (pipe_step n hz a) then 0 else 1)"
proof -
  have ord: "in_order a" using assms by (simp add: pipe_inv_def)
  have c: "cycles a = fetched a + stalls a + drained n a" using assms by (simp add: pipe_inv_def)
  show ?thesis
  proof (cases "in_id a")
    case None
    then have "fetched a = n \<or> fetched a = 0 \<and> in_ex a = None" "\<not> blocked hz a"
      using assms by (auto simp: pipe_inv_def blocked_def split: option.splits)
    with None assms c show ?thesis by (auto simp: drained_def empty_pipe_def)
  next
    case (Some j)
    then have "drained n a = 0" by (simp add: drained_def)
    moreover have "fetched a \<le> n" using assms by (simp add: pipe_inv_def)
    ultimately show ?thesis
      using Some assms c blockedD [of hz a] by (auto simp: drained_def empty_pipe_def)
  qed
qed

lemma pipe_inv_step:
  assumes "pipe_inv n hz a"
  shows "pipe_inv n hz (pipe_step n hz a)"
proof (cases "alive a")
  case False
  then show ?thesis using assms by (simp add: pipe_step_def)
next
  case True
  have ord: "in_order a" and le: "fetched a \<le> n" using assms by (simp_all add: pipe_inv_def)
  have id: "in_id a = None \<longrightarrow> fetched a = n \<or> fetched a = 0 \<and> in_ex a = None"
    using assms by (simp add: pipe_inv_def)
  have "\<not> alive (pipe_step n hz a) \<longrightarrow> retired (pipe_step n hz a) = n \<and> empty_pipe (pipe_step n hz a)"
    using True le in_order_empty [OF ord] by (auto simp: empty_pipe_def)
  then show ?thesis
    using True le id in_order_step [OF ord] stalls_step [OF assms True] drain_step [OF assms True] blockedD [of hz a]
    unfolding pipe_inv_def by auto
qed

text \<open>
  Progress: while an instruction below the target is not retired, the pipeline is alive and
  far from the safety limit of \<open>pipeline_execute\<close>.
\<close>

lemma in_flight_le: "length (in_flight a) \<le> 4"
  by (cases "in_wb a"; cases "in_mem a"; cases "in_ex a"; cases "in_id a") (simp_all add: in_flight_def)

lemma pipe_alive_step:
  assumes "pipe_inv n hz a" and "alive a" and "retired a < n"
  shows "alive (pipe_step n hz a)"
  using assms in_order_empty [of a] by (auto simp: pipe_inv_def)

lemma pipe_cycles_bound:
  assumes "pipe_inv n hz a" and "alive a" and "retired a < n"
  shows "cycles a \<le> 2 * retired a + 10"
proof (cases "fetched a = 0")
  case True
  then show ?thesis using assms by (cases "n = 0") (auto simp: pipe_inv_def drained_def in_order_def)
next
  case False
  have ord: "in_order a" using assms by (simp add: pipe_inv_def)
  have f: "fetched a \<le> retired a + 4" using in_order_count [OF ord] in_flight_le [of a] by simp
  have "stalls a < fetched a"
    using assms False hazards_less [of "fetched a" hz] hazards_less [of "fetched a - 1" hz]
    by (cases "fetched a = 1") (auto simp: pipe_inv_def)
  moreover have "drained n a \<le> 3"
    using assms in_order_empty [OF ord] by (auto simp: drained_def pipe_inv_def empty_pipe_def)
  ultimately show ?thesis using f assms by (simp add: pipe_inv_def)
qed

section \<open>The simulator refines the abstract pipeline\<close>

definition decode :: "u32 \<Rightarrow> u32 \<Rightarrow> Instruction" where
  "decode raw pc = \<lparr>opcode = raw AND 0x7F, rd = drop_bit 7 raw AND 0x1F, rs1 = drop_bit 15 raw AND 0x1F,
     rs2 = drop_bit 20 raw AND 0x1F, immediate = drop_bit 20 raw, instr_pc = pc, valid = True\<rparr>"

definition program :: "u32 list \<Rightarrow> nat \<Rightarrow> Instruction" where
  "program memory i = decode (memory ! i) (of_nat (4 * i))"

definition reads_after_write :: "u32 list \<Rightarrow> nat \<Rightarrow> nat \<Rightarrow> bool" where
  "reads_after_write memory i j \<longleftrightarrow>
     rd (program memory i) \<noteq> 0 \<and> opcode (program memory i) \<noteq> 0x23 \<and>
     (rs1 (program memory j) = rd (program memory i) \<or> rs2 (program memory j) = rd (program memory i))"

definition retire :: "u32 list \<Rightarrow> nat \<Rightarrow> u32 list \<Rightarrow> u32 list" where
  "retire memory i regs =
     (if rd (program memory i) \<noteq> 0 \<and> opcode (program memory i) \<noteq> 0x23
      then regs[unat (rd (program memory i)) := immediate (program memory i)] else regs)"

definition holds :: "u32 list \<Rightarrow> Instruction \<Rightarrow> nat option \<Rightarrow> bool" where
  "holds memory x k = (case k of None \<Rightarrow> \<not> valid x | Some i \<Rightarrow> x = program memory i)"

definition pipe_rel :: "u32 list \<Rightarrow> pipe_model \<Rightarrow> PipelineCPU \<Rightarrow> bool" where
  "pipe_rel memory a cpu \<longleftrightarrow>
     length (stages cpu) = STAGE_COUNT \<and>
     holds memory (stage cpu STAGE_WB) (in_wb a) \<and> holds memory (stage cpu STAGE_MEM) (in_mem a) \<and>
     holds memory (stage cpu STAGE_EX) (in_ex a) \<and> holds memory (stage cpu STAGE_ID) (in_id a) \<and>
     cpu_pc cpu = of_nat (4 * fetched a) \<and>
     registers cpu = fold (retire memory) [0..<retired a] (replicate 32 0) \<and>
     cycle_count cpu = of_nat (cycles a) \<and> instruction_count cpu = of_nat (retired a) \<and>
     stall_count cpu = of_nat (stalls a) \<and> running cpu = alive a"

lemma valid_program [simp]: "valid (program memory i)"
  by (simp add: program_def decode_def)

lemma holds_simps [simp]:
  "holds memory x None \<longleftrightarrow> \<not> valid x"
  "holds memory x (Some i) \<longleftrightarrow> x = program memory i"
  by (simp_all add: holds_def)

lemma holds_valid: "holds memory x k \<Longrightarrow> valid x \<longleftrightarrow> k \<noteq> None"
  by (cases k) auto

lemma pipe_rel_start: "pipe_rel memory pipe_start pipeline_init"
  by (simp add: pipe_rel_def pipe_start_def pipeline_init_def zero_instr_def STAGE_COUNT_def)

lemma hazard_blocked:
  assumes "pipe_rel memory a cpu"
  shows "pipeline_detect_hazard cpu \<longleftrightarrow> blocked (reads_after_write memory) a"
  using assms
  by (cases "in_ex a"; cases "in_id a")
    (auto simp: pipe_rel_def pipeline_detect_hazard_def blocked_def reads_after_write_def Let_def)

lemma write_back_rel:
  assumes "pipe_rel memory a cpu" and "in_order a"
  shows "registers (write_back cpu) =
           fold (retire memory) [0..<if in_wb a = None then retired a else Suc (retired a)] (replicate 32 0)"
    and "instruction_count (write_back cpu) = of_nat (if in_wb a = None then retired a else Suc (retired a))"
    and "stages (write_back cpu) = stages cpu" and "cpu_pc (write_back cpu) = cpu_pc cpu"
    and "cycle_count (write_back cpu) = cycle_count cpu" and "stall_count (write_back cpu) = stall_count cpu"
    and "running (write_back cpu) = running cpu"
  using assms in_order_wb [OF assms(2)]
  by (cases "in_wb a"; auto simp: pipe_rel_def write_back_def retire_def Let_def)+

lemma fetch_rel:
  assumes "unat mem_size = length memory" and "length memory < 2 ^ 30" and "f \<le> length memory"
  shows "(of_nat (4 * f) :: u32) div 4 < mem_size \<longleftrightarrow> f < length memory"
    and "f < length memory \<Longrightarrow> fetch_instruction memory mem_size (of_nat (4 * f)) = Some (program memory f)"
proof -
  have u: "unat ((of_nat (4 * f) :: u32) div 4) = f"
    using assms by (simp add: unat_div unat_of_nat take_bit_nat_eq_self del: of_nat_mult)
  show a: "(of_nat (4 * f) :: u32) div 4 < mem_size \<longleftrightarrow> f < length memory"
    using u assms(1) by (simp add: word_less_nat_alt del: of_nat_mult)
  show "f < length memory \<Longrightarrow> fetch_instruction memory mem_size (of_nat (4 * f)) = Some (program memory f)"
    using u a by (simp add: fetch_instruction_def program_def decode_def Let_def not_le del: of_nat_mult)
qed

lemma stage_no_less [simp]: "stage_no k < 5"
  by (cases k) auto

lemma stage_no_inj [simp]: "stage_no j = stage_no k \<longleftrightarrow> j = k"
  by (cases j; cases k) auto

declare stage_no.simps [simp del]

lemma put_stage_sel [simp]:
  "length (put_stage k x next) = length next"
  "length next = 5 \<Longrightarrow> instr (put_stage k x next ! stage_no j) = (if j = k then x else instr (next ! stage_no j))"
  by (auto simp: put_stage_def nth_list_update)

definition blank_stages :: "(nat \<Rightarrow> PipelineStage) \<Rightarrow> PipelineStage list" where
  "blank_stages junk = map (\<lambda>i. junk i\<lparr>instr := (instr (junk i))\<lparr>valid := False\<rparr>\<rparr>) [0..<STAGE_COUNT]"

lemma blank_stages_sel [simp]:
  "length (blank_stages junk) = 5"
  "\<not> valid (instr (blank_stages junk ! stage_no k))"
  by (simp_all add: blank_stages_def STAGE_COUNT_def del: upt_conv_Cons upt_Suc upt_rec_numeral)

lemma fetch_stage_rel:
  assumes "unat mem_size = length memory" and "length memory < 2 ^ 30" and "f \<le> length memory"
    and "cpu_pc cpu = of_nat (4 * f)" and "length next = 5"
  obtains next' where
    "fetch_stage stall memory mem_size cpu next =
       Some (cpu\<lparr>cpu_pc := of_nat (4 * (if \<not> stall \<and> f < length memory then Suc f else f)),
                 running := running cpu \<and> (f < length memory \<or> valid (stage cpu STAGE_ID) \<or> valid (stage cpu STAGE_EX) \<or>
                   valid (stage cpu STAGE_MEM) \<or> valid (stage cpu STAGE_WB))\<rparr>, next')"
    "length next' = 5"
    "\<And>k. instr (next' ! stage_no k) =
       (if k = STAGE_ID \<and> \<not> stall \<and> f < length memory then program memory f else instr (next ! stage_no k))"
proof -
  let ?x = "program memory f"
  have pc: "cpu_pc cpu div 4 < mem_size \<longleftrightarrow> f < length memory" "mem_size \<le> cpu_pc cpu div 4 \<longleftrightarrow> \<not> f < length memory"
    using fetch_rel(1) [OF assms(1-3)] assms(4) by (simp_all add: not_less [symmetric])
  have suc: "cpu_pc cpu + 4 = of_nat (4 * Suc f)" using assms(4) by simp
  have r: "cpu\<lparr>cpu_pc := of_nat (4 * f), running := running cpu\<rparr> = cpu" using assms(4) by simp
  show ?thesis
  proof (cases "\<not> stall \<and> f < length memory")
    case True
    have "fetch_stage stall memory mem_size cpu next =
        Some (cpu\<lparr>cpu_pc := of_nat (4 * Suc f)\<rparr>, put_stage STAGE_ID ?x next)"
      unfolding fetch_stage_def using pc True fetch_rel(2) [OF assms(1-3)] assms(4) suc by simp
    then show ?thesis using that [of "put_stage STAGE_ID ?x next"] True assms(5) by simp
  next
    case False
    have "fetch_stage stall memory mem_size cpu next = Some (cpu\<lparr>running := running cpu \<and>
        (f < length memory \<or> valid (stage cpu STAGE_ID) \<or> valid (stage cpu STAGE_EX) \<or>
         valid (stage cpu STAGE_MEM) \<or> valid (stage cpu STAGE_WB))\<rparr>, next)"
      unfolding fetch_stage_def pc using False by (cases "f < length memory") auto
    moreover have "cpu\<lparr>cpu_pc := of_nat (4 * f)\<rparr> = cpu" using assms(4) by simp
    ultimately show ?thesis using that [of "next"] False assms(5) by auto
  qed
qed

lemma pipeline_cycle_refines:
  assumes m: "unat mem_size = length memory" "length memory < 2 ^ 30"
    and rel: "pipe_rel memory a cpu" and inv: "pipe_inv (length memory) (reads_after_write memory) a"
  shows "\<exists>cpu'. pipeline_cycle junk memory mem_size cpu = Some cpu' \<and>
    pipe_rel memory (pipe_step (length memory) (reads_after_write memory) a) cpu'"
proof (cases "alive a")
  case False
  then show ?thesis using rel by (simp add: pipeline_cycle_def pipe_rel_def pipe_step_def)
next
  case True
  have ord: "in_order a" and f: "fetched a \<le> length memory" using inv by (simp_all add: pipe_inv_def)
  note wb = write_back_rel [OF rel ord]
  define stall where "stall = pipeline_detect_hazard cpu"
  have stall: "stall \<longleftrightarrow> blocked (reads_after_write memory) a"
    unfolding stall_def by (rule hazard_blocked [OF rel])
  define next0 where "next0 = blank_stages (junk (cycle_count cpu))"
  define next1 where "next1 = (if in_mem a \<noteq> None then put_stage STAGE_WB (stage cpu STAGE_MEM) next0 else next0)"
  define next2 where "next2 = (if in_ex a \<noteq> None then put_stage STAGE_MEM (stage cpu STAGE_EX) next1 else next1)"
  define next3 where "next3 = (if in_id a \<noteq> None then put_stage (if stall then STAGE_ID else STAGE_EX) (stage cpu STAGE_ID) next2
    else next2)"
  define cpu2 where "cpu2 = (write_back cpu)\<lparr>stall_count := of_nat (if stall then Suc (stalls a) else stalls a)\<rparr>"
  have v: "valid (stage cpu STAGE_MEM) \<longleftrightarrow> in_mem a \<noteq> None" "valid (stage cpu STAGE_EX) \<longleftrightarrow> in_ex a \<noteq> None"
    "valid (stage cpu STAGE_ID) \<longleftrightarrow> in_id a \<noteq> None" "valid (stage cpu STAGE_WB) \<longleftrightarrow> in_wb a \<noteq> None"
    using rel by (auto simp: pipe_rel_def dest!: holds_valid)
  have id: "stall \<Longrightarrow> in_id a \<noteq> None" using stall blockedD [of _ a] by auto
  have l0: "length next0 = 5" by (simp add: next0_def)
  have l: "length next3 = 5" using l0 by (simp add: next3_def next2_def next1_def)
  have pc: "cpu_pc cpu2 = of_nat (4 * fetched a)" using rel wb(4) by (simp add: cpu2_def pipe_rel_def)
  obtain next4 where n4: "fetch_stage stall memory mem_size cpu2 next3 =
       Some (cpu2\<lparr>cpu_pc := of_nat (4 * (if \<not> stall \<and> fetched a < length memory then Suc (fetched a) else fetched a)),
                 running := running cpu2 \<and> (fetched a < length memory \<or> valid (stage cpu2 STAGE_ID) \<or>
                   valid (stage cpu2 STAGE_EX) \<or> valid (stage cpu2 STAGE_MEM) \<or> valid (stage cpu2 STAGE_WB))\<rparr>, next4)"
    "length next4 = 5"
    "\<And>k. instr (next4 ! stage_no k) =
       (if k = STAGE_ID \<and> \<not> stall \<and> fetched a < length memory then program memory (fetched a) else instr (next3 ! stage_no k))"
    by (rule fetch_stage_rel [OF m f pc l, of stall]) blast
  have sc: "stall_count cpu = of_nat (stalls a)" using rel by (simp add: pipe_rel_def)
  have step: "(if in_id a \<noteq> None
      then if \<not> stall then (write_back cpu, put_stage STAGE_EX (stage cpu STAGE_ID) next2)
           else ((write_back cpu)\<lparr>stall_count := stall_count (write_back cpu) + 1\<rparr>, put_stage STAGE_ID (stage cpu STAGE_ID) next2)
      else (write_back cpu, next2)) = (cpu2, next3)"
    using id sc wb(6) by (auto simp: cpu2_def next3_def)
  define cpu' where "cpu' = cpu2\<lparr>cpu_pc := of_nat (4 * (if \<not> stall \<and> fetched a < length memory then Suc (fetched a) else fetched a)),
      running := running cpu2 \<and> (fetched a < length memory \<or> valid (stage cpu2 STAGE_ID) \<or>
        valid (stage cpu2 STAGE_EX) \<or> valid (stage cpu2 STAGE_MEM) \<or> valid (stage cpu2 STAGE_WB)),
      stages := next4, cycle_count := cycle_count cpu2 + 1\<rparr>"
  have "running cpu" using True rel by (simp add: pipe_rel_def)
  then have run: "pipeline_cycle junk memory mem_size cpu = Some cpu'"
    unfolding pipeline_cycle_def Let_def stall_def [symmetric] blank_stages_def [symmetric] next0_def [symmetric]
      wb(3) v next1_def [symmetric] next2_def [symmetric] step prod.case n4(1)
    by (simp add: cpu'_def)
  have st: "stages cpu2 = stages cpu" "running cpu2 = alive a" "cycle_count cpu2 = of_nat (cycles a)"
      "stall_count cpu2 = of_nat (if stall then Suc (stalls a) else stalls a)"
    using wb rel by (auto simp: cpu2_def pipe_rel_def)
  have "pipe_rel memory (pipe_step (length memory) (reads_after_write memory) a) cpu'"
    unfolding pipe_rel_def
  proof (intro conjI)
    show "length (stages cpu') = STAGE_COUNT" using n4(2) by (simp add: cpu'_def STAGE_COUNT_def)
    show "holds memory (stage cpu' STAGE_WB) (in_wb (pipe_step (length memory) (reads_after_write memory) a))"
      using rel True l0 by (cases "in_mem a") (auto simp: cpu'_def n4(3) pipe_rel_def next3_def next2_def next1_def next0_def)
    show "holds memory (stage cpu' STAGE_MEM) (in_mem (pipe_step (length memory) (reads_after_write memory) a))"
      using rel True l0 by (cases "in_ex a") (auto simp: cpu'_def n4(3) pipe_rel_def next3_def next2_def next1_def next0_def)
    show "holds memory (stage cpu' STAGE_EX) (in_ex (pipe_step (length memory) (reads_after_write memory) a))"
      using rel True l0 stall by (cases "in_id a") (auto simp: cpu'_def n4(3) pipe_rel_def next3_def next2_def next1_def next0_def)
    show "holds memory (stage cpu' STAGE_ID) (in_id (pipe_step (length memory) (reads_after_write memory) a))"
      using rel True l0 stall by (cases "in_id a") (auto simp: cpu'_def n4(3) pipe_rel_def next3_def next2_def next1_def next0_def)
  qed (use True stall st v wb in \<open>auto simp: cpu'_def cpu2_def empty_pipe_def\<close>)
  with run show ?thesis by blast
qed

lemma pipe_cycles_total:
  assumes "pipe_inv n hz a" and "0 < n"
  shows "cycles a \<le> 2 * n + 4" and "retired a = n \<Longrightarrow> cycles a = n + 4 + hazards hz n + (if alive a then 0 else 1)"
proof -
  have d: "drained n a \<le> 4" by (simp add: drained_def)
  have f: "fetched a \<le> n" and s: "stalls a \<le> hazards hz (fetched a) \<or> stalls a \<le> hazards hz (fetched a - 1)"
    and c: "cycles a = fetched a + stalls a + drained n a + (if alive a then 0 else 1)"
    using assms by (auto simp: pipe_inv_def)
  have "stalls a < n"
    using s f assms(2) hazards_less [of "fetched a" hz] hazards_less [of "fetched a - 1" hz]
    by (cases "fetched a \<le> 1") (auto simp: le_Suc_eq)
  then show "cycles a \<le> 2 * n + 4" using c f d by auto
  assume "retired a = n"
  then have "empty_pipe a" "fetched a = n" using assms f in_order_empty [of a] by (auto simp: pipe_inv_def in_order_def)
  then show "cycles a = n + 4 + hazards hz n + (if alive a then 0 else 1)"
    using assms c by (auto simp: pipe_inv_def empty_pipe_def drained_def)
qed

lemma pipe_below_limit:
  assumes "pipe_inv n hz a" and "alive a" and "0 < n" and "retired a < t"
  shows "cycles a \<le> 10 * t"
proof (cases "retired a < n")
  case True
  then show ?thesis using pipe_cycles_bound [OF assms(1,2)] assms(4) by simp
next
  case False
  then have "n < t" using assms by (auto simp: pipe_inv_def in_order_def)
  then show ?thesis using pipe_cycles_total(1) [OF assms(1,3)] by simp
qed

lemma execute_loop_refines:
  assumes m: "unat mem_size = length memory" "length memory < 2 ^ 30" "0 < length memory" and t: "t < 2 ^ 32"
    and "pipe_rel memory a cpu" and "pipe_inv (length memory) (reads_after_write memory) a" and "retired a \<le> t"
  shows "\<exists>a' cpu'. execute_loop junk memory mem_size (of_nat t) cpu = Some cpu' \<and> pipe_rel memory a' cpu' \<and>
    pipe_inv (length memory) (reads_after_write memory) a' \<and> retired a' \<le> t \<and> (\<not> alive a' \<or> retired a' = t) \<and>
    (alive a \<and> t \<le> length memory \<longrightarrow> alive a')"
  using assms(5-)
proof (induction "2 * length memory + 5 - cycles a" arbitrary: a cpu rule: less_induct)
  case less
  let ?n = "length memory" and ?hz = "reads_after_write memory"
  let ?a1 = "pipe_step ?n ?hz a"
  have cnt: "instruction_count cpu < of_nat t \<longleftrightarrow> retired a < t"
    using less.prems(1,3) t by (simp add: pipe_rel_def word_less_nat_alt unat_of_nat take_bit_nat_eq_self)
  show ?case
  proof (cases "alive a \<and> retired a < t")
    case False
    then have "execute_loop junk memory mem_size (of_nat t) cpu = Some cpu"
      using less.prems(1) cnt by (subst execute_loop.simps) (auto simp: pipe_rel_def)
    then show ?thesis using less.prems False by (intro exI [of _ a] exI [of _ cpu]) auto
  next
    case True
    then obtain cpu1 where cyc: "pipeline_cycle junk memory mem_size cpu = Some cpu1" and r1: "pipe_rel memory ?a1 cpu1"
      using pipeline_cycle_refines [OF m(1,2) less.prems(1,2)] by blast
    have i1: "pipe_inv ?n ?hz ?a1" by (rule pipe_inv_step [OF less.prems(2)])
    have le1: "retired ?a1 \<le> t" using True by simp
    have c1: "cycles ?a1 \<le> 2 * ?n + 4" by (rule pipe_cycles_total(1) [OF i1 m(3)])
    have run: "running cpu" and al: "alive ?a1 \<longleftrightarrow> running cpu1"
      using True less.prems(1) r1 by (simp_all add: pipe_rel_def del: pipe_step_sel)
    have lim: "cycle_count cpu1 > of_nat t * 10 \<longleftrightarrow> 10 * t < cycles ?a1"
    proof -
      have "of_nat t * 10 = (of_nat (10 * t) :: u64)" by simp
      then show ?thesis
        using r1 t c1 m(2)
        by (simp add: pipe_rel_def word_less_nat_alt unat_of_nat take_bit_nat_eq_self del: of_nat_mult pipe_step_sel)
    qed
    have loop: "execute_loop junk memory mem_size (of_nat t) cpu =
        (if cycle_count cpu1 > of_nat t * 10 then Some cpu1 else execute_loop junk memory mem_size (of_nat t) cpu1)"
      using run cnt True cyc by (subst execute_loop.simps) simp
    have fin: "alive ?a1 \<Longrightarrow> 10 * t < cycles ?a1 \<Longrightarrow> retired ?a1 = t"
      using pipe_below_limit [OF i1 _ m(3), of t] le1 by (meson linorder_not_less le_neq_implies_less)
    have keep: "t \<le> ?n \<longrightarrow> alive ?a1" using pipe_alive_step [OF less.prems(2)] True by auto
    show ?thesis
    proof (cases "10 * t < cycles ?a1")
      case True
      then show ?thesis using loop lim r1 i1 le1 fin keep
        by (intro exI [of _ ?a1] exI [of _ cpu1]) (auto simp del: pipe_step_sel)
    next
      case False
      have "2 * ?n + 5 - cycles ?a1 < 2 * ?n + 5 - cycles a" using True c1 by simp
      from less.hyps [OF this r1 i1 le1] show ?thesis using loop lim False keep by auto
    qed
  qed
qed

lemma pipeline_execute_refines:
  assumes m: "unat mem_size = length memory" "length memory < 2 ^ 30" "0 < length memory"
  obtains a cpu' where "pipeline_execute junk memory mem_size num pipeline_init = Some cpu'" "pipe_rel memory a cpu'"
    "pipe_inv (length memory) (reads_after_write memory) a" "retired a = min (unat num) (length memory)"
    "alive a \<longleftrightarrow> unat num \<le> length memory"
proof -
  have "(of_nat (unat num) :: u64) = ucast num" by simp
  moreover have "unat num < 2 ^ 32" using unat_u32_less [of num] by simp
  ultimately obtain a cpu' where x: "pipeline_execute junk memory mem_size num pipeline_init = Some cpu'" "pipe_rel memory a cpu'"
    "pipe_inv (length memory) (reads_after_write memory) a" "retired a \<le> unat num" "\<not> alive a \<or> retired a = unat num"
    "unat num \<le> length memory \<longrightarrow> alive a"
    using execute_loop_refines [OF m _ pipe_rel_start pipe_inv_start, of "unat num" junk]
    by (auto simp: pipeline_execute_def pipe_start_def pipeline_init_def)
  moreover have "retired a = min (unat num) (length memory)"
    using x(3-5) by (auto simp: pipe_inv_def in_order_def min_def)
  ultimately show ?thesis using that x(5,6) by auto
qed

section \<open>Properties\<close>

text \<open>
  C33. The pipeline simulator, started on a program of at least one and fewer than 2^30 words and
  asked for \<open>num\<close> instructions, returns: it retires the first \<open>num\<close> instructions of the program (all
  of them when there are fewer), in program order and each exactly once, whatever the uninitialised
  stage array of each cycle holds; the register file is the result of writing them back one after the other.
\<close>

theorem pipeline_retires_in_order:
  assumes "unat mem_size = length memory" and "length memory < 2 ^ 30" and "0 < length memory"
  shows "\<exists>cpu'. pipeline_execute junk memory mem_size num pipeline_init = Some cpu' \<and>
    unat (pipeline_get_instructions cpu') = min (unat num) (length memory) \<and>
    registers cpu' = fold (retire memory) [0..<min (unat num) (length memory)] (replicate 32 0)"
proof -
  obtain a cpu' where x: "pipeline_execute junk memory mem_size num pipeline_init = Some cpu'" "pipe_rel memory a cpu'"
    "retired a = min (unat num) (length memory)"
    by (rule pipeline_execute_refines [OF assms])
  moreover have "unat (of_nat (min (unat num) (length memory)) :: u64) = min (unat num) (length memory)"
    using assms(2) by (simp add: unat_of_nat take_bit_nat_eq_self)
  ultimately show ?thesis by (auto simp: pipe_rel_def pipeline_get_instructions_def)
qed

definition two_adds :: "u32 list" where
  "two_adds = [0x00A00093, 0x00108133]"

theorem pipeline_retires_in_order_witness:
  "\<exists>cpu'. pipeline_execute (\<lambda>_ _. \<lparr>instr = zero_instr, stalled = True\<rparr>) two_adds 2 5 pipeline_init = Some cpu' \<and>
    unat (pipeline_get_instructions cpu') = 2 \<and> registers cpu' ! 1 = 10 \<and> registers cpu' ! 2 = 1"
proof -
  have "fold (retire two_adds) [0..<2] (replicate 32 0) = (replicate 32 0)[1 := 10, 2 := 1]"
    by code_simp
  moreover have "length two_adds = 2" by (simp add: two_adds_def)
  moreover have "min (unat (5 :: u32)) 2 = 2" by simp
  ultimately show ?thesis
    using pipeline_retires_in_order [of 2 two_adds "\<lambda>_ _. \<lparr>instr = zero_instr, stalled = True\<rparr>" 5]
    by fastforce
qed



end
