(* ===== verification/Single_Cycle.thy ===== *)
theory Single_Cycle
  imports Prelude "HOL-Library.Monad_Syntax"
begin

text \<open>
  The single-cycle CPU simulator (src/kernel/cpu/single_cycle.c) and the integer part of the
  performance counters (src/kernel/cpu/performance.c).  The memory is a list of words next to
  its declared size; every access to the register file or to the memory outside its bounds is
  \<open>None\<close>.  The theory shows that no such access happens, that register 0 stays 0, and that each
  instruction takes one cycle.
\<close>

section \<open>The simulator\<close>

record SingleCycleCPU =
  sc_pc :: u32
  sc_registers :: "u32 list"
  sc_cycle_count :: u64
  sc_instruction_count :: u64
  sc_running :: bool

definition single_cycle_init :: SingleCycleCPU where
  "single_cycle_init =
     \<lparr>sc_pc = 0, sc_registers = replicate 32 0, sc_cycle_count = 0, sc_instruction_count = 0, sc_running = True\<rparr>"

definition single_cycle_reset :: "SingleCycleCPU \<Rightarrow> SingleCycleCPU" where
  "single_cycle_reset cpu = single_cycle_init"

definition get_word :: "u32 list \<Rightarrow> u32 \<Rightarrow> u32 option" where
  "get_word xs i = (if unat i < length xs then Some (xs ! unat i) else None)"

definition put_word :: "u32 list \<Rightarrow> u32 \<Rightarrow> u32 \<Rightarrow> u32 list option" where
  "put_word xs i v = (if unat i < length xs then Some (xs[unat i := v]) else None)"

text \<open>The \<open>switch\<close> on the opcode: the result and the memory after it.\<close>

definition execute_opcode ::
    "u32 list \<Rightarrow> u32 list \<Rightarrow> u32 \<Rightarrow> u32 \<Rightarrow> u32 \<Rightarrow> u32 \<Rightarrow> u32 \<Rightarrow> (u32 \<times> u32 list) option" where
  "execute_opcode regs memory mem_size opc r1 r2 imm =
     (if opc = 0x33 then do { a \<leftarrow> get_word regs r1; b \<leftarrow> get_word regs r2; Some (a + b, memory) }
      else if opc = 0x13 then do { a \<leftarrow> get_word regs r1; Some (a + imm, memory) }
      else if opc = 0x03 then do {
        a \<leftarrow> get_word regs r1;
        if (a + imm) div 4 < mem_size then do { v \<leftarrow> get_word memory ((a + imm) div 4); Some (v, memory) }
        else Some (0, memory) }
      else if opc = 0x23 then do {
        a \<leftarrow> get_word regs r1;
        if (a + imm) div 4 < mem_size
        then do { v \<leftarrow> get_word regs r2; memory' \<leftarrow> put_word memory ((a + imm) div 4) v; Some (0, memory') }
        else Some (0, memory) }
      else Some (0, memory))"

definition single_cycle_execute_one ::
    "u32 \<Rightarrow> SingleCycleCPU \<times> u32 list \<Rightarrow> (SingleCycleCPU \<times> u32 list) option" where
  "single_cycle_execute_one mem_size s =
     (case s of (cpu, memory) \<Rightarrow>
        if \<not> sc_running cpu then Some (cpu, memory)
        else if sc_pc cpu div 4 \<ge> mem_size then Some (cpu\<lparr>sc_running := False\<rparr>, memory)
        else do {
          raw \<leftarrow> get_word memory (sc_pc cpu div 4);
          let opc = raw AND 0x7F;
          let r = drop_bit 7 raw AND 0x1F;
          let r1 = drop_bit 15 raw AND 0x1F;
          let r2 = drop_bit 20 raw AND 0x1F;
          let imm = drop_bit 20 raw;
          (result, memory') \<leftarrow> execute_opcode (sc_registers cpu) memory mem_size opc r1 r2 imm;
          regs \<leftarrow> (if r \<noteq> 0 \<and> opc \<noteq> 0x23 then put_word (sc_registers cpu) r result else Some (sc_registers cpu));
          Some (cpu\<lparr>sc_registers := regs, sc_pc := sc_pc cpu + 4, sc_cycle_count := sc_cycle_count cpu + 1,
                    sc_instruction_count := sc_instruction_count cpu + 1\<rparr>, memory') })"

text \<open>The loop of \<open>single_cycle_execute\<close>; its counter runs over the numbers below \<open>num_instructions\<close>.\<close>

primrec single_cycle_loop ::
    "nat \<Rightarrow> u32 \<Rightarrow> SingleCycleCPU \<times> u32 list \<Rightarrow> (SingleCycleCPU \<times> u32 list) option" where
  "single_cycle_loop 0 mem_size s = Some s"
| "single_cycle_loop (Suc k) mem_size s =
     (if sc_running (fst s) then do { s' \<leftarrow> single_cycle_execute_one mem_size s; single_cycle_loop k mem_size s' }
      else Some s)"

definition single_cycle_execute ::
    "u32 \<Rightarrow> u32 \<Rightarrow> SingleCycleCPU \<times> u32 list \<Rightarrow> (SingleCycleCPU \<times> u32 list) option" where
  "single_cycle_execute mem_size num_instructions s = single_cycle_loop (unat num_instructions) mem_size s"

definition single_cycle_get_cycles :: "SingleCycleCPU \<Rightarrow> u64" where
  "single_cycle_get_cycles cpu = sc_cycle_count cpu"

definition single_cycle_get_instructions :: "SingleCycleCPU \<Rightarrow> u64" where
  "single_cycle_get_instructions cpu = sc_instruction_count cpu"

section \<open>Performance counters\<close>

record PerformanceCounters =
  perf_cycles :: u64
  perf_instructions :: u64
  cache_hits :: u64
  cache_misses :: u64
  perf_stalls :: u64

definition performance_init :: PerformanceCounters where
  "performance_init =
     \<lparr>perf_cycles = 0, perf_instructions = 0, cache_hits = 0, cache_misses = 0, perf_stalls = 0\<rparr>"

definition performance_update_cycles :: "u64 \<Rightarrow> PerformanceCounters \<Rightarrow> PerformanceCounters" where
  "performance_update_cycles n p = p\<lparr>perf_cycles := perf_cycles p + n\<rparr>"

definition performance_update_instructions :: "u64 \<Rightarrow> PerformanceCounters \<Rightarrow> PerformanceCounters" where
  "performance_update_instructions n p = p\<lparr>perf_instructions := perf_instructions p + n\<rparr>"

definition performance_update_cache :: "u64 \<Rightarrow> u64 \<Rightarrow> PerformanceCounters \<Rightarrow> PerformanceCounters" where
  "performance_update_cache h m p = p\<lparr>cache_hits := cache_hits p + h, cache_misses := cache_misses p + m\<rparr>"

definition performance_update_stalls :: "u64 \<Rightarrow> PerformanceCounters \<Rightarrow> PerformanceCounters" where
  "performance_update_stalls n p = p\<lparr>perf_stalls := perf_stalls p + n\<rparr>"

section \<open>Type safety\<close>

definition cpu_ok :: "u32 \<Rightarrow> SingleCycleCPU \<times> u32 list \<Rightarrow> bool" where
  "cpu_ok mem_size s \<longleftrightarrow> length (sc_registers (fst s)) = 32 \<and> sc_registers (fst s) ! 0 = 0 \<and>
     length (snd s) = unat mem_size"

lemma get_word_Some [simp]: "unat i < length xs \<Longrightarrow> get_word xs i = Some (xs ! unat i)"
  by (simp add: get_word_def)

lemma put_word_Some [simp]: "unat i < length xs \<Longrightarrow> put_word xs i v = Some (xs[unat i := v])"
  by (simp add: put_word_def)

lemma field_less: "unat (w AND 0x1F :: u32) < 32"
proof -
  have "w AND 0x1F = take_bit 5 w" by (simp add: take_bit_eq_mask mask_eq_exp_minus_1)
  then show ?thesis by (simp add: unsigned_take_bit_eq take_bit_nat_less_exp [of 5, simplified])
qed

lemma execute_opcode_safe:
  assumes "length regs = 32" and "length memory = unat mem_size" and "unat r1 < 32" and "unat r2 < 32"
  shows "\<exists>v memory'. execute_opcode regs memory mem_size opc r1 r2 imm = Some (v, memory') \<and> length memory' = unat mem_size"
  using assms by (auto simp: execute_opcode_def word_less_nat_alt)

lemma execute_one_safe:
  assumes "cpu_ok mem_size (cpu, memory)" and "sc_running cpu"
  shows "\<exists>cpu' memory'. single_cycle_execute_one mem_size (cpu, memory) = Some (cpu', memory') \<and>
    cpu_ok mem_size (cpu', memory') \<and>
    (if sc_pc cpu div 4 < mem_size
     then sc_running cpu' \<and> sc_pc cpu' = sc_pc cpu + 4 \<and> sc_cycle_count cpu' = sc_cycle_count cpu + 1 \<and>
          sc_instruction_count cpu' = sc_instruction_count cpu + 1
     else cpu' = cpu\<lparr>sc_running := False\<rparr>)"
proof (cases "sc_pc cpu div 4 < mem_size")
  case False
  then show ?thesis using assms by (simp add: single_cycle_execute_one_def cpu_ok_def not_less)
next
  case True
  have ok: "length (sc_registers cpu) = 32" "length memory = unat mem_size" "sc_registers cpu ! 0 = 0"
    using assms by (simp_all add: cpu_ok_def)
  have pc: "unat (sc_pc cpu div 4) < length memory" using True ok by (simp add: word_less_nat_alt)
  define raw where "raw = memory ! unat (sc_pc cpu div 4)"
  let ?r = "drop_bit 7 raw AND 0x1F"
  obtain v memory' where ex: "execute_opcode (sc_registers cpu) memory mem_size (raw AND 0x7F)
      (drop_bit 15 raw AND 0x1F) (drop_bit 20 raw AND 0x1F) (drop_bit 20 raw) = Some (v, memory')"
    "length memory' = unat mem_size"
    using execute_opcode_safe [OF ok(1,2) field_less field_less] by blast
  define regs where "regs = (if ?r \<noteq> 0 \<and> raw AND 0x7F \<noteq> 0x23 then (sc_registers cpu)[unat ?r := v] else sc_registers cpu)"
  have st: "(if ?r \<noteq> 0 \<and> raw AND 0x7F \<noteq> 0x23 then put_word (sc_registers cpu) ?r v else Some (sc_registers cpu)) = Some regs"
    using field_less [of "drop_bit 7 raw"] ok by (simp add: regs_def)
  have "single_cycle_execute_one mem_size (cpu, memory) =
      Some (cpu\<lparr>sc_registers := regs, sc_pc := sc_pc cpu + 4, sc_cycle_count := sc_cycle_count cpu + 1,
                sc_instruction_count := sc_instruction_count cpu + 1\<rparr>, memory')"
    unfolding single_cycle_execute_one_def prod.case
    using True assms(2) pc by (simp add: Let_def raw_def [symmetric] ex st not_le [symmetric] del: not_le split del: if_split)
  moreover have "cpu_ok mem_size (cpu\<lparr>sc_registers := regs, sc_pc := sc_pc cpu + 4, sc_cycle_count := sc_cycle_count cpu + 1,
                sc_instruction_count := sc_instruction_count cpu + 1\<rparr>, memory')"
    using ok ex(2) by (auto simp: cpu_ok_def regs_def nth_list_update unat_eq_0)
  ultimately show ?thesis using True assms(2) by simp
qed

lemma pc_in_range:
  assumes "i \<le> unat mem_size" and "unat mem_size < 2 ^ 30"
  shows "(of_nat (4 * i) :: u32) div 4 < mem_size \<longleftrightarrow> i < unat mem_size"
proof -
  have "unat ((of_nat (4 * i) :: u32) div 4) = i"
    using assms by (simp add: unat_div unat_of_nat take_bit_nat_eq_self del: of_nat_mult)
  then show ?thesis by (simp add: word_less_nat_alt del: of_nat_mult)
qed

lemma single_cycle_loop_safe:
  assumes "cpu_ok mem_size (cpu, memory)" and "unat mem_size < 2 ^ 30" and "i \<le> unat mem_size"
    and "sc_running cpu" and "sc_pc cpu = of_nat (4 * i)" and "sc_cycle_count cpu = of_nat i" and "sc_instruction_count cpu = of_nat i"
  shows "\<exists>cpu' memory'. single_cycle_loop k mem_size (cpu, memory) = Some (cpu', memory') \<and> cpu_ok mem_size (cpu', memory') \<and>
    sc_cycle_count cpu' = of_nat (min (i + k) (unat mem_size)) \<and>
    sc_instruction_count cpu' = of_nat (min (i + k) (unat mem_size)) \<and>
    (sc_running cpu' \<longleftrightarrow> i + k \<le> unat mem_size)"
  using assms(1,3-)
proof (induction k arbitrary: cpu memory i)
  case 0
  then show ?case by (simp add: min_absorb1)
next
  case (Suc k)
  obtain cpu1 memory1 where one: "single_cycle_execute_one mem_size (cpu, memory) = Some (cpu1, memory1)"
    "cpu_ok mem_size (cpu1, memory1)"
    "if sc_pc cpu div 4 < mem_size
     then sc_running cpu1 \<and> sc_pc cpu1 = sc_pc cpu + 4 \<and> sc_cycle_count cpu1 = sc_cycle_count cpu + 1 \<and>
          sc_instruction_count cpu1 = sc_instruction_count cpu + 1
     else cpu1 = cpu\<lparr>sc_running := False\<rparr>"
    using execute_one_safe [OF Suc.prems(1,3)] by blast
  have loop: "single_cycle_loop (Suc k) mem_size (cpu, memory) = single_cycle_loop k mem_size (cpu1, memory1)"
    using one(1) Suc.prems(3) by simp
  show ?case
  proof (cases "i < unat mem_size")
    case True
    then have "sc_pc cpu div 4 < mem_size" using pc_in_range [OF Suc.prems(2) assms(2)] Suc.prems(4) by simp
    then have "sc_running cpu1" "sc_pc cpu1 = of_nat (4 * Suc i)" "sc_cycle_count cpu1 = of_nat (Suc i)"
      "sc_instruction_count cpu1 = of_nat (Suc i)"
      using one(3) Suc.prems by simp_all
    from Suc.IH [OF one(2) _ this] True show ?thesis using loop by simp
  next
    case False
    then have "\<not> sc_pc cpu div 4 < mem_size" using pc_in_range [OF Suc.prems(2) assms(2)] Suc.prems(4) by simp
    then have "cpu1 = cpu\<lparr>sc_running := False\<rparr>" using one(3) by simp
    then show ?thesis using loop one(2) Suc.prems False by (cases k) (auto simp: min_def)
  qed
qed

text \<open>
  C38. The single-cycle simulator is type safe: on a program of fewer than 2^30 words it never reads or
  writes outside the register file or the memory, it keeps 32 registers with register 0 equal to 0 and the
  size of the memory, and it executes one instruction per cycle until \<open>num\<close> instructions or the end of
  the program are reached.
\<close>

theorem single_cycle_type_safe:
  assumes "length memory = unat mem_size" and "unat mem_size < 2 ^ 30"
  shows "\<exists>cpu' memory'. single_cycle_execute mem_size num (single_cycle_init, memory) = Some (cpu', memory') \<and>
    length memory' = unat mem_size \<and> length (sc_registers cpu') = 32 \<and> sc_registers cpu' ! 0 = 0 \<and>
    unat (single_cycle_get_instructions cpu') = min (unat num) (unat mem_size) \<and>
    single_cycle_get_cycles cpu' = single_cycle_get_instructions cpu' \<and>
    (sc_running cpu' \<longleftrightarrow> unat num \<le> unat mem_size)"
proof -
  have ok: "cpu_ok mem_size (single_cycle_init, memory)" using assms by (simp add: cpu_ok_def single_cycle_init_def)
  have "unat (of_nat (min (unat num) (unat mem_size)) :: u64) = min (unat num) (unat mem_size)"
    using assms(2) by (simp add: unat_of_nat take_bit_nat_eq_self)
  then show ?thesis
    using single_cycle_loop_safe [OF ok assms(2), of 0 "unat num"]
    by (auto simp: single_cycle_execute_def single_cycle_init_def single_cycle_get_instructions_def
        single_cycle_get_cycles_def cpu_ok_def)
qed

theorem single_cycle_type_safe_witness:
  "\<exists>cpu' memory'. single_cycle_execute 2 7 (single_cycle_init, [0x00A00093, 0x00108133]) = Some (cpu', memory') \<and>
    length memory' = 2 \<and> sc_registers cpu' ! 0 = 0 \<and> unat (single_cycle_get_instructions cpu') = 2 \<and> \<not> sc_running cpu'"
  using single_cycle_type_safe [of "[0x00A00093, 0x00108133]" 2 7] by auto

end
