(* ===== verification/Cache.thy ===== *)
theory Cache
  imports Prelude
begin

text \<open>
  The direct-mapped cache simulator (src/memory/cache.c) and the memory bus simulator
  (src/memory/bus.c).  The byte that the caller passes by pointer is an argument and a result,
  \<open>None\<close> for NULL.  The functions that return floating-point rates are not modelled.
\<close>

section \<open>Cache\<close>

definition CACHE_NUM_LINES :: nat where
  "CACHE_NUM_LINES = 256"

definition CACHE_BLOCK_SIZE :: nat where
  "CACHE_BLOCK_SIZE = 32"

record CacheLine =
  line_valid :: bool
  line_tag :: u32
  line_data :: "u8 list"

record Cache =
  lines :: "CacheLine list"
  hits :: u64
  misses :: u64
  accesses :: u64

definition cache_init :: Cache where
  "cache_init =
     \<lparr>lines = replicate CACHE_NUM_LINES \<lparr>line_valid = False, line_tag = 0, line_data = replicate CACHE_BLOCK_SIZE 0\<rparr>,
      hits = 0, misses = 0, accesses = 0\<rparr>"

definition cache_reset :: "Cache \<Rightarrow> Cache" where
  "cache_reset c = cache_init"

text \<open>Tag, index and offset of an address.\<close>

definition cache_parse_address :: "u32 \<Rightarrow> u32 \<times> u32 \<times> u32" where
  "cache_parse_address address = (drop_bit (5 + 8) address, drop_bit 5 address AND 0xFF, address AND 0x1F)"

definition cache_access :: "u32 \<Rightarrow> u8 option \<Rightarrow> bool \<Rightarrow> Cache \<Rightarrow> bool \<times> u8 option \<times> Cache" where
  "cache_access address data is_write c =
     (let (tag, index, offset) = cache_parse_address address;
          c1 = c\<lparr>accesses := accesses c + 1\<rparr>;
          i = unat index;
          line = lines c1 ! i
      in if line_valid line \<and> line_tag line = tag
         then let c2 = c1\<lparr>hits := hits c1 + 1\<rparr>
              in case data of
                   None \<Rightarrow> (True, None, c2)
                 | Some b \<Rightarrow>
                     if is_write
                     then (True, data, c2\<lparr>lines := (lines c2)[i := line\<lparr>line_data := (line_data line)[unat offset := b]\<rparr>]\<rparr>)
                     else (True, Some (line_data line ! unat offset), c2)
         else let c2 = c1\<lparr>misses := misses c1 + 1\<rparr>;
                  line2 = line\<lparr>line_valid := True, line_tag := tag\<rparr>
              in case data of
                   None \<Rightarrow> (False, None, c2\<lparr>lines := (lines c2)[i := line2]\<rparr>)
                 | Some b \<Rightarrow>
                     if is_write
                     then (False, data, c2\<lparr>lines := (lines c2)[i := line2\<lparr>line_data := (line_data line2)[unat offset := b]\<rparr>]\<rparr>)
                     else (False, Some 0, c2\<lparr>lines := (lines c2)[i := line2]\<rparr>))"

definition cache_get_hits :: "Cache \<Rightarrow> u64" where
  "cache_get_hits c = hits c"

definition cache_get_misses :: "Cache \<Rightarrow> u64" where
  "cache_get_misses c = misses c"

definition cache_get_accesses :: "Cache \<Rightarrow> u64" where
  "cache_get_accesses c = accesses c"

section \<open>Bus\<close>

datatype BusTransactionType = BUS_READ | BUS_WRITE

record MemoryBus =
  bus_cycle_count :: u64
  read_transactions :: u64
  write_transactions :: u64
  total_bytes :: u64
  busy :: bool

definition bus_init :: MemoryBus where
  "bus_init = \<lparr>bus_cycle_count = 0, read_transactions = 0, write_transactions = 0, total_bytes = 0, busy = False\<rparr>"

definition bus_reset :: "MemoryBus \<Rightarrow> MemoryBus" where
  "bus_reset bus = bus_init"

definition bus_request :: "BusTransactionType \<Rightarrow> u32 \<Rightarrow> u32 \<Rightarrow> MemoryBus \<Rightarrow> bool \<times> MemoryBus" where
  "bus_request type address sz bus =
     (if busy bus then (False, bus)
      else let b = bus\<lparr>busy := True, total_bytes := total_bytes bus + ucast sz\<rparr>
           in (True, if type = BUS_READ then b\<lparr>read_transactions := read_transactions b + 1\<rparr>
                     else b\<lparr>write_transactions := write_transactions b + 1\<rparr>))"

definition bus_cycle :: "MemoryBus \<Rightarrow> MemoryBus" where
  "bus_cycle bus = bus\<lparr>bus_cycle_count := bus_cycle_count bus + 1, busy := False\<rparr>"

definition bus_get_memory_latency_cycles :: u64 where
  "bus_get_memory_latency_cycles = (30 * 800) div 1000"

section \<open>Hits\<close>

text \<open>
  A line holds the block of the last access that mapped to it.  A trace is a list of accesses,
  the latest first.
\<close>

record access =
  acc_addr :: u32
  acc_data :: "u8 option"
  acc_write :: bool

abbreviation block_of :: "u32 \<Rightarrow> nat" where
  "block_of address \<equiv> unat address div 32"

abbreviation line_of :: "u32 \<Rightarrow> nat" where
  "line_of address \<equiv> block_of address mod 256"

definition last_block :: "access list \<Rightarrow> nat \<Rightarrow> nat option" where
  "last_block trace i = map_option (\<lambda>x. block_of (acc_addr x)) (find (\<lambda>x. line_of (acc_addr x) = i) trace)"

definition do_access :: "access \<Rightarrow> Cache \<Rightarrow> Cache" where
  "do_access x c = snd (snd (cache_access (acc_addr x) (acc_data x) (acc_write x) c))"

primrec run_trace :: "access list \<Rightarrow> Cache" where
  "run_trace [] = cache_init"
| "run_trace (x # xs) = do_access x (run_trace xs)"

text \<open>The hits of a trace, by the reference.\<close>

primrec count_hits :: "access list \<Rightarrow> nat" where
  "count_hits [] = 0"
| "count_hits (x # xs) =
     (if last_block xs (line_of (acc_addr x)) = Some (block_of (acc_addr x)) then Suc (count_hits xs) else count_hits xs)"

definition cache_rel :: "access list \<Rightarrow> Cache \<Rightarrow> bool" where
  "cache_rel trace c \<longleftrightarrow> length (lines c) = 256 \<and>
     (\<forall>i<256. case last_block trace i of
        None \<Rightarrow> \<not> line_valid (lines c ! i)
      | Some b \<Rightarrow> line_valid (lines c ! i) \<and> unat (line_tag (lines c ! i)) = b div 256 \<and> b mod 256 = i)"

lemma parse_address:
  assumes "cache_parse_address address = (tag, index, offset)"
  shows "unat tag = block_of address div 256" and "unat index = line_of address" and "unat offset = unat address mod 32"
proof -
  have m: "(w AND 0x1F) = take_bit 5 w" "(w AND 0xFF) = take_bit 8 w" for w :: u32
    by (simp_all add: take_bit_eq_mask mask_eq_exp_minus_1)
  have "tag = drop_bit 13 address" "index = take_bit 8 (drop_bit 5 address)" "offset = take_bit 5 address"
    using assms by (simp_all add: cache_parse_address_def m)
  then show "unat tag = block_of address div 256" "unat index = line_of address" "unat offset = unat address mod 32"
    by (simp_all add: unsigned_drop_bit_eq unsigned_take_bit_eq drop_bit_eq_div take_bit_eq_mod unat_div unat_mod div_mult2_eq [symmetric])
qed

lemma block_eq_iff: "b div 256 = b' div 256 \<Longrightarrow> b mod 256 = b' mod 256 \<Longrightarrow> b = b'" for b b' :: nat
  by (metis div_mult_mod_eq)

lemma last_block_line: "last_block trace i = Some b \<Longrightarrow> b mod 256 = i"
  by (auto simp: last_block_def find_Some_iff)

lemma last_block_Cons:
  "last_block (x # xs) i = (if line_of (acc_addr x) = i then Some (block_of (acc_addr x)) else last_block xs i)"
  by (simp add: last_block_def)

lemma cache_access_step:
  fixes x :: access
  assumes rel: "cache_rel trace c" and acc: "cache_access (acc_addr x) (acc_data x) (acc_write x) c = (hit, d', c')"
  shows "hit \<longleftrightarrow> last_block trace (line_of (acc_addr x)) = Some (block_of (acc_addr x))"
    and "cache_rel (x # trace) c'"
    and "accesses c' = accesses c + 1"
    and "hits c' = hits c + (if hit then 1 else 0)"
    and "misses c' = misses c + (if hit then 0 else 1)"
proof -
  obtain tag index offset where p: "cache_parse_address (acc_addr x) = (tag, index, offset)"
    by (metis prod_cases3)
  note u = parse_address [OF p]
  let ?i = "line_of (acc_addr x)" and ?b = "block_of (acc_addr x)"
  let ?l = "lines c ! ?i"
  have i: "?i < 256" by simp
  have len: "length (lines c) = 256" using rel by (simp add: cache_rel_def)
  have row: "case last_block trace ?i of None \<Rightarrow> \<not> line_valid ?l
      | Some b \<Rightarrow> line_valid ?l \<and> unat (line_tag ?l) = b div 256 \<and> b mod 256 = ?i"
    using rel i unfolding cache_rel_def by blast
  define h where "h \<longleftrightarrow> line_valid ?l \<and> line_tag ?l = tag"
  have h: "h \<longleftrightarrow> last_block trace ?i = Some ?b"
  proof (cases "last_block trace ?i")
    case None
    then show ?thesis using row by (simp add: h_def)
  next
    case (Some b)
    have "line_tag ?l = tag \<longleftrightarrow> unat (line_tag ?l) = unat tag" by (simp add: word_unat_eq_iff)
    then show ?thesis using row Some u(1) block_eq_iff [of b ?b] by (auto simp: h_def)
  qed
  have body: "hit = h \<and> accesses c' = accesses c + 1 \<and> hits c' = hits c + (if h then 1 else 0) \<and>
      misses c' = misses c + (if h then 0 else 1) \<and> length (lines c') = 256 \<and>
      line_valid (lines c' ! ?i) \<and> line_tag (lines c' ! ?i) = tag \<and> (\<forall>j. j \<noteq> ?i \<longrightarrow> lines c' ! j = lines c ! j)"
    using acc len i unfolding cache_access_def p Let_def prod.case u(2)
    by (auto simp: h_def split: option.splits if_splits)
  then show "hit \<longleftrightarrow> last_block trace ?i = Some ?b" "accesses c' = accesses c + 1"
    "hits c' = hits c + (if hit then 1 else 0)" "misses c' = misses c + (if hit then 0 else 1)"
    using h by auto
  show "cache_rel (x # trace) c'"
    unfolding cache_rel_def
  proof (intro conjI allI impI)
    show "length (lines c') = 256" using body by simp
    fix j :: nat assume j: "j < 256"
    show "case last_block (x # trace) j of None \<Rightarrow> \<not> line_valid (lines c' ! j)
      | Some b \<Rightarrow> line_valid (lines c' ! j) \<and> unat (line_tag (lines c' ! j)) = b div 256 \<and> b mod 256 = j"
    proof (cases "?i = j")
      case True
      then show ?thesis using body u(1) by (auto simp: last_block_Cons)
    next
      case False
      then have "lines c' ! j = lines c ! j" using body by auto
      then show ?thesis using rel j False by (simp only: last_block_Cons if_False cache_rel_def)
    qed
  qed
qed

lemma run_trace_rel:
  "cache_rel trace (run_trace trace) \<and> accesses (run_trace trace) = of_nat (length trace) \<and>
   hits (run_trace trace) = of_nat (count_hits trace) \<and>
   misses (run_trace trace) = of_nat (length trace - count_hits trace) \<and> count_hits trace \<le> length trace"
proof (induction trace)
  case Nil
  then show ?case by (auto simp: cache_rel_def cache_init_def CACHE_NUM_LINES_def last_block_def)
next
  case (Cons x xs)
  obtain hit d' c' where a: "cache_access (acc_addr x) (acc_data x) (acc_write x) (run_trace xs) = (hit, d', c')"
    by (metis prod_cases3)
  note s = cache_access_step [OF _ a, of xs]
  have "run_trace (x # xs) = c'" using a by (simp add: do_access_def)
  then show ?case using Cons s by (auto simp: Suc_diff_le)
qed

text \<open>
  C39. The cache is a direct-mapped cache: after any trace of accesses, an access is a hit exactly when the
  last access that mapped to the same line was to the same 32-byte block, and as long as the 64-bit counters
  do not wrap they are the numbers of accesses, hits and misses of the trace.
\<close>

theorem cache_direct_mapped:
  fixes trace :: "access list"
  assumes "length trace < 2 ^ 64"
  shows "(fst (cache_access address data is_write (run_trace trace)) \<longleftrightarrow>
      last_block trace (line_of address) = Some (block_of address)) \<and>
    unat (cache_get_accesses (run_trace trace)) = length trace \<and>
    unat (cache_get_hits (run_trace trace)) = count_hits trace \<and>
    unat (cache_get_hits (run_trace trace)) + unat (cache_get_misses (run_trace trace)) = length trace"
proof (intro conjI)
  note r = run_trace_rel [of trace]
  obtain hit d' c' where a: "cache_access address data is_write (run_trace trace) = (hit, d', c')" by (metis prod_cases3)
  have "hit \<longleftrightarrow> last_block trace (line_of address) = Some (block_of address)"
    using cache_access_step(1) [of trace "run_trace trace" "\<lparr>acc_addr = address, acc_data = data, acc_write = is_write\<rparr>"] a r
    by simp
  then show "fst (cache_access address data is_write (run_trace trace)) \<longleftrightarrow>
      last_block trace (line_of address) = Some (block_of address)" using a by simp
  have "count_hits trace < 2 ^ 64" "length trace - count_hits trace < 2 ^ 64" using r assms by linarith+
  then show "unat (cache_get_accesses (run_trace trace)) = length trace" "unat (cache_get_hits (run_trace trace)) = count_hits trace"
    "unat (cache_get_hits (run_trace trace)) + unat (cache_get_misses (run_trace trace)) = length trace"
    using r assms
    by (simp_all add: cache_get_accesses_def cache_get_hits_def cache_get_misses_def unat_of_nat take_bit_nat_eq_self del: of_nat_diff)
qed

definition two_reads :: "access list" where
  "two_reads = [\<lparr>acc_addr = 40, acc_data = None, acc_write = False\<rparr>, \<lparr>acc_addr = 33, acc_data = None, acc_write = False\<rparr>]"

theorem cache_direct_mapped_witness:
  "fst (cache_access 63 None False (run_trace two_reads)) \<and> unat (cache_get_accesses (run_trace two_reads)) = 2 \<and>
   unat (cache_get_hits (run_trace two_reads)) = 1 \<and>
   unat (cache_get_hits (run_trace two_reads)) + unat (cache_get_misses (run_trace two_reads)) = 2"
  using cache_direct_mapped [of two_reads 63 None False] by (simp add: two_reads_def last_block_def)

text \<open>
  A miss replaces the tag but not the bytes of the line: the first read of a block returns 0, the second
  one a byte of the block that was evicted.
\<close>

lemma cache_stale_byte:
  "let c1 = snd (snd (cache_access 0 (Some 7) True cache_init));
       (hit2, byte2, c2) = cache_access 8192 (Some 0) False c1;
       (hit3, byte3, c3) = cache_access 8192 (Some 0) False c2
   in \<not> hit2 \<and> byte2 = Some 0 \<and> hit3 \<and> byte3 = Some 7"
  by code_simp

text \<open>A request is refused only while the previous one occupies the bus, which ends with the cycle.\<close>

lemma bus_request_cycle:
  "fst (bus_request type address sz bus) \<longleftrightarrow> \<not> busy bus"
  "busy (snd (bus_request type address sz bus))"
  "fst (bus_request type' address' sz' (bus_cycle (snd (bus_request type address sz bus))))"
  by (auto simp: bus_request_def bus_cycle_def Let_def)

lemma bus_latency: "bus_get_memory_latency_cycles = 24"
  by (simp add: bus_get_memory_latency_cycles_def)

end
