(* ===== verification/Keyboard.thy ===== *)
theory Keyboard
  imports Console CString
begin

text \<open>
  The keyboard driver (src/drivers/keyboard.c): the scan code tables, the interrupt handler with the
  line editor, and \<open>keyboard_get_line\<close>.  The scan codes that the controller delivers are an argument.
  The wait of \<open>keyboard_get_line\<close> consumes them one by one, each by a call of the handler, until a line
  is ready; waiting for a scan code that never comes is \<open>None\<close>.  Interrupts that arrive while the finished
  line is copied are not modelled.
\<close>

section \<open>Model\<close>

definition table128 :: "char list \<Rightarrow> char list" where
  "table128 xs = xs @ replicate (128 - length xs) NUL"

definition keypad :: "char list" where
  "keypad = [NUL, CHR ''*'', NUL, CHR '' '', NUL] @ replicate 10 NUL @ replicate 5 NUL @ [CHR ''-''] @ replicate 3 NUL @ [CHR ''+'']"

definition scancode_to_ascii :: "char list" where
  "scancode_to_ascii = table128
     ([NUL, CHR 0x1B] @ ''1234567890-='' @ [CHR 0x08, CHR 0x09] @ ''qwertyuiop[]'' @ [CHR 0x0A, NUL] @
      ''asdfghjkl;'' @ [CHR 0x27, CHR 0x60, NUL, CHR 0x5C] @ ''zxcvbnm,./'' @ keypad)"

definition scancode_to_ascii_shift :: "char list" where
  "scancode_to_ascii_shift = table128
     ([NUL, CHR 0x1B] @ ''!@#$%^&*()_+'' @ [CHR 0x08, CHR 0x09] @ ''QWERTYUIOP{}'' @ [CHR 0x0A, NUL] @
      ''ASDFGHJKL:'' @ [CHR 0x22, CHR ''~'', NUL] @ ''|ZXCVBNM<>?'' @ keypad)"

abbreviation INPUT_BUFFER_SIZE :: nat where "INPUT_BUFFER_SIZE \<equiv> 256"

record keyboard =
  con :: console
  shift_pressed :: bool
  caps_lock :: bool
  input_buffer :: cbuf
  input_buffer_pos :: nat
  line_ready :: bool

definition with_con :: "(console \<Rightarrow> console option) \<Rightarrow> keyboard \<Rightarrow> keyboard option" where
  "with_con f k = map_option (\<lambda>c. k\<lparr>con := c\<rparr>) (f (con k))"

definition eoi :: "keyboard \<Rightarrow> keyboard" where
  "eoi k = k\<lparr>con := pic_send_eoi 1 (con k)\<rparr>"

text \<open>The character of a key: the table of the shift state, then caps lock.\<close>

definition key_ascii :: "bool \<Rightarrow> bool \<Rightarrow> u8 \<Rightarrow> char" where
  "key_ascii shift caps scancode =
     (let ascii = (if shift then scancode_to_ascii_shift else scancode_to_ascii) ! unat scancode
      in if caps \<and> \<not> shift \<and> of_char ascii \<ge> (97 :: nat) \<and> of_char ascii \<le> (122 :: nat)
         then char_of (of_char ascii - 32 :: nat) else ascii)"

text \<open>The branch of the handler for a regular key.\<close>

definition handle_key :: "(nat \<Rightarrow> u8) \<Rightarrow> char \<Rightarrow> keyboard \<Rightarrow> keyboard option" where
  "handle_key lsr ascii k =
     (if ascii = CHR 0x08
      then if input_buffer_pos k > 0
           then with_con terminal_backspace (k\<lparr>input_buffer_pos := input_buffer_pos k - 1\<rparr>)
           else Some k
      else if ascii = CHR 0x0A
      then do {
        k1 \<leftarrow> with_con (terminal_put_char lsr (CHR 0x0A)) k;
        if input_buffer_pos k1 < length (input_buffer k1)
        then Some (k1\<lparr>input_buffer := (input_buffer k1)[input_buffer_pos k1 := NUL], line_ready := True\<rparr>)
        else None }
      else if ascii \<noteq> NUL
      then if input_buffer_pos k < INPUT_BUFFER_SIZE - 1
           then if input_buffer_pos k < length (input_buffer k)
                then with_con (terminal_put_char lsr ascii)
                       (k\<lparr>input_buffer := (input_buffer k)[input_buffer_pos k := ascii],
                          input_buffer_pos := input_buffer_pos k + 1\<rparr>)
                else None
           else Some k
      else Some k)"

definition keyboard_handler :: "(nat \<Rightarrow> u8) \<Rightarrow> u8 \<Rightarrow> keyboard \<Rightarrow> keyboard option" where
  "keyboard_handler lsr scancode k =
     (if scancode AND 0x80 \<noteq> 0
      then let released = scancode AND 0x7F
           in Some (eoi (if released = 0x2A \<or> released = 0x36 then k\<lparr>shift_pressed := False\<rparr> else k))
      else if scancode = 0x2A \<or> scancode = 0x36 then Some (eoi (k\<lparr>shift_pressed := True\<rparr>))
      else if scancode = 0x3A then Some (eoi (k\<lparr>caps_lock := \<not> caps_lock k\<rparr>))
      else if scancode \<ge> 128 then Some (eoi k)
      else map_option eoi (handle_key lsr (key_ascii (shift_pressed k) (caps_lock k) scancode) k))"

text \<open>Waiting for a line: the scan codes not yet consumed are returned.\<close>

fun wait_line :: "(nat \<Rightarrow> u8) \<Rightarrow> u8 list \<Rightarrow> keyboard \<Rightarrow> (u8 list \<times> keyboard) option" where
  "wait_line lsr codes k =
     (if line_ready k then Some (codes, k)
      else case codes of [] \<Rightarrow> None
           | s # ss \<Rightarrow> do { k1 \<leftarrow> keyboard_handler lsr s k; wait_line lsr ss k1 })"

declare wait_line.simps [simp del]

fun copy_line :: "nat \<Rightarrow> nat \<Rightarrow> keyboard \<Rightarrow> cbuf \<Rightarrow> cbuf option" where
  "copy_line 0 i k buffer = None"
| "copy_line (Suc left) i k buffer =
     (if i \<ge> length buffer then None
      else if i < input_buffer_pos k \<and> left > 0
      then if i < length (input_buffer k) then copy_line left (Suc i) k (buffer[i := input_buffer k ! i]) else None
      else Some (buffer[i := NUL]))"

definition keyboard_get_line ::
    "(nat \<Rightarrow> u8) \<Rightarrow> u8 list \<Rightarrow> cbuf option \<Rightarrow> nat \<Rightarrow> keyboard \<Rightarrow> (cbuf option \<times> u8 list \<times> keyboard) option" where
  "keyboard_get_line lsr codes buffer max_len k =
     (case buffer of None \<Rightarrow> Some (None, codes, k)
      | Some b \<Rightarrow>
          if max_len = 0 then Some (Some b, codes, k)
          else do {
            (codes', k1) \<leftarrow> wait_line lsr codes (k\<lparr>input_buffer_pos := 0, line_ready := False\<rparr>);
            b' \<leftarrow> copy_line max_len 0 k1 b;
            Some (Some b', codes', k1) })"

section \<open>The line editor\<close>

datatype key = Shift bool | Caps | Back | Enter | Char char | Ignore

definition key_of :: "bool \<Rightarrow> bool \<Rightarrow> u8 \<Rightarrow> key" where
  "key_of shift caps s =
     (if unat s \<ge> 128 then (if unat s = 0xAA \<or> unat s = 0xB6 then Shift False else Ignore)
      else if s = 0x2A \<or> s = 0x36 then Shift True
      else if s = 0x3A then Caps
      else let c = key_ascii shift caps s
           in if c = CHR 0x08 then Back else if c = CHR 0x0A then Enter else if c = NUL then Ignore else Char c)"

text \<open>The line that a sequence of scan codes types, up to the first Enter, and the codes after it.\<close>

fun type_line :: "bool \<Rightarrow> bool \<Rightarrow> string \<Rightarrow> u8 list \<Rightarrow> (string \<times> u8 list) option" where
  "type_line shift caps line [] = None"
| "type_line shift caps line (s # ss) =
     (case key_of shift caps s of
        Shift d \<Rightarrow> type_line d caps line ss
      | Caps \<Rightarrow> type_line shift (\<not> caps) line ss
      | Back \<Rightarrow> type_line shift caps (butlast line) ss
      | Enter \<Rightarrow> Some (line, ss)
      | Char c \<Rightarrow> type_line shift caps (if length line < 255 then line @ [c] else line) ss
      | Ignore \<Rightarrow> type_line shift caps line ss)"

definition kb_rel :: "bool \<Rightarrow> bool \<Rightarrow> string \<Rightarrow> keyboard \<Rightarrow> bool" where
  "kb_rel shift caps line k \<longleftrightarrow> console_ok (con k) \<and> length (input_buffer k) = 256 \<and> input_buffer_pos k = length line \<and>
     length line \<le> 255 \<and> take (length line) (input_buffer k) = line \<and> NUL \<notin> set line \<and>
     shift_pressed k = shift \<and> caps_lock k = caps"

lemma console_ok_eoi [simp]: "console_ok (pic_send_eoi irq c) \<longleftrightarrow> console_ok c"
  by (simp add: pic_send_eoi_def outb_def console_ok_def)

lemma kb_rel_eoi [simp]: "kb_rel shift caps line (eoi k) \<longleftrightarrow> kb_rel shift caps line k" "line_ready (eoi k) = line_ready k"
  by (simp_all add: kb_rel_def eoi_def)

lemma with_con_put:
  assumes "console_ok (con k)" and "uart_live lsr"
  obtains c where "with_con (terminal_put_char lsr ch) k = Some (k\<lparr>con := c\<rparr>)" "console_ok c"
  by (rule console_put_char_spec [OF assms, of ch]) (rule that, simp_all add: with_con_def terminal_put_char_def)

lemma with_con_backspace:
  assumes "console_ok (con k)"
  obtains c where "with_con terminal_backspace k = Some (k\<lparr>con := c\<rparr>)" "console_ok c"
  using console_backspace_ok [OF assms] that by (auto simp: with_con_def terminal_backspace_def)

lemma take_butlast_take: "take (length line) b = line \<Longrightarrow> take (length line - 1) b = butlast line"
  by (metis butlast_conv_take min.absorb1 diff_le_self take_take)

definition after_key :: "char \<Rightarrow> string \<Rightarrow> string" where
  "after_key c line =
     (if c = CHR 0x08 then butlast line else if c = CHR 0x0A \<or> c = NUL then line
      else if length line < 255 then line @ [c] else line)"

lemma handle_key_rel:
  assumes rel: "kb_rel shift caps line k" and live: "uart_live lsr" and "\<not> line_ready k"
  shows "\<exists>k'. handle_key lsr c k = Some k' \<and> kb_rel shift caps (after_key c line) k' \<and> (line_ready k' \<longleftrightarrow> c = CHR 0x0A)"
proof -
  have ok: "console_ok (con k)" and b: "length (input_buffer k) = 256" "input_buffer_pos k = length line" "length line \<le> 255"
    "take (length line) (input_buffer k) = line" "NUL \<notin> set line" "shift_pressed k = shift" "caps_lock k = caps"
    using rel by (auto simp: kb_rel_def)
  consider "c = CHR 0x08" | "c = CHR 0x0A" | "c = NUL" | "c \<noteq> CHR 0x08" "c \<noteq> CHR 0x0A" "c \<noteq> NUL" by blast
  then show ?thesis
  proof cases
    case 1
    show ?thesis
    proof (cases "line = []")
      case True
      then show ?thesis using 1 b rel assms(3) by (simp add: handle_key_def after_key_def)
    next
      case False
      let ?k = "k\<lparr>input_buffer_pos := length line - 1\<rparr>"
      have "console_ok (con ?k)" using ok by simp
      then obtain c' where "with_con terminal_backspace ?k = Some (?k\<lparr>con := c'\<rparr>)" "console_ok c'"
        by (rule with_con_backspace)
      moreover have "NUL \<notin> set (butlast line)" using b(5) by (meson in_set_butlastD)
      ultimately show ?thesis
        using 1 False b assms(3) take_butlast_take [OF b(4)] by (auto simp: handle_key_def after_key_def kb_rel_def)
    qed
  next
    case 2
    obtain c' where "with_con (terminal_put_char lsr (CHR 0x0A)) k = Some (k\<lparr>con := c'\<rparr>)" "console_ok c'"
      by (rule with_con_put [OF ok live])
    then show ?thesis using 2 b by (auto simp: handle_key_def after_key_def kb_rel_def)
  next
    case 3
    then show ?thesis using rel assms(3) by (simp add: handle_key_def after_key_def)
  next
    case 4
    show ?thesis
    proof (cases "length line < 255")
      case False
      then show ?thesis using 4 b rel assms(3) by (simp add: handle_key_def after_key_def)
    next
      case True
      let ?k = "k\<lparr>input_buffer := (input_buffer k)[length line := c], input_buffer_pos := length line + 1\<rparr>"
      have "console_ok (con ?k)" using ok by simp
      then obtain c' where "with_con (terminal_put_char lsr c) ?k = Some (?k\<lparr>con := c'\<rparr>)" "console_ok c'"
        by (rule with_con_put [OF _ live])
      then show ?thesis using 4 True b assms(3) by (auto simp: handle_key_def after_key_def kb_rel_def take_Suc_conv_app_nth)
    qed
  qed
qed

lemma break_code:
  fixes s :: u8
  shows "s AND 0x80 \<noteq> 0 \<longleftrightarrow> unat s \<ge> 128"
    and "unat s \<ge> 128 \<Longrightarrow> s AND 0x7F = 0x2A \<longleftrightarrow> unat s = 0xAA"
    and "unat s \<ge> 128 \<Longrightarrow> s AND 0x7F = 0x36 \<longleftrightarrow> unat s = 0xB6"
proof -
  have a: "s AND 0x7F = take_bit 7 s" by (simp add: take_bit_eq_mask mask_eq_exp_minus_1)
  have u: "unat (s AND 0x7F) = unat s mod 128" unfolding a by (simp add: take_bit_eq_mod unat_mod)
  have s: "unat s < 256" by (rule unat_u8_less)
  have eq: "s AND 0x7F = w \<longleftrightarrow> unat s mod 128 = unat w" for w using u by (metis word_unat_eq_iff)
  have "(0x80 :: u8) = push_bit 7 1" by simp
  then have "s AND 0x80 \<noteq> 0 \<longleftrightarrow> bit s 7" by (simp only: bit_iff_and_push_bit_not_eq_0)
  also have "\<dots> \<longleftrightarrow> bit (unat s) 7" by (simp add: bit_unsigned_iff)
  also have "\<dots> \<longleftrightarrow> odd (unat s div 128)" by (simp add: bit_iff_odd)
  also have "\<dots> \<longleftrightarrow> unat s \<ge> 128"
  proof (cases "unat s \<ge> 128")
    case True
    then have "unat s div 128 = 1" using s by (simp add: div_if)
    then show ?thesis using True by simp
  qed simp
  finally show "s AND 0x80 \<noteq> 0 \<longleftrightarrow> unat s \<ge> 128" .
  show "unat s \<ge> 128 \<Longrightarrow> s AND 0x7F = 0x2A \<longleftrightarrow> unat s = 0xAA" "unat s \<ge> 128 \<Longrightarrow> s AND 0x7F = 0x36 \<longleftrightarrow> unat s = 0xB6"
    using s unfolding eq by (auto simp: mod_if)
qed

lemma keyboard_handler_rel:
  assumes rel: "kb_rel shift caps line k" and live: "uart_live lsr" and nr: "\<not> line_ready k"
  shows "\<exists>k'. keyboard_handler lsr s k = Some k' \<and> (line_ready k' \<longleftrightarrow> key_of shift caps s = Enter) \<and>
    (case key_of shift caps s of
       Shift d \<Rightarrow> kb_rel d caps line k'
     | Caps \<Rightarrow> kb_rel shift (\<not> caps) line k'
     | Back \<Rightarrow> kb_rel shift caps (butlast line) k'
     | Enter \<Rightarrow> kb_rel shift caps line k'
     | Char c \<Rightarrow> kb_rel shift caps (if length line < 255 then line @ [c] else line) k'
     | Ignore \<Rightarrow> kb_rel shift caps line k')"
proof -
  have sc: "shift_pressed k = shift" "caps_lock k = caps" using rel by (simp_all add: kb_rel_def)
  have less: "s \<ge> 128 \<longleftrightarrow> unat s \<ge> 128" by (simp add: word_le_nat_alt)
  consider "unat s \<ge> 128" | "unat s < 128" "s = 0x2A \<or> s = 0x36" | "unat s < 128" "s = 0x3A"
    | "unat s < 128" "s \<noteq> 0x2A" "s \<noteq> 0x36" "s \<noteq> 0x3A" by linarith
  then show ?thesis
  proof cases
    case 1
    have "kb_rel False caps line (k\<lparr>shift_pressed := False\<rparr>)" using rel by (simp add: kb_rel_def)
    then show ?thesis
      using 1 break_code [of s] rel nr by (auto simp: keyboard_handler_def key_of_def Let_def)
  next
    case 2
    have "kb_rel True caps line (k\<lparr>shift_pressed := True\<rparr>)" using rel by (simp add: kb_rel_def)
    then show ?thesis using 2 break_code(1) [of s] nr by (auto simp: keyboard_handler_def key_of_def)
  next
    case 3
    have "kb_rel shift (\<not> caps) line (k\<lparr>caps_lock := \<not> caps_lock k\<rparr>)" using rel by (simp add: kb_rel_def)
    then show ?thesis using 3 break_code(1) [of s] nr by (auto simp: keyboard_handler_def key_of_def)
  next
    case 4
    let ?c = "key_ascii shift caps s"
    obtain k' where k': "handle_key lsr ?c k = Some k'" "kb_rel shift caps (after_key ?c line) k'" "line_ready k' \<longleftrightarrow> ?c = CHR 0x0A"
      using handle_key_rel [OF rel live nr] by blast
    have h: "keyboard_handler lsr s k = Some (eoi k')"
      using 4 break_code(1) [of s] less k'(1) sc by (simp add: keyboard_handler_def)
    have key: "key_of shift caps s =
        (if ?c = CHR 0x08 then Back else if ?c = CHR 0x0A then Enter else if ?c = NUL then Ignore else Char ?c)"
      using 4 by (simp add: key_of_def Let_def)
    show ?thesis unfolding h key using k'(2,3) by (auto simp: after_key_def)
  qed
qed

lemma wait_line_rel:
  assumes "kb_rel shift caps line k" and "uart_live lsr" and "\<not> line_ready k"
    and "type_line shift caps line codes = Some (result, rest)"
  shows "\<exists>k' shift' caps'. wait_line lsr codes k = Some (rest, k') \<and> kb_rel shift' caps' result k' \<and> line_ready k'"
  using assms(1,3,4)
proof (induction shift caps line codes arbitrary: k rule: type_line.induct)
  case (1 shift caps line)
  then show ?case by simp
next
  case (2 shift caps line s ss)
  obtain k1 where h: "keyboard_handler lsr s k = Some k1" "line_ready k1 \<longleftrightarrow> key_of shift caps s = Enter"
    and c: "case key_of shift caps s of
       Shift d \<Rightarrow> kb_rel d caps line k1
     | Caps \<Rightarrow> kb_rel shift (\<not> caps) line k1
     | Back \<Rightarrow> kb_rel shift caps (butlast line) k1
     | Enter \<Rightarrow> kb_rel shift caps line k1
     | Char c \<Rightarrow> kb_rel shift caps (if length line < 255 then line @ [c] else line) k1
     | Ignore \<Rightarrow> kb_rel shift caps line k1"
    using keyboard_handler_rel [OF "2.prems"(1) assms(2) "2.prems"(2)] by blast
  have w: "wait_line lsr (s # ss) k = wait_line lsr ss k1"
    using h(1) "2.prems"(2) by (subst wait_line.simps) simp
  show ?case
  proof (cases "key_of shift caps s")
    case Enter
    then have "wait_line lsr ss k1 = Some (ss, k1)" using h(2) by (subst wait_line.simps) simp
    then show ?thesis using w c h(2) Enter "2.prems"(3) by auto
  qed (use w c h(2) "2.IH" "2.prems"(3) in auto)
qed

lemma copy_line_spec:
  assumes "length buffer \<ge> max_len" and "i < max_len" and "input_buffer_pos k \<le> length (input_buffer k)"
    and "i \<le> input_buffer_pos k" and "take i buffer = take i (input_buffer k)"
  shows "\<exists>b. copy_line (max_len - i) i k buffer = Some b \<and> length b = length buffer \<and>
    take (min (input_buffer_pos k) (max_len - 1)) b = take (min (input_buffer_pos k) (max_len - 1)) (input_buffer k) \<and>
    b ! min (input_buffer_pos k) (max_len - 1) = NUL"
  using assms
proof (induction "max_len - i" arbitrary: i buffer)
  case 0
  then show ?case by simp
next
  case (Suc n)
  have e: "max_len - i = Suc n" using Suc.hyps(2) by simp
  show ?case
  proof (cases "i < input_buffer_pos k \<and> n > 0")
    case False
    then have m: "min (input_buffer_pos k) (max_len - 1) = i" using Suc.prems e by auto
    show ?thesis unfolding e m using False Suc.prems by auto
  next
    case True
    let ?b = "buffer[i := input_buffer k ! i]"
    have t: "take (Suc i) ?b = take (Suc i) (input_buffer k)"
      using Suc.prems True by (simp add: take_Suc_conv_app_nth)
    have n: "n = max_len - Suc i" using e by simp
    have "copy_line (max_len - i) i k buffer = copy_line (max_len - Suc i) (Suc i) k ?b"
      unfolding e using True Suc.prems n by simp
    then show ?thesis using Suc.hyps(1) [OF n, of ?b] Suc.prems True t n by simp
  qed
qed

text \<open>
  C34. When the user types a line, that is a sequence of scan codes of which the reference editor
  (shift, caps lock, backspace, at most 255 characters) makes the line \<open>result\<close> at the first Enter,
  \<open>keyboard_get_line\<close> returns with \<open>result\<close>, cut to the caller's buffer, as a terminated string; it leaves the
  later scan codes and never writes outside the input buffer, the caller's buffer or the screen.
\<close>

theorem keyboard_line_editor:
  assumes "console_ok (con k)" and "length (input_buffer k) = 256" and "uart_live lsr"
    and "0 < max_len" and "max_len \<le> length b"
    and "type_line (shift_pressed k) (caps_lock k) [] codes = Some (result, rest)"
  shows "\<exists>b' k'. keyboard_get_line lsr codes (Some b) max_len k = Some (Some b', rest, k') \<and>
    length b' = length b \<and> terminated b' \<and> cstring b' = take (max_len - 1) result \<and> console_ok (con k')"
proof -
  let ?k = "k\<lparr>input_buffer_pos := 0, line_ready := False\<rparr>"
  have "kb_rel (shift_pressed k) (caps_lock k) [] ?k" using assms by (simp add: kb_rel_def)
  then obtain k' shift' caps' where w: "wait_line lsr codes ?k = Some (rest, k')" "kb_rel shift' caps' result k'"
    using wait_line_rel [OF _ assms(3) _ assms(6), of ?k] by auto
  have r: "input_buffer_pos k' = length result" "length (input_buffer k') = 256" "length result \<le> 255"
    "take (length result) (input_buffer k') = result" "NUL \<notin> set result" "console_ok (con k')"
    using w(2) by (auto simp: kb_rel_def)
  let ?m = "min (length result) (max_len - 1)"
  obtain b' where b': "copy_line max_len 0 k' b = Some b'" "length b' = length b"
    "take ?m b' = take ?m (input_buffer k')" "b' ! ?m = NUL"
    using copy_line_spec [of max_len b 0 k'] assms(4,5) r by auto
  have "take ?m (input_buffer k') = take ?m (take (length result) (input_buffer k'))" by simp
  then have tk: "take ?m b' = take (max_len - 1) result" using b'(3) r(4) by (simp add: min_def)
  have lt: "?m < length b'" using b'(2) assms(4,5) by auto
  have dec: "b' = take (max_len - 1) result @ NUL # drop (Suc ?m) b'"
    using id_take_nth_drop [OF lt] tk b'(4) by simp
  have nn: "NUL \<notin> set (take (max_len - 1) result)" using r(5) by (meson in_set_takeD)
  have "keyboard_get_line lsr codes (Some b) max_len k = Some (Some b', rest, k')"
    using assms(4) w(1) b'(1) by (simp add: keyboard_get_line_def)
  moreover have "terminated b'" "cstring b' = take (max_len - 1) result"
    using terminated_append_NUL [of "take (max_len - 1) result" "drop (Suc ?m) b'"]
      cstring_append_NUL [OF nn, of "drop (Suc ?m) b'"] unfolding dec [symmetric] by blast+
  ultimately show ?thesis using b'(2) r(6) by blast
qed

definition keyboard_zero :: keyboard where
  "keyboard_zero = \<lparr>con = console_zero, shift_pressed = False, caps_lock = False, input_buffer = replicate 256 NUL,
     input_buffer_pos = 0, line_ready = False\<rparr>"

theorem keyboard_line_editor_witness:
  "\<exists>b' k'. keyboard_get_line (\<lambda>_. 0x20) [0x2A, 0x26, 0xAA, 0x1F, 0x1E, 0x0E, 0x1C, 0x02] (Some (replicate 8 NUL)) 8 keyboard_zero =
    Some (Some b', [0x02], k') \<and> terminated b' \<and> cstring b' = ''Ls''"
proof -
  have "type_line False False [] [0x2A, 0x26, 0xAA, 0x1F, 0x1E, 0x0E, 0x1C, 0x02] = Some (''Ls'', [0x02])"
    by code_simp
  moreover have "uart_live (\<lambda>_. 0x20)" by (auto simp: uart_live_def tx_ready_def)
  moreover have "console_ok (con keyboard_zero)" "length (input_buffer keyboard_zero) = 256"
    "shift_pressed keyboard_zero = False" "caps_lock keyboard_zero = False"
    by (simp_all add: keyboard_zero_def console_zero_def console_ok_def)
  ultimately show ?thesis
    using keyboard_line_editor [of keyboard_zero "\<lambda>_. 0x20" 8 "replicate 8 NUL"
        "[0x2A, 0x26, 0xAA, 0x1F, 0x1E, 0x0E, 0x1C, 0x02]" "''Ls''" "[0x02]"]
    by auto
qed

end
