(* ===== verification/Descriptors.thy ===== *)
theory Descriptors
  imports CString Ports
begin

text \<open>
  The segment and interrupt descriptor tables (src/arch/x86/gdt.c, src/arch/x86/idt.c), the installation of
  the exception gates and the text of the exception screen (src/arch/x86/exceptions.c), and the gates that
  src/kernel/kernel.c and src/kernel/syscall.c install.  The addresses of assembly routines and of
  the tables themselves are arguments.  Loading the tables into the processor is not modelled.
\<close>

section \<open>Segment descriptors\<close>

record gdt_entry =
  limit_low :: u16
  base_low :: u16
  base_middle :: u8
  access_byte :: u8
  granularity :: u8
  base_high :: u8

definition gdt_set_gate :: "nat \<Rightarrow> u32 \<Rightarrow> u32 \<Rightarrow> u8 \<Rightarrow> u8 \<Rightarrow> gdt_entry list \<Rightarrow> gdt_entry list" where
  "gdt_set_gate num base limit acc gran gdt =
     gdt[num := \<lparr>limit_low = ucast (limit AND 0xFFFF), base_low = ucast (base AND 0xFFFF),
                 base_middle = ucast (drop_bit 16 base AND 0xFF), access_byte = acc,
                 granularity = ucast (drop_bit 16 limit AND 0x0F) OR (gran AND 0xF0),
                 base_high = ucast (drop_bit 24 base AND 0xFF)\<rparr>]"

text \<open>The task state segment: the fields that \<open>gdt_init\<close> sets to something other than 0.\<close>

record tss_entry =
  tss_esp0 :: u32
  tss_ss0 :: u32
  tss_iomap_base :: u16

definition gdt_init :: "u32 \<Rightarrow> gdt_entry list \<Rightarrow> gdt_entry list \<times> tss_entry" where
  "gdt_init tss_address gdt =
     (let gdt = gdt_set_gate 0 0 0 0 0 gdt;
          gdt = gdt_set_gate 1 0 0xFFFFF 0x9A 0xCF gdt;
          gdt = gdt_set_gate 2 0 0xFFFFF 0x92 0xCF gdt;
          gdt = gdt_set_gate 3 0 0xFFFFF 0xFA 0xCF gdt;
          gdt = gdt_set_gate 4 0 0xFFFFF 0xF2 0xCF gdt
      in (gdt_set_gate 5 tss_address (104 - 1) 0x89 0x00 gdt, \<lparr>tss_esp0 = 0, tss_ss0 = 0x10, tss_iomap_base = 104\<rparr>))"

text \<open>How the processor reads a descriptor.\<close>

definition seg_base :: "gdt_entry \<Rightarrow> u32" where
  "seg_base d = ucast (base_low d) OR push_bit 16 (ucast (base_middle d)) OR push_bit 24 (ucast (base_high d))"

definition seg_limit :: "gdt_entry \<Rightarrow> u32" where
  "seg_limit d = ucast (limit_low d) OR push_bit 16 (ucast (granularity d AND 0x0F))"

definition seg_dpl :: "gdt_entry \<Rightarrow> u8" where
  "seg_dpl d = drop_bit 5 (access_byte d) AND 3"

section \<open>Interrupt descriptors\<close>

record idt_entry =
  offset_low :: u16
  selector :: u16
  zero :: u8
  type_attr :: u8
  offset_high :: u16

definition idt_set_gate :: "u8 \<Rightarrow> u32 \<Rightarrow> u16 \<Rightarrow> u8 \<Rightarrow> idt_entry list \<Rightarrow> idt_entry list" where
  "idt_set_gate num handler sel flags idt =
     idt[unat num := \<lparr>offset_low = ucast (handler AND 0xFFFF), selector = sel, zero = 0, type_attr = flags,
                      offset_high = ucast (drop_bit 16 handler AND 0xFFFF)\<rparr>]"

definition idt_init :: "idt_entry list" where
  "idt_init = replicate 256 \<lparr>offset_low = 0, selector = 0, zero = 0, type_attr = 0, offset_high = 0\<rparr>"

text \<open>The 32 calls of \<open>exceptions_init\<close>, in order; \<open>stub i\<close> is the address of \<open>exception_i\<close>.\<close>

definition exceptions_init :: "(nat \<Rightarrow> u32) \<Rightarrow> idt_entry list \<Rightarrow> idt_entry list" where
  "exceptions_init stub idt = fold (\<lambda>i. idt_set_gate (of_nat i) (stub i) 0x08 0x8E) [0..<32] idt"

abbreviation KERNEL_CODE_SEGMENT :: u16 where "KERNEL_CODE_SEGMENT \<equiv> 0x08"
abbreviation IDT_FLAGS_KERNEL :: u8 where "IDT_FLAGS_KERNEL \<equiv> 0x8E"
abbreviation IDT_FLAGS_USER :: u8 where "IDT_FLAGS_USER \<equiv> 0xEE"

definition syscall_init :: "u32 \<Rightarrow> idt_entry list \<Rightarrow> idt_entry list" where
  "syscall_init int80_handler idt = idt_set_gate 0x80 int80_handler KERNEL_CODE_SEGMENT IDT_FLAGS_USER idt"

text \<open>The interrupt descriptor table that \<open>kmain\<close> builds.\<close>

definition kmain_idt :: "(nat \<Rightarrow> u32) \<Rightarrow> u32 \<Rightarrow> u32 \<Rightarrow> u32 \<Rightarrow> idt_entry list" where
  "kmain_idt stub irq0_handler irq1_handler int80_handler =
     syscall_init int80_handler
       (idt_set_gate 0x21 irq1_handler KERNEL_CODE_SEGMENT IDT_FLAGS_KERNEL
         (idt_set_gate 0x20 irq0_handler KERNEL_CODE_SEGMENT IDT_FLAGS_KERNEL
           (exceptions_init stub idt_init)))"

definition gate_offset :: "idt_entry \<Rightarrow> u32" where
  "gate_offset d = ucast (offset_low d) OR push_bit 16 (ucast (offset_high d))"

definition gate_dpl :: "idt_entry \<Rightarrow> u8" where
  "gate_dpl d = drop_bit 5 (type_attr d) AND 3"

section \<open>The exception screen\<close>

definition exception_messages :: "string list" where
  "exception_messages =
     [''Divide by Zero'', ''Debug'', ''Non-Maskable Interrupt'', ''Breakpoint'', ''Overflow'', ''Bound Range Exceeded'',
      ''Invalid Opcode'', ''Device Not Available'', ''Double Fault'', ''Coprocessor Segment Overrun'', ''Invalid TSS'',
      ''Segment Not Present'', ''Stack Segment Fault'', ''General Protection Fault'', ''Page Fault'', ''Reserved'',
      ''x87 FPU Error'', ''Alignment Check'', ''Machine Check'', ''SIMD Floating Point Exception'',
      ''Virtualization Exception'', ''Control Protection Exception'', ''Reserved'', ''Reserved'', ''Reserved'',
      ''Reserved'', ''Reserved'', ''Reserved'', ''Hypervisor Injection Exception'', ''VMM Communication Exception'',
      ''Security Exception'', ''Reserved'']"

definition hex_digits :: string where
  "hex_digits = ''0123456789ABCDEF''"

text \<open>The loops that fill the buffers from the back; the buffer has eleven bytes.\<close>

fun hex_loop :: "nat list \<Rightarrow> u32 \<Rightarrow> cbuf \<Rightarrow> cbuf" where
  "hex_loop [] v b = b"
| "hex_loop (i # is) v b = hex_loop is (drop_bit 4 v) (b[i := hex_digits ! unat (v AND 0xF)])"

definition print_hex :: "cbuf \<Rightarrow> u32 \<Rightarrow> string" where
  "print_hex buffer v =
     cstring ((hex_loop (rev [2..<10]) v (buffer[0 := CHR ''0'', 1 := CHR ''x'']))[10 := NUL])"

function dec_loop :: "u32 \<Rightarrow> nat \<Rightarrow> cbuf \<Rightarrow> nat \<times> cbuf" where
  "dec_loop v i b =
     (if v > 0 \<and> i > 0
      then dec_loop (v div 10) (i - 1) (b[i - 1 := char_of (48 + unat (v mod 10))]) else (i, b))"
  by pat_completeness auto
termination
  by (relation "measure (\<lambda>(v, i, b). i)") auto

declare dec_loop.simps [simp del]

definition print_dec :: "cbuf \<Rightarrow> u32 \<Rightarrow> string" where
  "print_dec buffer v =
     (if v = 0 then ''0''
      else let (i, b) = dec_loop v 10 (buffer[10 := NUL]) in cstring (drop i b))"

record exception_registers =
  er_ds :: u32
  er_edi :: u32
  er_esi :: u32
  er_ebp :: u32
  er_esp :: u32
  er_ebx :: u32
  er_edx :: u32
  er_ecx :: u32
  er_eax :: u32
  er_int_no :: u32
  er_err_code :: u32
  er_eip :: u32
  er_cs :: u32
  er_eflags :: u32
  er_useresp :: u32
  er_ss :: u32

text \<open>
  What \<open>exception_handler\<close> writes before it halts: \<open>cr2\<close> is the faulting address that the processor
  reports, and \<open>hex\<close> and \<open>dec\<close> are the two helpers with their uninitialised buffers.
\<close>

definition exception_handler :: "(u32 \<Rightarrow> string) \<Rightarrow> (u32 \<Rightarrow> string) \<Rightarrow> u32 \<Rightarrow> exception_registers \<Rightarrow> string" where
  "exception_handler hex dec cr2 r =
     ''\<newline>======================================\<newline>    KERNEL PANIC - EXCEPTION!\<newline>'' @
     ''======================================\<newline>\<newline>Exception: '' @
     (if er_int_no r < 32 then exception_messages ! unat (er_int_no r) else ''Unknown'') @
     '' ('' @ dec (er_int_no r) @ '')\<newline>Error Code: '' @ hex (er_err_code r) @ ''\<newline>\<newline>'' @
     (if er_int_no r = 14
      then ''Page Fault Details:\<newline>  Faulting Address: '' @ hex cr2 @ ''\<newline>  Cause: '' @
           (if er_err_code r AND 0x1 = 0 then ''Page not present '' else '''') @
           (if er_err_code r AND 0x2 \<noteq> 0 then ''Write access '' else ''Read access '') @
           (if er_err_code r AND 0x4 \<noteq> 0 then ''(User mode)'' else ''(Kernel mode)'') @ ''\<newline>\<newline>''
      else '''') @
     ''Register Dump:\<newline>  EAX='' @ hex (er_eax r) @ ''  EBX='' @ hex (er_ebx r) @ ''  ECX='' @ hex (er_ecx r) @
     ''  EDX='' @ hex (er_edx r) @ ''\<newline>  ESI='' @ hex (er_esi r) @ ''  EDI='' @ hex (er_edi r) @ ''  EBP='' @
     hex (er_ebp r) @ ''  ESP='' @ hex (er_esp r) @ ''\<newline>  EIP='' @ hex (er_eip r) @ ''  CS='' @ hex (er_cs r) @
     ''  DS='' @ hex (er_ds r) @ ''  EFLAGS='' @ hex (er_eflags r) @ ''\<newline>\<newline>Stack Segment: '' @ hex (er_ss r) @
     ''\<newline>User ESP: '' @ hex (er_useresp r) @ ''\<newline>\<newline>======================================\<newline>'' @
     ''System Halted - Cannot Continue\<newline>======================================\<newline>''"

section \<open>Properties\<close>

text \<open>A descriptor decodes to the base and, within 20 bits, to the limit it was made from.\<close>

lemma mask16: "w AND 0xFFFF = take_bit 16 w" and mask8: "w AND 0xFF = take_bit 8 w"
  and mask4: "w AND 0xF = take_bit 4 w" for w :: "'a::len word"
  by (simp_all add: take_bit_eq_mask mask_eq_exp_minus_1)

lemma gdt_set_gate_base:
  assumes "num < length gdt"
  shows "seg_base (gdt_set_gate num base limit acc gran gdt ! num) = base"
proof -
  have "seg_base (gdt_set_gate num base limit acc gran gdt ! num) =
    ucast (ucast (take_bit 16 base) :: u16) OR push_bit 16 (ucast (ucast (take_bit 8 (drop_bit 16 base)) :: u8)) OR
    push_bit 24 (ucast (ucast (take_bit 8 (drop_bit 24 base)) :: u8))"
    using assms by (simp add: gdt_set_gate_def seg_base_def mask16 mask8)
  also have "\<dots> = base"
  proof (rule bit_word_eqI)
    fix n assume "n < LENGTH(32)"
    then consider "n < 16" | "16 \<le> n" "n < 24" | "24 \<le> n" "n < 32" by fastforce
    then show "bit (ucast (ucast (take_bit 16 base) :: u16) OR push_bit 16 (ucast (ucast (take_bit 8 (drop_bit 16 base)) :: u8)) OR
      push_bit 24 (ucast (ucast (take_bit 8 (drop_bit 24 base)) :: u8)) :: u32) n = bit base n"
      by cases (auto simp: bit_simps)
  qed
  finally show ?thesis .
qed

lemma gate_offset_handler:
  assumes "unat num < length idt"
  shows "gate_offset (idt_set_gate num handler sel flags idt ! unat num) = handler"
proof -
  have "gate_offset (idt_set_gate num handler sel flags idt ! unat num) =
    ucast (ucast (take_bit 16 handler) :: u16) OR push_bit 16 (ucast (ucast (take_bit 16 (drop_bit 16 handler)) :: u16))"
    using assms by (simp add: idt_set_gate_def gate_offset_def mask16)
  also have "\<dots> = handler"
    by (rule bit_word_eqI) (auto simp: bit_simps)
  finally show ?thesis .
qed

definition gate :: "u32 \<Rightarrow> u8 \<Rightarrow> idt_entry" where
  "gate handler flags = \<lparr>offset_low = ucast (handler AND 0xFFFF), selector = 0x08, zero = 0, type_attr = flags,
     offset_high = ucast (drop_bit 16 handler AND 0xFFFF)\<rparr>"

lemma gate_sel [simp]:
  "gate_offset (gate handler flags) = handler" "selector (gate handler flags) = 0x08" "type_attr (gate handler flags) = flags"
  using gate_offset_handler [of 0 "[undefined]" handler "0x08" flags]
  by (simp_all add: gate_def idt_set_gate_def)

lemma idt_set_gate_nth:
  assumes "length idt = 256"
  shows "idt_set_gate num handler 0x08 flags idt ! i = (if i = unat num then gate handler flags else idt ! i)"
    and "length (idt_set_gate num handler sel flags idt) = 256"
  using assms unat_u8_less [of num] by (auto simp: idt_set_gate_def gate_def nth_list_update)

lemma exceptions_nth:
  assumes "length idt = 256" and "n \<le> 256"
  shows "length (fold (\<lambda>i. idt_set_gate (of_nat i) (stub i) 0x08 0x8E) [0..<n] idt) = 256 \<and>
    (\<forall>i<256. fold (\<lambda>i. idt_set_gate (of_nat i) (stub i) 0x08 0x8E) [0..<n] idt ! i =
      (if i < n then gate (stub i) 0x8E else idt ! i))"
  using assms(2)
proof (induction n)
  case 0
  then show ?case using assms(1) by simp
next
  case (Suc n)
  have "unat (of_nat n :: u8) = n" using Suc.prems by (simp add: unat_of_nat take_bit_nat_eq_self)
  then show ?case using Suc idt_set_gate_nth by (auto simp: less_Suc_eq)
qed

text \<open>
  C37. In the interrupt descriptor table that the kernel builds at start-up, each of the 32 exceptions, the timer
  and the keyboard lead to their own handler, every other vector except 0x80 is not present, all gates enter the kernel
  code segment, and vector 0x80 (the system call) is the only one that ring 3 may raise by software.
\<close>

theorem kmain_idt_gates:
  "length (kmain_idt stub timer keyb sysc) = 256 \<and>
   (\<forall>i<256. let d = kmain_idt stub timer keyb sysc ! i in
      gate_offset d = (if i < 32 then stub i else if i = 0x20 then timer else if i = 0x21 then keyb
                       else if i = 0x80 then sysc else 0) \<and>
      (bit (type_attr d) 7 \<longleftrightarrow> i < 32 \<or> i = 0x20 \<or> i = 0x21 \<or> i = 0x80) \<and>
      (bit (type_attr d) 7 \<longrightarrow> selector d = 0x08) \<and> (gate_dpl d = 3 \<longleftrightarrow> i = 0x80))"
proof -
  let ?e = "exceptions_init stub idt_init"
  have l0: "length idt_init = 256" by (simp add: idt_init_def)
  have e: "length ?e = 256" "\<And>i. i < 256 \<Longrightarrow> ?e ! i = (if i < 32 then gate (stub i) 0x8E else idt_init ! i)"
    using exceptions_nth [OF l0, of 32 stub] by (simp_all add: exceptions_init_def)
  have z: "idt_init ! i = \<lparr>offset_low = 0, selector = 0, zero = 0, type_attr = 0, offset_high = 0\<rparr>" if "i < 256" for i
    using that by (simp add: idt_init_def)
  have k: "kmain_idt stub timer keyb sysc ! i = (if i = 0x80 then gate sysc 0xEE else if i = 0x21 then gate keyb 0x8E
      else if i = 0x20 then gate timer 0x8E else if i < 32 then gate (stub i) 0x8E else idt_init ! i)" if "i < 256" for i
    using that e by (simp add: kmain_idt_def syscall_init_def idt_set_gate_nth)
  have "length (kmain_idt stub timer keyb sysc) = 256"
    using e by (simp add: kmain_idt_def syscall_init_def idt_set_gate_nth)
  moreover have "gate_dpl (gate h 0x8E) = 0" "gate_dpl (gate h 0xEE) = 3" "bit (0x8E :: u8) 7" "bit (0xEE :: u8) 7" for h
    by (simp_all add: gate_dpl_def)
  ultimately show ?thesis using k z by (auto simp: Let_def gate_offset_def [of "\<lparr>offset_low = 0, selector = 0, zero = 0, type_attr = 0, offset_high = 0\<rparr>"] gate_dpl_def)
qed

theorem kmain_idt_gates_witness:
  "gate_offset (kmain_idt (\<lambda>i. of_nat i) 0x2000 0x2100 0x2200 ! 0x80) = 0x2200 \<and>
   gate_dpl (kmain_idt (\<lambda>i. of_nat i) 0x2000 0x2100 0x2200 ! 0x80) = 3"
proof -
  have "(0x80 :: nat) < 256" by simp
  then show ?thesis
    using kmain_idt_gates [of "\<lambda>i. of_nat i" "0x2000" "0x2100" "0x2200"] by (auto simp: Let_def)
qed

text \<open>The null, kernel and user segments and the task state segment that \<open>gdt_init\<close> installs: base, limit and privilege.\<close>

lemma gdt_init_segments:
  assumes "length gdt = 6"
  shows "map (\<lambda>d. (seg_limit d, seg_dpl d)) (fst (gdt_init tss_address gdt)) =
      [(0, 0), (0xFFFFF, 0), (0xFFFFF, 0), (0xFFFFF, 3), (0xFFFFF, 3), (103, 0)]"
    and "seg_base (fst (gdt_init tss_address gdt) ! 5) = tss_address"
proof -
  obtain a b c d e f where gdt: "gdt = [a, b, c, d, e, f]"
    using assms by (auto simp: length_Suc_conv numeral_eq_Suc)
  show "map (\<lambda>d. (seg_limit d, seg_dpl d)) (fst (gdt_init tss_address gdt)) =
      [(0, 0), (0xFFFFF, 0), (0xFFFFF, 0), (0xFFFFF, 3), (0xFFFFF, 3), (103, 0)]"
    unfolding gdt by (simp add: gdt_init_def gdt_set_gate_def seg_limit_def seg_dpl_def)
  show "seg_base (fst (gdt_init tss_address gdt) ! 5) = tss_address"
    unfolding gdt_init_def Let_def fst_conv using assms by (intro gdt_set_gate_base) (simp add: gdt_set_gate_def)
qed

end
