(* ===== verification/Network.thy ===== *)
theory Network
  imports CString "HOL-Library.Monad_Syntax"
begin

text \<open>
  The networking layer (src/kernel/network.c): the device, the socket table and the Internet checksum.
  A socket pointer is an index into the table, \<open>None\<close> for NULL.  A read of the packet outside the given bytes is
  \<open>None\<close>.  Transmission and reception are stubs in the source; the model returns what they return.
\<close>

section \<open>State\<close>

record socket =
  sock_id :: u32
  local_port :: u16
  remote_port :: u16
  remote_ip :: "u8 list"
  protocol :: u8
  sock_open :: bool

record net_device =
  dev_name :: string
  mac :: "u8 list"
  ip :: "u8 list"
  is_up :: bool

record net =
  net_dev :: net_device
  net_initialized :: bool
  sockets :: "socket list"
  net_out :: string

abbreviation MAX_SOCKETS :: nat where "MAX_SOCKETS \<equiv> 32"

section \<open>Operations\<close>

definition net_init :: "net \<Rightarrow> net" where
  "net_init s =
     (if net_initialized s then s
      else s\<lparr>net_dev := \<lparr>dev_name = ''eth0'', mac = [0x00, 0x11, 0x22, 0x33, 0x44, 0x55], ip = [192, 168, 1, 100], is_up = True\<rparr>,
             sockets := map (\<lambda>x. x\<lparr>sock_open := False\<rparr>) (sockets s),
             net_initialized := True,
             net_out := net_out s @ ''NET: Initializing networking stack...\<newline>NET: eth0 up at 192.168.1.100\<newline>''\<rparr>)"

definition net_set_ip :: "u8 list option \<Rightarrow> net \<Rightarrow> net" where
  "net_set_ip a s = (case a of None \<Rightarrow> s | Some x \<Rightarrow> s\<lparr>net_dev := (net_dev s)\<lparr>ip := x\<rparr>\<rparr>)"

definition net_set_mac :: "u8 list option \<Rightarrow> net \<Rightarrow> net" where
  "net_set_mac a s = (case a of None \<Rightarrow> s | Some x \<Rightarrow> s\<lparr>net_dev := (net_dev s)\<lparr>mac := x\<rparr>\<rparr>)"

definition net_send_packet :: "u32 option \<Rightarrow> net \<Rightarrow> int" where
  "net_send_packet packet_length s =
     (case packet_length of None \<Rightarrow> - 1 | Some n \<Rightarrow> if \<not> is_up (net_dev s) then - 1 else sint n)"

definition net_receive_packet :: "u32 option \<Rightarrow> net \<Rightarrow> int" where
  "net_receive_packet packet_length s =
     (case packet_length of None \<Rightarrow> - 1 | Some n \<Rightarrow> if \<not> is_up (net_dev s) then - 1 else 0)"

definition net_socket_create :: "u8 \<Rightarrow> net \<Rightarrow> nat option \<times> net" where
  "net_socket_create proto s =
     (case first_index (\<lambda>x. \<not> sock_open x) (sockets s) of
        None \<Rightarrow> (None, s)
      | Some i \<Rightarrow>
          (Some i, s\<lparr>sockets := (sockets s)[i := (sockets s ! i)\<lparr>sock_id := of_nat i, protocol := proto, local_port := 0,
                                              remote_port := 0, sock_open := True\<rparr>]\<rparr>))"

definition open_socket :: "nat option \<Rightarrow> net \<Rightarrow> bool" where
  "open_socket p s = (case p of None \<Rightarrow> False | Some i \<Rightarrow> sock_open (sockets s ! i))"

definition upd_socket :: "nat \<Rightarrow> (socket \<Rightarrow> socket) \<Rightarrow> net \<Rightarrow> net" where
  "upd_socket i f s = s\<lparr>sockets := (sockets s)[i := f (sockets s ! i)]\<rparr>"

definition net_socket_bind :: "nat option \<Rightarrow> u16 \<Rightarrow> net \<Rightarrow> int \<times> net" where
  "net_socket_bind p port s =
     (if \<not> open_socket p s then (- 1, s) else (0, upd_socket (the p) (\<lambda>x. x\<lparr>local_port := port\<rparr>) s))"

definition net_socket_connect :: "nat option \<Rightarrow> u8 list option \<Rightarrow> u16 \<Rightarrow> net \<Rightarrow> int \<times> net" where
  "net_socket_connect p a port s =
     (case a of None \<Rightarrow> (- 1, s)
      | Some x \<Rightarrow>
          if \<not> open_socket p s then (- 1, s)
          else (0, upd_socket (the p) (\<lambda>y. y\<lparr>remote_ip := x, remote_port := port\<rparr>) s))"

definition net_socket_send :: "nat option \<Rightarrow> u8 list option \<Rightarrow> u32 \<Rightarrow> net \<Rightarrow> int" where
  "net_socket_send p data sz s = (if \<not> open_socket p s \<or> data = None then - 1 else sint sz)"

definition net_socket_recv :: "nat option \<Rightarrow> u8 list option \<Rightarrow> u32 \<Rightarrow> net \<Rightarrow> int" where
  "net_socket_recv p buffer sz s = (if \<not> open_socket p s \<or> buffer = None then - 1 else 0)"

definition net_socket_close :: "nat option \<Rightarrow> net \<Rightarrow> net" where
  "net_socket_close p s = (case p of None \<Rightarrow> s | Some i \<Rightarrow> upd_socket i (\<lambda>x. x\<lparr>sock_open := False\<rparr>) s)"

text \<open>The checksum: 16-bit words are read in the little-endian order of the machine.\<close>

function sum_loop :: "u8 list \<Rightarrow> nat \<Rightarrow> nat \<Rightarrow> u32 \<Rightarrow> u32 option" where
  "sum_loop data pos len acc =
     (if len > 1
      then if pos + 1 < length data
           then sum_loop data (pos + 2) (len - 2) (acc + (ucast (data ! pos) + push_bit 8 (ucast (data ! (pos + 1))))) else None
      else if len > 0 then if pos < length data then Some (acc + ucast (data ! pos)) else None
      else Some acc)"
  by pat_completeness auto
termination
  by (relation "measure (\<lambda>(data, pos, len, acc). len)") auto

declare sum_loop.simps [simp del]

lemma fold_decreases:
  fixes s :: u32
  assumes "drop_bit 16 s \<noteq> 0"
  shows "unat ((s AND 0xFFFF) + drop_bit 16 s) = unat s mod 65536 + unat s div 65536"
    and "unat s mod 65536 + unat s div 65536 < unat s"
proof -
  have m: "s AND 0xFFFF = take_bit 16 s" by (simp add: take_bit_eq_mask mask_eq_exp_minus_1)
  have u: "unat (s AND 0xFFFF) = unat s mod 65536" "unat (drop_bit 16 s) = unat s div 65536"
    unfolding m by (simp_all add: take_bit_eq_mod drop_bit_eq_div unat_mod unat_div)
  have "unat s div 65536 < 65536" using unat_u32_less [of s] by (simp add: div_less_iff_less_mult)
  moreover have "unat s mod 65536 < 65536" by simp
  ultimately have "unat s mod 65536 + unat s div 65536 < 2 ^ 32" by simp
  then show "unat ((s AND 0xFFFF) + drop_bit 16 s) = unat s mod 65536 + unat s div 65536"
    using u by (simp add: unat_word_ariths)
  have "unat s div 65536 \<noteq> 0" using assms u(2) by (metis unat_eq_0)
  moreover have "unat s = unat s div 65536 * 65536 + unat s mod 65536" by simp
  ultimately show "unat s mod 65536 + unat s div 65536 < unat s" by linarith
qed

function fold_loop :: "u32 \<Rightarrow> u32" where
  "fold_loop acc = (if drop_bit 16 acc \<noteq> 0 then fold_loop ((acc AND 0xFFFF) + drop_bit 16 acc) else acc)"
  by pat_completeness auto
termination
  by (relation "measure unat") (simp_all add: fold_decreases del: unat_eq_0)

declare fold_loop.simps [simp del]

definition net_checksum :: "u8 list \<Rightarrow> nat \<Rightarrow> u16 option" where
  "net_checksum data len = do { acc \<leftarrow> sum_loop data 0 len 0; Some (ucast (NOT (fold_loop acc))) }"

section \<open>The checksum\<close>

text \<open>The sum of the 16-bit words of a packet, the last odd byte counting by itself.\<close>

fun words_sum :: "u8 list \<Rightarrow> nat" where
  "words_sum [] = 0"
| "words_sum [a] = unat a"
| "words_sum (a # b # r) = unat a + 256 * unat b + words_sum r"

lemma words_sum_le: "2 * words_sum d \<le> 65536 * (length d + 1)"
proof (induction d rule: words_sum.induct)
  case (2 a)
  then show ?case using unat_u8_less [of a] by simp
next
  case (3 a b r)
  then show ?case using unat_u8_less [of a] unat_u8_less [of b] by simp
qed simp

lemma words_sum_append: "even (length d) \<Longrightarrow> words_sum (d @ e) = words_sum d + words_sum e"
  by (induction d rule: words_sum.induct) auto

lemma word16_le: "(ucast a + push_bit 8 (ucast b) :: u32) = of_nat (unat a + 256 * unat b)" for a b :: u8
proof -
  have "(ucast a :: u32) = of_nat (unat a)" "(ucast b :: u32) = of_nat (unat b)" by simp_all
  moreover have "push_bit 8 w = w * 256" for w :: u32 by (simp add: push_bit_eq_mult)
  ultimately show ?thesis by simp
qed

lemma sum_loop_words:
  assumes "pos + len \<le> length data"
  shows "sum_loop data pos len acc = Some (acc + of_nat (words_sum (take len (drop pos data))))"
  using assms
proof (induction data pos len acc rule: sum_loop.induct)
  case (1 data pos len acc)
  consider "len = 0" | "len = 1" | "len > 1" by linarith
  then show ?case
  proof cases
    case 1
    then show ?thesis by (subst sum_loop.simps) simp
  next
    case 2
    then have "take len (drop pos data) = [data ! pos]" using "1.prems" by (simp add: take_Suc_conv_app_nth)
    then show ?thesis using 2 "1.prems" by (subst sum_loop.simps) simp
  next
    case 3
    then have p: "pos < length data" "pos + 1 < length data" using "1.prems" by auto
    have "drop pos data = data ! pos # data ! (pos + 1) # drop (pos + 2) data"
      using p by (simp add: Cons_nth_drop_Suc)
    moreover obtain n where "len = Suc (Suc n)" using 3 by (metis One_nat_def Suc_lessE less_natE)
    ultimately have t: "take len (drop pos data) = data ! pos # data ! (pos + 1) # take (len - 2) (drop (pos + 2) data)"
      by simp
    have IH: "sum_loop data (pos + 2) (len - 2) (acc + (ucast (data ! pos) + push_bit 8 (ucast (data ! (pos + 1))))) =
        Some (acc + (ucast (data ! pos) + push_bit 8 (ucast (data ! (pos + 1)))) + of_nat (words_sum (take (len - 2) (drop (pos + 2) data))))"
      using 3 p "1.prems" by (intro "1.IH") auto
    show ?thesis
      using 3 p IH unfolding t by (subst sum_loop.simps) (simp add: word16_le algebra_simps del: push_bit_of_nat)
  qed
qed

lemma fold_loop_spec:
  "unat (fold_loop s) < 65536 \<and> unat (fold_loop s) mod 65535 = unat s mod 65535 \<and> (unat (fold_loop s) = 0 \<longleftrightarrow> unat s = 0)"
proof (induction s rule: fold_loop.induct)
  case (1 s)
  show ?case
  proof (cases "drop_bit 16 s = 0")
    case True
    have "unat (drop_bit 16 s) = unat s div 65536" by (simp add: drop_bit_eq_div unat_div)
    then have "unat s < 65536" using True by (simp add: div_eq_0_iff)
    then show ?thesis using True by (subst (1 2 3) fold_loop.simps) simp
  next
    case False
    let ?s = "(s AND 0xFFFF) + drop_bit 16 s"
    have u: "unat ?s = unat s mod 65536 + unat s div 65536" by (rule fold_decreases(1) [OF False])
    have "unat s = unat s div 65536 * 65536 + unat s mod 65536" by simp
    then have "unat s = unat ?s + 65535 * (unat s div 65536)" using u by linarith
    then have "unat ?s mod 65535 = unat s mod 65535" by (metis mod_mult_self2)
    moreover have "unat ?s = 0 \<longleftrightarrow> unat s = 0" using u by (auto simp: div_eq_0_iff)
    moreover have "fold_loop s = fold_loop ?s" using False by (subst fold_loop.simps) simp
    ultimately show ?thesis using "1.IH" False by simp
  qed
qed

lemma net_checksum_value:
  assumes "length data \<le> 65536"
  shows "\<exists>r. net_checksum data (length data) = Some (of_nat (65535 - r)) \<and> r \<le> 65535 \<and>
    r mod 65535 = words_sum data mod 65535 \<and> (r = 0 \<longleftrightarrow> words_sum data = 0)"
proof -
  let ?s = "of_nat (words_sum data) :: u32"
  let ?r = "unat (fold_loop ?s)"
  have "words_sum data < 2 ^ 32" using words_sum_le [of data] assms by simp
  then have u: "unat ?s = words_sum data" by (simp add: unat_of_nat take_bit_nat_eq_self)
  note f = fold_loop_spec [of ?s]
  have "(ucast (NOT (fold_loop ?s)) :: u16) = NOT (ucast (fold_loop ?s))"
    by (rule bit_word_eqI) (simp add: bit_simps)
  also have "\<dots> = - 1 - ucast (fold_loop ?s)" by (simp add: not_eq_complement)
  also have "\<dots> = (of_nat (65535 - ?r) :: u16)"
  proof -
    have "(ucast (fold_loop ?s) :: u16) = of_nat ?r" by simp
    moreover have "(- 1 :: u16) = of_nat 65535" by simp
    ultimately show ?thesis using f by (simp add: of_nat_diff)
  qed
  finally have "net_checksum data (length data) = Some (of_nat (65535 - ?r))"
    using sum_loop_words [of 0 "length data" data 0] by (simp add: net_checksum_def)
  then show ?thesis using f u by (intro exI [of _ ?r]) auto
qed

text \<open>A packet padded to whole words has the same words.\<close>

definition padded :: "u8 list \<Rightarrow> u8 list" where
  "padded data = (if even (length data) then data else data @ [0])"

lemma padded:
  "even (length (padded data))" "words_sum (padded data) = words_sum data"
  "length data \<le> 65534 \<Longrightarrow> length (padded data) \<le> 65534"
proof -
  show "even (length (padded data))" by (simp add: padded_def)
  have "words_sum (data @ [0]) = words_sum data" if "odd (length data)"
    using that by (induction data rule: words_sum.induct) auto
  then show "words_sum (padded data) = words_sum data" by (simp add: padded_def)
  show "length (padded data) \<le> 65534" if "length data \<le> 65534"
    using that by (cases "length data = 65534") (auto simp: padded_def)
qed

text \<open>
  C36. The Internet checksum: for a packet of at most 65534 bytes the code returns a value that
  complements the sum of its 16-bit words, so that the packet, padded with a zero byte when its length is odd, followed
  by its checksum (in the byte order of the machine) has checksum 0, which is how a receiver verifies it.
\<close>

theorem net_checksum_verifies:
  assumes "length data \<le> 65534"
  shows "\<exists>ck. net_checksum data (length data) = Some ck \<and> (words_sum data + unat ck) mod 65535 = 0 \<and>
    net_checksum (padded data @ [ucast ck, ucast (drop_bit 8 ck)]) (length (padded data) + 2) = Some 0"
proof -
  obtain r where r: "net_checksum data (length data) = Some (of_nat (65535 - r))" "r \<le> 65535"
    "r mod 65535 = words_sum data mod 65535" "r = 0 \<longleftrightarrow> words_sum data = 0"
    using net_checksum_value [of data] assms by auto
  let ?ck = "of_nat (65535 - r) :: u16" and ?w = "words_sum data"
  let ?d = "padded data @ [ucast ?ck, ucast (drop_bit 8 ?ck)]"
  have ck: "unat ?ck = 65535 - r" by (simp add: unat_of_nat take_bit_nat_eq_self)
  have "unat (ucast ?ck :: u8) = unat ?ck mod 256" by (simp add: unsigned_ucast_eq take_bit_eq_mod)
  moreover have "unat (ucast (drop_bit 8 ?ck) :: u8) = unat ?ck div 256"
  proof -
    have "unat (drop_bit 8 ?ck) = unat ?ck div 256" by (simp add: drop_bit_eq_div unat_div)
    moreover have "unat ?ck div 256 < 256" unfolding ck by (simp add: div_less_iff_less_mult)
    ultimately show ?thesis by (simp add: unsigned_ucast_eq take_bit_nat_eq_self)
  qed
  ultimately have w2: "words_sum ?d = ?w + (65535 - r)"
    unfolding words_sum_append [OF padded(1)] words_sum.simps padded(2) using ck by simp
  have "(?w + (65535 - r)) mod 65535 = (r + (65535 - r)) mod 65535" using r(3) by (metis mod_add_left_eq)
  then have z: "(?w + (65535 - r)) mod 65535 = 0" using r(2) by simp
  have pos: "?w + (65535 - r) \<noteq> 0" using r by auto
  obtain r2 where r2: "net_checksum ?d (length ?d) = Some (of_nat (65535 - r2))" "r2 \<le> 65535"
    "r2 mod 65535 = words_sum ?d mod 65535" "r2 = 0 \<longleftrightarrow> words_sum ?d = 0"
    using net_checksum_value [of ?d] padded(3) [OF assms] by auto
  have "r2 = 65535" using r2(2-4) z pos unfolding w2 by (cases "r2 = 65535") auto
  then show ?thesis using r(1) r2(1) z ck by simp
qed

theorem net_checksum_verifies_witness:
  "\<exists>ck. net_checksum [0x45, 0x00, 0x1C] 3 = Some ck \<and>
    net_checksum ([0x45, 0x00, 0x1C, 0] @ [ucast ck, ucast (drop_bit 8 ck)]) 6 = Some 0"
proof -
  have l: "length [0x45, 0x00, 0x1C :: u8] = 3" "padded [0x45, 0x00, 0x1C] = [0x45, 0x00, 0x1C, 0]" "length [0x45, 0x00, 0x1C, 0 :: u8] + 2 = 6"
    by (simp_all add: padded_def)
  show ?thesis using net_checksum_verifies [of "[0x45, 0x00, 0x1C]"] unfolding l by auto
qed

section \<open>The socket table\<close>

text \<open>A new socket is one that was closed, no other socket changes, and a table of open sockets is refused.\<close>

lemma net_socket_create_cases:
  assumes "net_socket_create proto s = (p, s')"
  shows "case p of
      None \<Rightarrow> s' = s \<and> (\<forall>i<length (sockets s). sock_open (sockets s ! i))
    | Some i \<Rightarrow> i < length (sockets s) \<and> \<not> sock_open (sockets s ! i) \<and> sock_open (sockets s' ! i) \<and>
        protocol (sockets s' ! i) = proto \<and> (\<forall>j. j \<noteq> i \<longrightarrow> sockets s' ! j = sockets s ! j)"
  using assms by (auto simp: net_socket_create_def index_simps split: option.splits)

lemma net_socket_errors:
  assumes "\<not> open_socket p s"
  shows "net_socket_bind p port s = (- 1, s)" and "net_socket_connect p a port s = (- 1, s)"
    and "net_socket_send p data sz s = - 1" and "net_socket_recv p data sz s = - 1"
  using assms by (simp_all add: net_socket_bind_def net_socket_connect_def net_socket_send_def net_socket_recv_def split: option.split)

end
