(* ===== verification/Spec2Isabelle.thy ===== *)
theory Spec2Isabelle
  imports Shell IPC VMM Slab Fairness Syscall Command_Props Pipeline Single_Cycle Cache Keyboard Descriptors Network
begin

text \<open>
  Verification of OpenOS, a 32-bit x86 teaching kernel in C.
\<close>

end
